(* ===== verification/AC_Prelude.thy ===== *)
theory AC_Prelude
  imports Main "HOL-Library.Word"
begin

text \<open>
  Shared vocabulary of the development: the machine types of the module (LP64 C), C strings
  and bounded copies, the \<^verbatim>\<open>printf\<close> conversions that the event messages use, and generic
  lemmas on lists, options and words.

  Conventions.  \<^verbatim>\<open>unsigned long\<close>, pointers and \<^verbatim>\<open>u64\<close> are 64-bit words; \<^verbatim>\<open>unsigned int\<close> is a
  32-bit word; \<^verbatim>\<open>int\<close>, \<^verbatim>\<open>long\<close> and \<^verbatim>\<open>pid_t\<close> values are \<open>int\<close>s, converted from words by
  \<open>sint\<close> where the C code reinterprets a register.  A C string is the list of its characters
  without the terminating NUL.
\<close>

unbundle bit_operations_syntax

type_synonym byte = "8 word"
type_synonym u32 = "32 word"
type_synonym u64 = "64 word"
type_synonym addr = "64 word"
type_synonym pid_t = int

named_theorems ac_defs \<open>definitions that component proofs unfold together\<close>

subsection \<open>Error numbers\<close>

text \<open>The kernel's error numbers (\<^verbatim>\<open>errno-base.h\<close>, \<^verbatim>\<open>errno.h\<close>), used negated as return values.\<close>

definition EPERM :: int where "EPERM = 1"
definition ESRCH :: int where "ESRCH = 3"
definition EINTR :: int where "EINTR = 4"
definition EIO :: int where "EIO = 5"
definition ENOMEM :: int where "ENOMEM = 12"
definition EFAULT :: int where "EFAULT = 14"
definition EBUSY :: int where "EBUSY = 16"
definition ENODEV :: int where "ENODEV = 19"
definition EINVAL :: int where "EINVAL = 22"
definition ENOTTY :: int where "ENOTTY = 25"
definition ENOSPC :: int where "ENOSPC = 28"

lemmas errno_defs = EPERM_def ESRCH_def EINTR_def EIO_def ENOMEM_def EFAULT_def EBUSY_def
  ENODEV_def EINVAL_def ENOTTY_def ENOSPC_def

subsection \<open>C strings\<close>

text \<open>\<^verbatim>\<open>strscpy(dst, src, n)\<close>: at most \<open>n - 1\<close> characters, always terminated.\<close>

definition strscpy :: "nat \<Rightarrow> string \<Rightarrow> string" where
  "strscpy n s = take (n - 1) s"

lemma length_strscpy: "length (strscpy n s) \<le> n - 1"
  by (simp add: strscpy_def)

lemma strscpy_idem [simp]: "strscpy n (strscpy n s) = strscpy n s"
  by (simp add: strscpy_def)

text \<open>Digits of a number in a given base, most significant first.\<close>

definition digit_char :: "nat \<Rightarrow> char" where
  "digit_char d = ''0123456789abcdef'' ! d"

function digits_in :: "nat \<Rightarrow> nat \<Rightarrow> string" where
  "digits_in b n =
     (if b < 2 then [] else if n < b then [digit_char n] else digits_in b (n div b) @ [digit_char (n mod b)])"
  by pat_completeness auto
termination
  by (relation "measure snd") auto

declare digits_in.simps [simp del]

text \<open>The conversions \<^verbatim>\<open>%u\<close>, \<^verbatim>\<open>%d\<close>/\<^verbatim>\<open>%ld\<close> and \<^verbatim>\<open>%lx\<close>/\<^verbatim>\<open>%llx\<close>.\<close>

definition fmt_u :: "nat \<Rightarrow> string" where
  "fmt_u n = digits_in 10 n"

definition fmt_d :: "int \<Rightarrow> string" where
  "fmt_d i = (if i < 0 then CHR ''-'' # fmt_u (nat (- i)) else fmt_u (nat i))"

definition fmt_lx :: "u64 \<Rightarrow> string" where
  "fmt_lx w = digits_in 16 (unat w)"

subsection \<open>Lists\<close>

lemma split_in_three: "a \<le> b \<Longrightarrow> xs = take a xs @ drop a (take b xs) @ drop b xs"
  by (metis append_assoc append_take_drop_id min.absorb1 take_take)

lemma mod_add_inj:
  fixes t i j N :: nat
  assumes "i < N" and "j < N"
  shows "(t + i) mod N = (t + j) mod N \<longleftrightarrow> i = j"
proof
  assume eq: "(t + i) mod N = (t + j) mod N"
  show "i = j"
  proof (rule ccontr)
    assume "i \<noteq> j"
    moreover have "N dvd j - i" if "i \<le> j" using eq that mod_eq_dvd_iff_nat [of "t + i" "t + j" N] by simp
    moreover have "N dvd i - j" if "j \<le> i" using eq that mod_eq_dvd_iff_nat [of "t + j" "t + i" N] by simp
    ultimately show False using assms by (cases "i \<le> j") (auto dest!: dvd_imp_le)
  qed
qed simp

end
