(* ===== verification/AC_Sha256.thy ===== *)
theory AC_Sha256
  imports AC_Prelude
begin

text \<open>
  The digest of \<^verbatim>\<open>src/src/sha256.c\<close>: the compression function, the streaming context with its
  64-byte buffer, padding, and the hexadecimal printer.  \<^verbatim>\<open>while\<close> loops whose termination rests
  on the context's invariant are \<^theory_text>\<open>partial_function (option)\<close>s: \<open>None\<close> is a loop that does not
  return, and the lemmas prove that none is ever produced from an initialised context.
\<close>

subsection \<open>Compression function\<close>

text \<open>The table, row by row as the source lays it out.\<close>

definition sha_K :: "u32 list" where
  "sha_K = concat [
    [0x428a2f98, 0x71374491, 0xb5c0fbcf, 0xe9b5dba5, 0x3956c25b, 0x59f111f1],
    [0x923f82a4, 0xab1c5ed5, 0xd807aa98, 0x12835b01, 0x243185be, 0x550c7dc3],
    [0x72be5d74, 0x80deb1fe, 0x9bdc06a7, 0xc19bf174, 0xe49b69c1, 0xefbe4786],
    [0x0fc19dc6, 0x240ca1cc, 0x2de92c6f, 0x4a7484aa, 0x5cb0a9dc, 0x76f988da],
    [0x983e5152, 0xa831c66d, 0xb00327c8, 0xbf597fc7, 0xc6e00bf3, 0xd5a79147],
    [0x06ca6351, 0x14292967, 0x27b70a85, 0x2e1b2138, 0x4d2c6dfc, 0x53380d13],
    [0x650a7354, 0x766a0abb, 0x81c2c92e, 0x92722c85, 0xa2bfe8a1, 0xa81a664b],
    [0xc24b8b70, 0xc76c51a3, 0xd192e819, 0xd6990624, 0xf40e3585, 0x106aa070],
    [0x19a4c116, 0x1e376c08, 0x2748774c, 0x34b0bcb5, 0x391c0cb3, 0x4ed8aa4a],
    [0x5b9cca4f, 0x682e6ff3, 0x748f82ee, 0x78a5636f, 0x84c87814, 0x8cc70208],
    [0x90befffa, 0xa4506ceb, 0xbef9a3f7, 0xc67178f2]]"

definition rotr :: "u32 \<Rightarrow> nat \<Rightarrow> u32" where
  "rotr x n = drop_bit (n mod 32) x OR push_bit ((32 - n mod 32) mod 32) x"

definition be32 :: "byte \<Rightarrow> byte \<Rightarrow> byte \<Rightarrow> byte \<Rightarrow> u32" where
  "be32 p0 p1 p2 p3 =
     push_bit 24 (ucast p0) OR push_bit 16 (ucast p1) OR push_bit 8 (ucast p2) OR ucast p3"

record ac_sha256_ctx =
  ctx_h :: "u32 list"
  ctx_len :: u64
  ctx_buf :: "byte list"
  ctx_buflen :: nat

text \<open>The message schedule: the first loop loads sixteen words, the second extends them to 64.\<close>

definition sha_load :: "byte list \<Rightarrow> u32 list" where
  "sha_load p = map (\<lambda>i. be32 (p ! (i * 4)) (p ! (i * 4 + 1)) (p ! (i * 4 + 2)) (p ! (i * 4 + 3))) [0..<16]"

definition sha_extend :: "u32 list \<Rightarrow> nat \<Rightarrow> u32 list" where
  "sha_extend w i =
     (let s0 = rotr (w ! (i - 15)) 7 XOR rotr (w ! (i - 15)) 18 XOR drop_bit 3 (w ! (i - 15));
          s1 = rotr (w ! (i - 2)) 17 XOR rotr (w ! (i - 2)) 19 XOR drop_bit 10 (w ! (i - 2))
      in w @ [w ! (i - 16) + s0 + w ! (i - 7) + s1])"

definition sha_schedule :: "byte list \<Rightarrow> u32 list" where
  "sha_schedule p = foldl sha_extend (sha_load p) [16..<64]"

type_synonym sha_vars = "u32 \<times> u32 \<times> u32 \<times> u32 \<times> u32 \<times> u32 \<times> u32 \<times> u32"

definition sha_round :: "u32 list \<Rightarrow> sha_vars \<Rightarrow> nat \<Rightarrow> sha_vars" where
  "sha_round w v i =
     (case v of (a, b, cc, d, e, f, g, h) \<Rightarrow>
        let S1 = rotr e 6 XOR rotr e 11 XOR rotr e 25;
            ch = (e AND f) XOR (NOT e AND g);
            t1 = h + S1 + ch + sha_K ! i + w ! i;
            S0 = rotr a 2 XOR rotr a 13 XOR rotr a 22;
            maj = (a AND b) XOR (a AND cc) XOR (b AND cc);
            t2 = S0 + maj
        in (t1 + t2, a, b, cc, d + t1, e, f, g))"

definition ac_sha256_block :: "ac_sha256_ctx \<Rightarrow> byte list \<Rightarrow> ac_sha256_ctx" where
  "ac_sha256_block c p =
     (let H = ctx_h c;
          w = sha_schedule p;
          (a, b, cc, d, e, f, g, h) =
            foldl (sha_round w) (H ! 0, H ! 1, H ! 2, H ! 3, H ! 4, H ! 5, H ! 6, H ! 7) [0..<64]
      in c\<lparr>ctx_h := [H ! 0 + a, H ! 1 + b, H ! 2 + cc, H ! 3 + d,
                     H ! 4 + e, H ! 5 + f, H ! 6 + g, H ! 7 + h]\<rparr>)"

subsection \<open>Streaming interface\<close>

text \<open>\<^verbatim>\<open>ac_sha256_init\<close> leaves \<^verbatim>\<open>buf\<close> as it was in the caller's (uninitialised) context.\<close>

definition ac_sha256_init :: "ac_sha256_ctx \<Rightarrow> ac_sha256_ctx" where
  "ac_sha256_init c = c\<lparr>
     ctx_h := [0x6a09e667, 0xbb67ae85, 0x3c6ef372, 0xa54ff53a,
               0x510e527f, 0x9b05688c, 0x1f83d9ab, 0x5be0cd19],
     ctx_len := 0,
     ctx_buflen := 0\<rparr>"

text \<open>One iteration of the \<^verbatim>\<open>while (len > 0)\<close> loop: fill the buffer, compress it when full.\<close>

definition sha_absorb :: "ac_sha256_ctx \<Rightarrow> byte list \<Rightarrow> ac_sha256_ctx \<times> byte list" where
  "sha_absorb c p =
     (let n = min (64 - ctx_buflen c) (length p);
          buf = take (ctx_buflen c) (ctx_buf c) @ take n p @ drop (ctx_buflen c + n) (ctx_buf c);
          c1 = c\<lparr>ctx_buf := buf, ctx_buflen := ctx_buflen c + n\<rparr>;
          c2 = (if ctx_buflen c1 = 64 then (ac_sha256_block c1 (ctx_buf c1))\<lparr>ctx_buflen := 0\<rparr> else c1)
      in (c2, drop n p))"

partial_function (option) sha_update_loop :: "ac_sha256_ctx \<Rightarrow> byte list \<Rightarrow> ac_sha256_ctx option" where
  "sha_update_loop c p =
     (if p = [] then Some c else (case sha_absorb c p of (c', p') \<Rightarrow> sha_update_loop c' p'))"

declare sha_update_loop.simps [code]

definition ac_sha256_update :: "ac_sha256_ctx \<Rightarrow> byte list \<Rightarrow> ac_sha256_ctx option" where
  "ac_sha256_update c data = sha_update_loop (c\<lparr>ctx_len := ctx_len c + of_nat (length data)\<rparr>) data"

partial_function (option) sha_pad_loop :: "ac_sha256_ctx \<Rightarrow> ac_sha256_ctx option" where
  "sha_pad_loop c =
     (if ctx_buflen c = 56 then Some c
      else Option.bind (ac_sha256_update c [0]) sha_pad_loop)"

declare sha_pad_loop.simps [code]

definition sha_lenbuf :: "u64 \<Rightarrow> byte list" where
  "sha_lenbuf bits = map (\<lambda>i. ucast (drop_bit (56 - i * 8) bits)) [0..<8]"

definition sha_out :: "u32 list \<Rightarrow> byte list" where
  "sha_out H = concat (map (\<lambda>i. [ucast (drop_bit 24 (H ! i)), ucast (drop_bit 16 (H ! i)),
                                 ucast (drop_bit 8 (H ! i)), ucast (H ! i)]) [0..<8])"

definition ac_sha256_final :: "ac_sha256_ctx \<Rightarrow> byte list option" where
  "ac_sha256_final c =
     (let bits = ctx_len c * 8;
          lenbuf = sha_lenbuf bits
      in Option.bind (ac_sha256_update c [0x80]) (\<lambda>c1.
         Option.bind (sha_pad_loop c1) (\<lambda>c2.
         Option.bind (ac_sha256_update c2 lenbuf) (\<lambda>c3.
         Some (sha_out (ctx_h c3))))))"

definition ac_sha256_hex_digest :: "byte list \<Rightarrow> string" where
  "ac_sha256_hex_digest digest =
     concat (map (\<lambda>i. [digit_char (unat (drop_bit 4 (digest ! i))),
                       digit_char (unat (digest ! i AND 0xf))]) [0..<32])"

text \<open>The one-shot digest: \<open>c0\<close> is the uninitialised stack context of \<^verbatim>\<open>ac_sha256_hex\<close>.\<close>

definition ac_sha256_hex :: "ac_sha256_ctx \<Rightarrow> byte list \<Rightarrow> string option" where
  "ac_sha256_hex c0 buf =
     Option.bind (ac_sha256_update (ac_sha256_init c0) buf) (\<lambda>c.
     Option.bind (ac_sha256_final c) (\<lambda>d. Some (ac_sha256_hex_digest d)))"

subsection \<open>Reference: FIPS 180-4\<close>

text \<open>
  The standard's own definitions: rotations by \<open>word_rotr\<close>, the message schedule as a recursive
  function, rounds, padding and splitting into 512-bit blocks.
\<close>

lemma bit_rotr: "k < 32 \<Longrightarrow> bit (rotr x n) k \<longleftrightarrow> bit x ((k + n) mod 32)"
proof -
  assume k: "k < 32"
  define r where "r = n mod 32"
  have r: "r < 32" by (simp add: r_def)
  have e: "(k + n) mod 32 = (k + r) mod 32" by (simp add: r_def mod_add_right_eq)
  have long: "\<not> bit x j" if "32 \<le> j" for j
    using that by (auto dest: bit_imp_le_length)
  have s: "(32 - r) mod 32 = (if r = 0 then 0 else 32 - r)"
    using r by simp
  have m: "(k + r) mod 32 = (if k + r < 32 then k + r else k + r - 32)"
    using k r by (simp add: le_mod_geq)
  show ?thesis using r k long [of "k + r"]
    by (auto simp: rotr_def e s m r_def [symmetric] bit_or_iff bit_drop_bit_eq bit_push_bit_iff add.commute)
qed

lemma rotr_word_rotr: "rotr x n = word_rotr n x"
  by (rule bit_word_eqI) (simp add: bit_rotr bit_word_rotr_iff)

fun fips_W :: "u32 list \<Rightarrow> nat \<Rightarrow> u32" where
  "fips_W M t = (if t < 16 then M ! t else
     (word_rotr 17 (fips_W M (t - 2)) XOR word_rotr 19 (fips_W M (t - 2)) XOR drop_bit 10 (fips_W M (t - 2)))
     + fips_W M (t - 7)
     + (word_rotr 7 (fips_W M (t - 15)) XOR word_rotr 18 (fips_W M (t - 15)) XOR drop_bit 3 (fips_W M (t - 15)))
     + fips_W M (t - 16))"
declare fips_W.simps [simp del]

lemma sha_extend_fold:
  "length M = 16 \<Longrightarrow> foldl sha_extend M [16..<16 + n] = map (fips_W M) [0..<16 + n]"
proof (induction n)
  case 0
  then show ?case by (auto simp: fips_W.simps intro!: nth_equalityI)
next
  case (Suc n)
  have u: "[i..<16 + Suc n] = [i..<16 + n] @ [16 + n]" if "i \<le> 16" for i
    unfolding add_Suc_right using that by (intro upt_Suc_append) simp
  have "foldl sha_extend M [16..<16 + Suc n] = sha_extend (map (fips_W M) [0..<16 + n]) (16 + n)"
    unfolding u [OF order.refl] using Suc by simp
  also have "\<dots> = map (fips_W M) [0..<16 + n] @ [fips_W M (16 + n)]"
    by (simp add: sha_extend_def Let_def rotr_word_rotr fips_W.simps [of M "16 + n"] nth_append)
  finally show ?case unfolding u [OF zero_le] by simp
qed

text \<open>FIPS 180-4, section 6.2.2.\<close>
definition fips_Ch :: "u32 \<Rightarrow> u32 \<Rightarrow> u32 \<Rightarrow> u32" where
  "fips_Ch x y z = (x AND y) XOR (NOT x AND z)"
definition fips_Maj :: "u32 \<Rightarrow> u32 \<Rightarrow> u32 \<Rightarrow> u32" where
  "fips_Maj x y z = (x AND y) XOR (x AND z) XOR (y AND z)"
definition fips_Sigma0 :: "u32 \<Rightarrow> u32" where
  "fips_Sigma0 x = word_rotr 2 x XOR word_rotr 13 x XOR word_rotr 22 x"
definition fips_Sigma1 :: "u32 \<Rightarrow> u32" where
  "fips_Sigma1 x = word_rotr 6 x XOR word_rotr 11 x XOR word_rotr 25 x"

primrec fips_rounds :: "u32 list \<Rightarrow> sha_vars \<Rightarrow> nat \<Rightarrow> sha_vars" where
  "fips_rounds M v 0 = v"
| "fips_rounds M v (Suc t) =
     (let (a, b, c, d, e, f, g, h) = fips_rounds M v t;
          T1 = h + fips_Sigma1 e + fips_Ch e f g + sha_K ! t + fips_W M t;
          T2 = fips_Sigma0 a + fips_Maj a b c
      in (T1 + T2, a, b, c, d + T1, e, f, g))"

definition fips_compress :: "u32 list \<Rightarrow> byte list \<Rightarrow> u32 list" where
  "fips_compress H p =
     (let (a, b, c, d, e, f, g, h) =
            fips_rounds (sha_load p) (H ! 0, H ! 1, H ! 2, H ! 3, H ! 4, H ! 5, H ! 6, H ! 7) 64
      in [a + H ! 0, b + H ! 1, c + H ! 2, d + H ! 3, e + H ! 4, f + H ! 5, g + H ! 6, h + H ! 7])"

lemma length_sha_load [simp]: "length (sha_load p) = 16"
  by (simp add: sha_load_def)

lemma sha_schedule_fips: "sha_schedule p = map (fips_W (sha_load p)) [0..<64]"
  using sha_extend_fold [of "sha_load p" 48] by (simp add: sha_schedule_def)

lemma sha_rounds_fips:
  "n \<le> 64 \<Longrightarrow> foldl (sha_round (sha_schedule p)) v [0..<n] = fips_rounds (sha_load p) v n"
proof (induction n)
  case 0
  then show ?case by simp
next
  case (Suc n)
  then have "n < 64" by simp
  with Suc show ?case
    by (simp add: sha_round_def sha_schedule_fips rotr_word_rotr fips_Sigma0_def fips_Sigma1_def
        fips_Ch_def fips_Maj_def Let_def split: prod.splits)
qed

lemma ac_sha256_block_fips: "ac_sha256_block c p = c\<lparr>ctx_h := fips_compress (ctx_h c) p\<rparr>"
  unfolding ac_sha256_block_def fips_compress_def Let_def sha_rounds_fips [OF order.refl]
  by (simp add: add.commute split: prod.splits)

text \<open>Splitting into blocks, padding and the hash value of a message.\<close>

function chunks64 :: "byte list \<Rightarrow> byte list list" where
  "chunks64 xs = (if length xs < 64 then [] else take 64 xs # chunks64 (drop 64 xs))"
  by pat_completeness auto
termination
  by (relation "measure length") auto
declare chunks64.simps [simp del]

lemma chunks64_short [simp]: "length xs < 64 \<Longrightarrow> chunks64 xs = []"
  by (simp add: chunks64.simps)

lemma chunks64_snoc:
  "length xs mod 64 = 0 \<Longrightarrow> length b = 64 \<Longrightarrow> chunks64 (xs @ b) = chunks64 xs @ [b]"
proof (induction xs rule: chunks64.induct)
  case (1 xs)
  show ?case
  proof (cases "length xs < 64")
    case True
    with 1 have "xs = []" by simp
    with 1 show ?thesis by (simp add: chunks64.simps [of b])
  next
    case False
    then have "length (drop 64 xs) mod 64 = 0" using 1 by (simp add: le_mod_geq [symmetric])
    with 1 False have "chunks64 (drop 64 xs @ b) = chunks64 (drop 64 xs) @ [b]" by simp
    with False show ?thesis
      by (simp add: chunks64.simps [of xs] chunks64.simps [of "xs @ b"])
  qed
qed

definition sha_H0 :: "u32 list" where
  "sha_H0 = [0x6a09e667, 0xbb67ae85, 0x3c6ef372, 0xa54ff53a,
             0x510e527f, 0x9b05688c, 0x1f83d9ab, 0x5be0cd19]"

definition fips_hash :: "byte list \<Rightarrow> u32 list" where
  "fips_hash xs = foldl fips_compress sha_H0 (chunks64 xs)"

definition fips_pad :: "byte list \<Rightarrow> byte list" where
  "fips_pad m = m @ [0x80] @ replicate ((119 - length m mod 64) mod 64) 0 @ sha_lenbuf (of_nat (8 * length m))"

definition sha256_spec :: "byte list \<Rightarrow> byte list" where
  "sha256_spec m = sha_out (fips_hash (fips_pad m))"

subsection \<open>Streaming invariant\<close>

text \<open>
  \<open>absorbed c m\<close>: the context has consumed the bytes \<open>m\<close>; whole blocks are in the chaining value,
  the rest is in the buffer.  \<open>ctx_has\<close> adds the byte counter.
\<close>

definition absorbed :: "ac_sha256_ctx \<Rightarrow> byte list \<Rightarrow> bool" where
  "absorbed c m \<longleftrightarrow>
     length (ctx_buf c) = 64 \<and> ctx_buflen c = length m mod 64 \<and>
     take (ctx_buflen c) (ctx_buf c) = drop (length m - length m mod 64) m \<and>
     ctx_h c = fips_hash (take (length m - length m mod 64) m)"

lemma absorbed_cong: "ctx_buf c = ctx_buf c' \<Longrightarrow> ctx_buflen c = ctx_buflen c' \<Longrightarrow> ctx_h c = ctx_h c' \<Longrightarrow> absorbed c m = absorbed c' m"
  by (simp add: absorbed_def)

lemma absorbed_len_upd [simp]: "absorbed (c\<lparr>ctx_len := l\<rparr>) m = absorbed c m"
  by (simp add: absorbed_def)

lemma fips_hash_snoc: "length xs mod 64 = 0 \<Longrightarrow> length b = 64 \<Longrightarrow> fips_hash (xs @ b) = fips_compress (fips_hash xs) b"
  by (simp add: fips_hash_def chunks64_snoc)

lemma sha_absorb_partial:
  assumes a: "absorbed c m" and len: "ctx_buflen c + length p < 64"
  shows "sha_absorb c p = (c\<lparr>ctx_buf := take (ctx_buflen c) (ctx_buf c) @ p @ drop (ctx_buflen c + length p) (ctx_buf c), ctx_buflen := ctx_buflen c + length p\<rparr>, [])"
    and "absorbed (fst (sha_absorb c p)) (m @ p)"
proof -
  let ?r = "length m mod 64" and ?q = "length m - length m mod 64"
  show eq: "sha_absorb c p = (c\<lparr>ctx_buf := take (ctx_buflen c) (ctx_buf c) @ p @ drop (ctx_buflen c + length p) (ctx_buf c), ctx_buflen := ctx_buflen c + length p\<rparr>, [])"
    using len by (simp add: sha_absorb_def Let_def min_absorb2)
  have r: "(length m + length p) mod 64 = ?r + length p"
  proof -
    have "(length m + length p) mod 64 = (?r + length p) mod 64" by (simp add: mod_add_left_eq)
    then show ?thesis using a len by (simp add: absorbed_def)
  qed
  then have q: "length m + length p - (?r + length p) = ?q" by simp
  have "take (?r + length p) (take ?r (ctx_buf c) @ p @ drop (?r + length p) (ctx_buf c)) = drop ?q m @ p"
    using a len by (auto simp: absorbed_def)
  then show "absorbed (fst (sha_absorb c p)) (m @ p)"
    using a len unfolding eq by (simp add: absorbed_def r)
qed

lemma sha_absorb_full:
  assumes a: "absorbed c m" and len: "64 \<le> ctx_buflen c + length p"
  defines "n \<equiv> 64 - ctx_buflen c"
  shows "snd (sha_absorb c p) = drop n p" and "0 < n" and "n \<le> length p"
    and "absorbed (fst (sha_absorb c p)) (m @ take n p)"
    and "ctx_len (fst (sha_absorb c p)) = ctx_len c"
proof -
  let ?r = "length m mod 64" and ?q = "length m - length m mod 64"
  have b: "ctx_buflen c = ?r" and lb: "length (ctx_buf c) = 64"
    and tb: "take ?r (ctx_buf c) = drop ?q m" and h: "ctx_h c = fips_hash (take ?q m)"
    using a by (auto simp: absorbed_def)
  show n0: "0 < n" and nl: "n \<le> length p" using b len by (auto simp: n_def)
  have mn: "min (64 - ctx_buflen c) (length p) = n" using nl by (simp add: n_def)
  let ?blk = "drop ?q m @ take n p"
  have rn: "?r + n = 64" by (simp add: n_def b)
  have buf: "take (ctx_buflen c) (ctx_buf c) @ take n p @ drop (ctx_buflen c + n) (ctx_buf c) = ?blk"
    using rn lb tb by (simp add: b)
  have eq: "sha_absorb c p = (c\<lparr>ctx_buf := ?blk, ctx_buflen := 0, ctx_h := fips_compress (ctx_h c) ?blk\<rparr>, drop n p)"
    unfolding sha_absorb_def mn Let_def buf using rn by (simp add: b ac_sha256_block_fips)
  then show "snd (sha_absorb c p) = drop n p" and "ctx_len (fst (sha_absorb c p)) = ctx_len c"
    by simp_all
  have lblk: "length ?blk = 64" using rn nl by simp
  have mt: "m @ take n p = take ?q m @ ?blk" unfolding append.assoc [symmetric] by simp
  have q0: "length (take ?q m) mod 64 = 0" by simp
  have "length (m @ take n p) = ?q + 64" using rn nl by simp
  then have l0: "length (m @ take n p) mod 64 = 0" by (simp only: mod_add_self2) simp
  have "fips_hash (m @ take n p) = fips_compress (fips_hash (take ?q m)) ?blk"
    unfolding mt using q0 lblk by (rule fips_hash_snoc)
  then show "absorbed (fst (sha_absorb c p)) (m @ take n p)"
    unfolding eq using l0 lblk h nl by (simp add: absorbed_def min_absorb2)
qed

lemma sha_update_loop_Nil [simp]: "sha_update_loop c [] = Some c"
  by (subst sha_update_loop.simps) simp

lemma sha_update_loop_step:
  "p \<noteq> [] \<Longrightarrow> sha_update_loop c p = sha_update_loop (fst (sha_absorb c p)) (snd (sha_absorb c p))"
  by (subst sha_update_loop.simps) (simp add: case_prod_beta)

lemma sha_update_loop_absorbed:
  "absorbed c m \<Longrightarrow> \<exists>c'. sha_update_loop c p = Some c' \<and> absorbed c' (m @ p) \<and> ctx_len c' = ctx_len c"
proof (induction "length p" arbitrary: c m p rule: less_induct)
  case less
  show ?case
  proof (cases "p = []")
    case True
    with less show ?thesis by simp
  next
    case False
    show ?thesis
    proof (cases "ctx_buflen c + length p < 64")
      case True
      note p = sha_absorb_partial [OF less.prems True]
      have "snd (sha_absorb c p) = []" and "ctx_len (fst (sha_absorb c p)) = ctx_len c"
        by (simp_all add: p(1))
      with p(2) show ?thesis by (simp add: sha_update_loop_step [OF False, of c])
    next
      case full: False
      define n where "n = 64 - ctx_buflen c"
      from full have "64 \<le> ctx_buflen c + length p" by simp
      note f = sha_absorb_full [OF less.prems this, folded n_def]
      have "length (drop n p) < length p" using f(2,3) by simp
      from less.hyps [OF this f(4)] obtain c' where
        "sha_update_loop (fst (sha_absorb c p)) (drop n p) = Some c'" "absorbed c' (m @ p)"
        "ctx_len c' = ctx_len c"
        using f(5) by (auto simp: append.assoc)
      with f(1) show ?thesis by (simp add: sha_update_loop_step [OF False, of c])
    qed
  qed
qed

definition ctx_has :: "ac_sha256_ctx \<Rightarrow> byte list \<Rightarrow> bool" where
  "ctx_has c m \<longleftrightarrow> absorbed c m \<and> ctx_len c = of_nat (length m)"

lemma ctx_has_init: "length (ctx_buf c0) = 64 \<Longrightarrow> ctx_has (ac_sha256_init c0) []"
  by (simp add: ctx_has_def absorbed_def ac_sha256_init_def fips_hash_def sha_H0_def)

lemma ac_sha256_update_has:
  assumes "ctx_has c m"
  shows "\<exists>c'. ac_sha256_update c d = Some c' \<and> ctx_has c' (m @ d)"
proof -
  let ?c = "c\<lparr>ctx_len := ctx_len c + of_nat (length d)\<rparr>"
  have "absorbed ?c m" using assms by (simp add: ctx_has_def)
  from sha_update_loop_absorbed [OF this, of d] show ?thesis
    using assms by (auto simp: ac_sha256_update_def ctx_has_def)
qed

definition pad_zeros :: "nat \<Rightarrow> nat" where
  "pad_zeros l = (120 - l mod 64) mod 64"

lemma mod64_Suc: "Suc l mod 64 = (if l mod 64 = 63 then 0 else Suc (l mod 64))"
  by (simp add: mod_Suc)

lemma pad_zeros_cases: "pad_zeros l = (if l mod 64 \<le> 56 then 56 - l mod 64 else 120 - l mod 64)"
proof (cases "l mod 64 \<le> 56")
  case True
  then have "120 - l mod 64 = (56 - l mod 64) + 64" by simp
  then have "pad_zeros l = (56 - l mod 64) mod 64" unfolding pad_zeros_def by (simp only: mod_add_self2)
  with True show ?thesis by simp
next
  case False
  then show ?thesis by (simp add: pad_zeros_def)
qed

lemma pad_zeros_step: "l mod 64 \<noteq> 56 \<Longrightarrow> pad_zeros l = Suc (pad_zeros (Suc l))"
proof -
  assume "l mod 64 \<noteq> 56"
  moreover have "l mod 64 < 64" by simp
  ultimately show ?thesis unfolding pad_zeros_cases mod64_Suc by auto
qed

lemma pad_zeros_done: "l mod 64 = 56 \<Longrightarrow> pad_zeros l = 0"
  by (simp add: pad_zeros_def)

lemma sha_pad_loop_has:
  "ctx_has c m \<Longrightarrow> \<exists>c'. sha_pad_loop c = Some c' \<and> ctx_has c' (m @ replicate (pad_zeros (length m)) 0)"
proof (induction "pad_zeros (length m)" arbitrary: c m)
  case 0
  then have "ctx_buflen c = 56" using pad_zeros_step [of "length m"] by (auto simp: ctx_has_def absorbed_def)
  with 0 show ?case by (subst sha_pad_loop.simps) simp
next
  case (Suc k)
  then have ne: "length m mod 64 \<noteq> 56" using pad_zeros_done by auto
  then have k: "k = pad_zeros (length (m @ [0]))" using Suc pad_zeros_step [of "length m"] by simp
  from ac_sha256_update_has [OF Suc.prems] obtain c1 where
    c1: "ac_sha256_update c [0] = Some c1" "ctx_has c1 (m @ [0])" by blast
  from Suc.hyps(1) [OF k c1(2)] obtain c' where
    "sha_pad_loop c1 = Some c'" "ctx_has c' ((m @ [0]) @ replicate k 0)" using k by auto
  moreover have "ctx_buflen c \<noteq> 56" using ne Suc.prems by (simp add: ctx_has_def absorbed_def)
  ultimately show ?case using c1(1) Suc.hyps(2) by (subst sha_pad_loop.simps) (simp flip: Suc.hyps(2))
qed

lemma length_sha_lenbuf [simp]: "length (sha_lenbuf b) = 8"
  by (simp add: sha_lenbuf_def)

lemma pad_zeros_Suc: "pad_zeros (Suc l) = (119 - l mod 64) mod 64"
proof -
  have "l mod 64 < 64" by simp
  then show ?thesis by (auto simp: pad_zeros_def mod64_Suc)
qed

lemma length_fips_pad: "length (fips_pad m) mod 64 = 0"
proof -
  let ?l = "Suc (length m)"
  have "length (fips_pad m) = ?l + pad_zeros ?l + 8"
    by (simp add: fips_pad_def pad_zeros_Suc)
  moreover have "?l + pad_zeros ?l + 8 = (?l - ?l mod 64) + (?l mod 64 + pad_zeros ?l + 8)"
    using mod_less_eq_dividend [of ?l 64] by linarith
  moreover have "(?l mod 64 + pad_zeros ?l + 8) mod 64 = 0"
    using mod_less_divisor [of 64 ?l] by (auto simp: pad_zeros_cases)
  ultimately show ?thesis
    using mod_add_eq [of "?l - ?l mod 64" 64 "?l mod 64 + pad_zeros ?l + 8"] by simp
qed

lemma ac_sha256_final_has:
  assumes "ctx_has c m"
  shows "ac_sha256_final c = Some (sha256_spec m)"
proof -
  obtain c1 where c1: "ac_sha256_update c [0x80] = Some c1" "ctx_has c1 (m @ [0x80])"
    using ac_sha256_update_has [OF assms] by blast
  obtain c2 where c2: "sha_pad_loop c1 = Some c2"
    "ctx_has c2 ((m @ [0x80]) @ replicate ((119 - length m mod 64) mod 64) 0)"
    using sha_pad_loop_has [OF c1(2)] by (auto simp: pad_zeros_Suc)
  obtain c3 where c3: "ac_sha256_update c2 (sha_lenbuf (ctx_len c * 8)) = Some c3"
    and h3: "ctx_has c3 (((m @ [0x80]) @ replicate ((119 - length m mod 64) mod 64) 0) @ sha_lenbuf (ctx_len c * 8))"
    using ac_sha256_update_has [OF c2(2)] by blast
  have "ctx_len c * 8 = of_nat (8 * length m)"
    using assms by (simp add: ctx_has_def mult.commute)
  with h3 have "ctx_has c3 (fips_pad m)" by (simp add: fips_pad_def)
  then have "ctx_h c3 = fips_hash (fips_pad m)"
    using length_fips_pad [of m] by (simp add: ctx_has_def absorbed_def)
  with c1 c2 c3 show ?thesis by (simp add: ac_sha256_final_def sha256_spec_def)
qed

subsection \<open>Interface of an incremental digest\<close>

text \<open>
  What a caller of \<^verbatim>\<open>init\<close>/\<^verbatim>\<open>update\<close>/\<^verbatim>\<open>final\<close> relies on: every update returns, the context stands
  for the concatenation of what it was given, and the result depends on that concatenation only.
\<close>

locale streaming_hash =
  fixes has :: "'c \<Rightarrow> 'b list \<Rightarrow> bool"
    and update :: "'c \<Rightarrow> 'b list \<Rightarrow> 'c option"
    and finish :: "'c \<Rightarrow> 'd option"
    and spec :: "'b list \<Rightarrow> 'd"
  assumes update_has: "has c m \<Longrightarrow> \<exists>c'. update c d = Some c' \<and> has c' (m @ d)"
    and finish_spec: "has c m \<Longrightarrow> finish c = Some (spec m)"
begin

lemma updates_has:
  "has c m \<Longrightarrow> \<exists>c'. foldl (\<lambda>h d. Option.bind h (\<lambda>c. update c d)) (Some c) ds = Some c' \<and> has c' (m @ concat ds)"
proof (induction ds arbitrary: c m)
  case Nil
  then show ?case by simp
next
  case (Cons d ds)
  from update_has [OF Cons.prems] obtain c1 where c1: "update c d = Some c1" "has c1 (m @ d)" by blast
  from Cons.IH [OF c1(2)] c1(1) show ?case by auto
qed

lemma updates_finish:
  assumes "has c m"
  shows "Option.bind (foldl (\<lambda>h d. Option.bind h (\<lambda>c. update c d)) (Some c) ds) finish = Some (spec (m @ concat ds))"
  using updates_has [OF assms, of ds] finish_spec by auto

lemma piecewise_irrelevant:
  assumes "has c m" and "has c' m" and "concat ds = concat ds'"
  shows "Option.bind (foldl (\<lambda>h d. Option.bind h (\<lambda>c. update c d)) (Some c) ds) finish =
         Option.bind (foldl (\<lambda>h d. Option.bind h (\<lambda>c. update c d)) (Some c') ds') finish"
  by (simp only: updates_finish [OF assms(1)] updates_finish [OF assms(2)] assms(3))

end

interpretation sha: streaming_hash ctx_has ac_sha256_update ac_sha256_final sha256_spec
  by unfold_locales (fact ac_sha256_update_has, fact ac_sha256_final_has)

subsection \<open>Hexadecimal output\<close>

definition hex_byte :: "byte \<Rightarrow> string" where
  "hex_byte b = [digit_char (unat (drop_bit 4 b)), digit_char (unat (b AND 0xf))]"

lemma digit_char_inj: "a < 16 \<Longrightarrow> b < 16 \<Longrightarrow> digit_char a = digit_char b \<longleftrightarrow> a = b"
  unfolding digit_char_def by (subst nth_eq_iff_index_eq) auto

lemma hi_nibble_bound: "unat (drop_bit 4 (b :: byte)) < 16"
  using unsigned_less [of b, where 'a = nat] by (simp add: unat_drop_bit_eq drop_bit_eq_div [of _ "unat b"])

lemma lo_nibble: "unat (b AND 0xf :: byte) = unat b mod 16"
proof -
  have "b AND 0xf = take_bit 4 b" by (simp add: take_bit_eq_mask mask_eq_decr_exp)
  then show ?thesis by (simp add: unsigned_take_bit_eq take_bit_eq_mod [of _ "unat b"])
qed

lemma hex_byte_inj: "hex_byte a = hex_byte b \<Longrightarrow> a = b"
proof -
  assume "hex_byte a = hex_byte b"
  then have "unat (drop_bit 4 a) = unat (drop_bit 4 b)" and "unat a mod 16 = unat b mod 16"
    by (simp_all add: hex_byte_def digit_char_inj hi_nibble_bound lo_nibble)
  then have "unat a div 16 = unat b div 16" and "unat a mod 16 = unat b mod 16"
    by (simp_all add: unat_drop_bit_eq drop_bit_eq_div [of _ "unat _"])
  then have "unat a = unat b" by (metis div_mult_mod_eq)
  then show ?thesis by (rule unsigned_word_eqI)
qed

lemma hex_digest_bytes: "length d = 32 \<Longrightarrow> ac_sha256_hex_digest d = concat (map hex_byte d)"
proof -
  assume "length d = 32"
  then have "map hex_byte d = map (\<lambda>i. hex_byte (d ! i)) [0..<32]"
    using arg_cong [OF map_nth [of d], of "map hex_byte"] by (simp add: comp_def)
  then show ?thesis by (simp only: ac_sha256_hex_digest_def hex_byte_def)
qed

lemma length_hex_digest: "length (ac_sha256_hex_digest d) = 64"
  by (simp add: ac_sha256_hex_digest_def length_concat comp_def sum_list_triv)

lemma length_sha_out: "length (sha_out H) = 32"
  by (simp add: sha_out_def length_concat comp_def sum_list_triv)

lemma length_sha256_spec [simp]: "length (sha256_spec m) = 32"
  by (simp add: sha256_spec_def length_sha_out)

lemma hex_digest_eq_iff:
  assumes "length d = 32" and "length d' = 32"
  shows "ac_sha256_hex_digest d = ac_sha256_hex_digest d' \<longleftrightarrow> d = d'"
proof
  assume "ac_sha256_hex_digest d = ac_sha256_hex_digest d'"
  then have "concat (map hex_byte d) = concat (map hex_byte d')"
    using assms by (simp add: hex_digest_bytes)
  moreover have "\<forall>(x, y) \<in> set (zip (map hex_byte d) (map hex_byte d')). length x = length y"
    by (auto simp: zip_map_map hex_byte_def)
  ultimately have "map hex_byte d = map hex_byte d'"
    using assms by (intro concat_injective) auto
  then show "d = d'" using hex_byte_inj by (simp add: inj_on_def inj_map_eq_map)
qed simp

lemma sha256_hex_value:
  "length (ctx_buf c0) = 64 \<Longrightarrow> ac_sha256_hex c0 m = Some (ac_sha256_hex_digest (sha256_spec m))"
  using sha.updates_finish [OF ctx_has_init, of c0 "[m]"] by (auto simp: ac_sha256_hex_def bind_eq_Some_conv)

subsection \<open>The constants\<close>

text \<open>
  FIPS 180-4 takes the round constants and the initial value from the fractional parts of cube and
  square roots of the first primes; the tables are checked against that definition.
\<close>

definition first_primes :: "nat list" where
  "first_primes = filter (\<lambda>p. list_all (\<lambda>d. d dvd p \<longrightarrow> d = p) [2..<18]) [2..<312]"

definition cbrt_floor :: "nat \<Rightarrow> nat" where
  "cbrt_floor p = (if p < 8 then 1 else if p < 27 then 2 else if p < 64 then 3 else if p < 125 then 4
     else if p < 216 then 5 else 6)"

definition sqrt_floor :: "nat \<Rightarrow> nat" where
  "sqrt_floor p = (if p < 4 then 1 else if p < 9 then 2 else if p < 16 then 3 else 4)"

definition frac_root_bits :: "nat \<Rightarrow> nat \<Rightarrow> nat \<Rightarrow> u32 \<Rightarrow> bool" where
  "frac_root_bits k p r w \<longleftrightarrow>
     (r * 2 ^ 32 + unat w) ^ k \<le> p * 2 ^ (32 * k) \<and> p * 2 ^ (32 * k) < (r * 2 ^ 32 + unat w + 1) ^ k"

lemma first_primes_eval: "first_primes = [2, 3, 5, 7, 11, 13, 17, 19, 23, 29, 31, 37, 41, 43, 47, 53, 59,
  61, 67, 71, 73, 79, 83, 89, 97, 101, 103, 107, 109, 113, 127, 131, 137, 139, 149, 151, 157, 163, 167,
  173, 179, 181, 191, 193, 197, 199, 211, 223, 227, 229, 233, 239, 241, 251, 257, 263, 269, 271, 277,
  281, 283, 293, 307, 311]"
  by (simp add: first_primes_def upt_rec)

lemma sha_K_roots: "length sha_K = 64 \<and> list_all2 (\<lambda>p. frac_root_bits 3 p (cbrt_floor p)) first_primes sha_K"
  unfolding first_primes_eval by (simp add: sha_K_def frac_root_bits_def cbrt_floor_def sqrt_floor_def)

lemma sha_H0_roots: "list_all2 (\<lambda>p. frac_root_bits 2 p (sqrt_floor p)) (take 8 first_primes) sha_H0"
  unfolding first_primes_eval by (simp add: sha_H0_def frac_root_bits_def cbrt_floor_def sqrt_floor_def)

subsection \<open>Properties\<close>

text \<open>C26: \<^verbatim>\<open>ac_sha256_hex\<close> always returns, and what it returns is the hexadecimal SHA-256 value (FIPS
  180-4: padding, message schedule, 64 rounds per block) of its input, for every input and whatever
  the uninitialised stack context held.\<close>

theorem ac_sha256_hex_correct:
  assumes "length (ctx_buf c0) = 64"
  shows "ac_sha256_hex c0 m = Some (ac_sha256_hex_digest (sha256_spec m))"
  using assms by (rule sha256_hex_value)

definition sha_ctx0 :: ac_sha256_ctx where
  "sha_ctx0 = \<lparr>ctx_h = replicate 8 0, ctx_len = 0, ctx_buf = replicate 64 0, ctx_buflen = 0\<rparr>"

text \<open>The FIPS 180-4 example message \<open>abc\<close>, evaluated by the kernel.\<close>

lemma sha_abc_vector:
  "ac_sha256_hex sha_ctx0 [0x61, 0x62, 0x63] =
     Some ''ba7816bf8f01cfea414140de5dae2223b00361a396177a9cb410ff61f20015ad''"
  by code_simp

theorem ac_sha256_hex_correct_witness:
  "length (ctx_buf sha_ctx0) = 64 \<and>
   ac_sha256_hex_digest (sha256_spec [0x61, 0x62, 0x63]) =
     ''ba7816bf8f01cfea414140de5dae2223b00361a396177a9cb410ff61f20015ad''"
proof -
  have l: "length (ctx_buf sha_ctx0) = 64" by (simp add: sha_ctx0_def)
  show ?thesis using l ac_sha256_hex_correct [OF l, of "[0x61, 0x62, 0x63]"] sha_abc_vector by simp
qed

text \<open>The digest does not depend on how the input is cut into \<^verbatim>\<open>ac_sha256_update\<close> calls: feeding any
  sequence of pieces and finishing returns, and gives the SHA-256 value of their concatenation.\<close>

theorem ac_sha256_update_streaming:
  assumes "length (ctx_buf c0) = 64"
  shows "Option.bind (foldl (\<lambda>h d. Option.bind h (\<lambda>c. ac_sha256_update c d)) (Some (ac_sha256_init c0)) ds)
           ac_sha256_final = Some (sha256_spec (concat ds))"
  using sha.updates_finish [OF ctx_has_init [OF assms], of ds] by simp

theorem ac_sha256_update_streaming_witness:
  "length (ctx_buf sha_ctx0) = 64 \<and>
   Option.bind (foldl (\<lambda>h d. Option.bind h (\<lambda>c. ac_sha256_update c d)) (Some (ac_sha256_init sha_ctx0))
      [[0x61], [], [0x62, 0x63]]) ac_sha256_final = Some (sha256_spec [0x61, 0x62, 0x63])"
proof -
  have l: "length (ctx_buf sha_ctx0) = 64" by (simp add: sha_ctx0_def)
  show ?thesis using l ac_sha256_update_streaming [OF l, of "[[0x61], [], [0x62, 0x63]]"] by simp
qed

text \<open>The hexadecimal form is 64 characters long and determines the digest: the \<^verbatim>\<open>strcmp\<close> of two hex
  strings that the syscall-table check uses decides equality of the digests themselves.\<close>

theorem ac_sha256_hex_digest_inj:
  assumes "length d = 32" and "length d' = 32"
  shows "length (ac_sha256_hex_digest d) = 64 \<and> (ac_sha256_hex_digest d = ac_sha256_hex_digest d' \<longleftrightarrow> d = d')"
  using assms by (simp add: length_hex_digest hex_digest_eq_iff)

theorem ac_sha256_hex_digest_inj_witness:
  "ac_sha256_hex_digest (replicate 32 0) \<noteq> ac_sha256_hex_digest (replicate 31 0 @ [1])"
proof -
  have "replicate 32 (0::byte) \<noteq> replicate 31 0 @ [1]" by (simp add: replicate_app_Cons_same [symmetric] numeral_eq_Suc)
  then show ?thesis
    using ac_sha256_hex_digest_inj [of "replicate 32 0" "replicate 31 0 @ [1]"] by simp
qed

text \<open>The constant tables are those of FIPS 180-4: the 64 round constants are the first 32 bits of the
  fractional parts of the cube roots of the first 64 primes, and the initial chaining value set by
  \<^verbatim>\<open>ac_sha256_init\<close> those of the square roots of the first eight.\<close>

theorem sha_constants_fips:
  "length sha_K = 64 \<and> list_all2 (\<lambda>p. frac_root_bits 3 p (cbrt_floor p)) first_primes sha_K \<and>
   list_all2 (\<lambda>p. frac_root_bits 2 p (sqrt_floor p)) (take 8 first_primes) (ctx_h (ac_sha256_init c))"
  using sha_K_roots sha_H0_roots by (simp add: ac_sha256_init_def sha_H0_def)

end
