(* ===== verification/AC_Abi.thy ===== *)
theory AC_Abi
  imports AC_Prelude
begin

text \<open>
  The interface shared by module and daemon, \<^verbatim>\<open>src/src/anticheat.h\<close>: limits, ioctl requests, event
  types, VM flag bits and the structures that cross the ioctl boundary.  A character array is the
  string it holds; an array with a separate count is a list.
\<close>

subsection \<open>Limits\<close>

definition AC_IOCTL_VERSION :: u64 where "AC_IOCTL_VERSION = 2"
definition AC_GET_EVENTS_MAX_BLOCK_MS :: nat where "AC_GET_EVENTS_MAX_BLOCK_MS = 1000"
definition AC_MAX_COMM :: nat where "AC_MAX_COMM = 16"
definition AC_MAX_VMAS :: nat where "AC_MAX_VMAS = 4096"
definition AC_VMA_PATH :: nat where "AC_VMA_PATH = 128"
definition AC_MOD_NAME_LEN :: nat where "AC_MOD_NAME_LEN = 64"
definition AC_MAX_EVENTS :: nat where "AC_MAX_EVENTS = 64"
definition AC_MAX_PROTS :: nat where "AC_MAX_PROTS = 64"
definition AC_MAX_MODS :: nat where "AC_MAX_MODS = 1024"
definition AC_EVENT_DATA :: nat where "AC_EVENT_DATA = 128"

subsection \<open>Requests\<close>

text \<open>The request of an ioctl call; any number that is none of these reaches the default branch.\<close>

datatype ac_cmd =
    AC_IOCTL_STATUS
  | AC_IOCTL_ADD_PROC
  | AC_IOCTL_DEL_PROC
  | AC_IOCTL_SCAN_BEGIN
  | AC_IOCTL_CHECK_SYSCALLS
  | AC_IOCTL_GET_EVENTS
  | AC_IOCTL_FLUSH_EVENTS
  | AC_IOCTL_LIST_PROTECTED
  | AC_IOCTL_LOCK
  | AC_IOCTL_UNLOCK
  | AC_IOCTL_SCAN_GET
  | AC_IOCTL_SCAN_END
  | AC_IOCTL_MODS_BEGIN
  | AC_IOCTL_MODS_GET
  | AC_IOCTL_MODS_END
  | AC_IOCTL_OTHER u32

subsection \<open>Event types\<close>

definition AC_EV_FORK :: u32 where "AC_EV_FORK = 1"
definition AC_EV_EXEC :: u32 where "AC_EV_EXEC = 2"
definition AC_EV_EXIT :: u32 where "AC_EV_EXIT = 3"
definition AC_EV_PTRACE :: u32 where "AC_EV_PTRACE = 4"
definition AC_EV_SYSCALL_HOOK :: u32 where "AC_EV_SYSCALL_HOOK = 5"
definition AC_EV_RWX :: u32 where "AC_EV_RWX = 6"
definition AC_EV_ANON_EXEC :: u32 where "AC_EV_ANON_EXEC = 7"
definition AC_EV_INFO :: u32 where "AC_EV_INFO = 8"
definition AC_EV_PROCESS_VM :: u32 where "AC_EV_PROCESS_VM = 9"
definition AC_EV_SYSCALL_REDIRECT :: u32 where "AC_EV_SYSCALL_REDIRECT = 10"
definition AC_EV_FORK_DROPPED :: u32 where "AC_EV_FORK_DROPPED = 11"

lemmas ac_ev_defs = AC_EV_FORK_def AC_EV_EXEC_def AC_EV_EXIT_def AC_EV_PTRACE_def
  AC_EV_SYSCALL_HOOK_def AC_EV_RWX_def AC_EV_ANON_EXEC_def AC_EV_INFO_def AC_EV_PROCESS_VM_def
  AC_EV_SYSCALL_REDIRECT_def AC_EV_FORK_DROPPED_def

text \<open>The VM flag bits, which the module tests as \<^verbatim>\<open>VM_EXEC\<close>, \<^verbatim>\<open>VM_WRITE\<close>.\<close>

definition AC_VM_EXEC :: u64 where "AC_VM_EXEC = 0x4"
definition AC_VM_WRITE :: u64 where "AC_VM_WRITE = 0x2"

subsection \<open>Structures\<close>

record ac_status =
  st_version :: u64
  st_syscall_table_addr :: u64
  st_active_procs :: u32
  st_events_dropped :: u32
  st_locked :: u32
  st_syscall_hook_count :: u32
  st_kill_dropped :: u32

record ac_proc_id =
  pi_pid :: pid_t
  pi_ref_pid :: pid_t
  pi_jit_allowed :: int
  pi_comm :: string

record ac_vma_info =
  vi_start :: u64
  vi_end :: u64
  vi_offset :: u64
  vi_inode :: u64
  vi_flags :: u64
  vi_is_file :: u32
  vi_path :: string

record ac_scan_begin =
  sb_pid :: pid_t
  sb_ref_pid :: pid_t
  sb_emit_events :: int
  sb_resolved_pid :: pid_t
  sb_n_vmas :: nat
  sb_rwx_count :: nat
  sb_exec_count :: nat
  sb_anon_exec_count :: nat
  sb_truncated :: nat

record ac_scan_get =
  sg_pid :: pid_t
  sg_index :: u32
  sg_vma :: ac_vma_info

record ac_syscall_check =
  sc_table_addr :: u64
  sc_nr_syscalls :: nat
  sc_total :: nat
  sc_non_text :: nat
  sc_hooked :: nat
  sc_ok :: nat
  sc_baseline_ready :: nat
  sc_redirected :: nat
  sc_checksum_mismatch :: nat
  sc_baseline_sha256 :: string
  sc_current_sha256 :: string

record ac_mod_info =
  mi_name :: string
  mi_size :: u64
  mi_state :: nat

record ac_mod_get =
  mg_index :: u32
  mg_mod :: ac_mod_info

record ac_event =
  ev_ts :: u64
  ev_pid :: pid_t
  ev_comm :: string
  ev_type :: u32
  ev_data :: string

record ac_event_list =
  el_count :: nat
  el_dropped :: u32
  el_block_ms :: nat
  el_events :: "ac_event list"

record ac_prot_item =
  pt_pid :: pid_t
  pt_jit_allowed :: bool
  pt_comm :: string

record ac_prot_list =
  pl_count :: nat
  pl_items :: "ac_prot_item list"

end
