(* ===== verification/AC_Ring.thy ===== *)
theory AC_Ring
  imports AC_Abi
begin

text \<open>
  The event ring buffer of \<^verbatim>\<open>src/src/anticheat_module.c\<close>: \<^verbatim>\<open>ac_emit\<close>, \<^verbatim>\<open>ac_drain_events\<close>, the
  peek/commit pair of \<^verbatim>\<open>AC_IOCTL_GET_EVENTS\<close>, and the rate limiter for denial events.  Every
  function body runs under one spinlock, so each is one atomic step.  The kernel's clock
  \<^verbatim>\<open>ktime_get_real_fast_ns\<close> is a parameter: \<open>rg_ktime n\<close> is its \<open>n\<close>-th reading.  The ring refines a
  queue of at most 256 events that drops its oldest element when full.
\<close>

subsection \<open>Ring state and operations\<close>

definition AC_RING_SIZE :: nat where "AC_RING_SIZE = 256"

record ac_ring_state =
  rg_ring :: "ac_event list"
  rg_head :: nat
  rg_tail :: nat
  rg_count :: nat
  rg_dropped :: u32
  rg_removed :: u64
  rg_ktime :: "nat \<Rightarrow> u64"
  rg_reads :: nat

text \<open>The event that an \<^verbatim>\<open>ac_emit\<close> call stores: bounded copies of \<^verbatim>\<open>comm\<close> and of the formatted text.\<close>

definition ring_event :: "u64 \<Rightarrow> u32 \<Rightarrow> pid_t \<Rightarrow> string option \<Rightarrow> string \<Rightarrow> ac_event" where
  "ring_event ts type pid comm msg = \<lparr>
     ev_ts = ts, ev_pid = pid,
     ev_comm = strscpy AC_MAX_COMM (case comm of Some c \<Rightarrow> c | None \<Rightarrow> ''?''),
     ev_type = type, ev_data = strscpy AC_EVENT_DATA msg\<rparr>"

definition ac_emit :: "u32 \<Rightarrow> pid_t \<Rightarrow> string option \<Rightarrow> string \<Rightarrow> ac_ring_state \<Rightarrow> ac_ring_state" where
  "ac_emit type pid comm msg s =
     (let s1 = (if rg_count s \<ge> AC_RING_SIZE
                then s\<lparr>rg_tail := (rg_tail s + 1) mod AC_RING_SIZE,
                       rg_count := rg_count s - 1,
                       rg_dropped := rg_dropped s + 1,
                       rg_removed := rg_removed s + 1\<rparr>
                else s);
          ev = ring_event (rg_ktime s (rg_reads s)) type pid comm msg
      in s1\<lparr>rg_ring := (rg_ring s1)[rg_head s1 := ev],
            rg_reads := rg_reads s + 1,
            rg_head := (rg_head s1 + 1) mod AC_RING_SIZE,
            rg_count := rg_count s1 + 1\<rparr>)"

text \<open>\<^verbatim>\<open>ac_drain_events\<close>: \<open>out\<close> says whether the caller passed a list to fill.\<close>

definition ring_advance :: "ac_ring_state \<Rightarrow> ac_ring_state" where
  "ring_advance s = s\<lparr>rg_tail := (rg_tail s + 1) mod AC_RING_SIZE,
                      rg_count := rg_count s - 1,
                      rg_removed := rg_removed s + 1\<rparr>"

function drain_loop :: "bool \<Rightarrow> ac_event list \<Rightarrow> ac_ring_state \<Rightarrow> ac_event list \<times> ac_ring_state" where
  "drain_loop out acc s =
     (if rg_count s > 0 \<and> (\<not> out \<or> length acc < AC_MAX_EVENTS)
      then drain_loop out (if out then acc @ [rg_ring s ! rg_tail s] else acc) (ring_advance s)
      else (acc, s))"
  by pat_completeness auto
termination
  by (relation "measure (\<lambda>(out, acc, s). rg_count s)") (auto simp: ring_advance_def)

declare drain_loop.simps [simp del]

definition ac_drain_events ::
  "ac_event_list option \<Rightarrow> ac_ring_state \<Rightarrow> ac_event_list option \<times> ac_ring_state" where
  "ac_drain_events out s =
     (case drain_loop (out \<noteq> None) [] s of (evs, s') \<Rightarrow>
        (map_option (\<lambda>el. el\<lparr>el_dropped := rg_dropped s, el_count := length evs, el_events := evs\<rparr>) out, s'))"

function peek_loop :: "ac_ring_state \<Rightarrow> nat \<Rightarrow> ac_event list \<Rightarrow> ac_event list" where
  "peek_loop s idx acc =
     (if length acc < rg_count s \<and> length acc < AC_MAX_EVENTS
      then peek_loop s ((idx + 1) mod AC_RING_SIZE) (acc @ [rg_ring s ! idx])
      else acc)"
  by pat_completeness auto
termination
  by (relation "measure (\<lambda>(s, idx, acc). AC_MAX_EVENTS - length acc)") auto

declare peek_loop.simps [simp del]

definition ac_peek_events :: "ac_event_list \<Rightarrow> ac_ring_state \<Rightarrow> ac_event_list \<times> u64" where
  "ac_peek_events out s =
     (let evs = peek_loop s (rg_tail s) []
      in (out\<lparr>el_dropped := rg_dropped s, el_count := length evs, el_events := evs\<rparr>, rg_removed s))"

definition ac_commit_events :: "nat \<Rightarrow> u64 \<Rightarrow> ac_ring_state \<Rightarrow> ac_ring_state" where
  "ac_commit_events n removed_before s =
     (let removed_since = rg_removed s - removed_before;
          to_remove0 = (if unat removed_since \<ge> n then 0 else n - unat removed_since);
          to_remove = (if to_remove0 > rg_count s then rg_count s else to_remove0)
      in s\<lparr>rg_tail := (rg_tail s + to_remove) mod AC_RING_SIZE,
           rg_count := rg_count s - to_remove,
           rg_removed := rg_removed s + of_nat to_remove\<rparr>)"

subsection \<open>Rate limit for denial events\<close>

definition AC_DENY_EV_BURST :: nat where "AC_DENY_EV_BURST = 8"

record ac_deny_rl =
  rl_window_start :: u64
  rl_n :: nat
  rl_suppressed :: u32

text \<open>The kernel's \<^verbatim>\<open>time_after(a, b)\<close>, a signed comparison of wrapping tick counts.\<close>

definition time_after :: "u64 \<Rightarrow> u64 \<Rightarrow> bool" where
  "time_after a b \<longleftrightarrow> sint (b - a) < 0"

text \<open>\<open>hz\<close> is the tick rate \<^verbatim>\<open>HZ\<close> of the kernel configuration (\<^verbatim>\<open>AC_DENY_EV_WINDOW\<close>).\<close>

definition ac_deny_event_allowed :: "u64 \<Rightarrow> u64 \<Rightarrow> ac_deny_rl \<Rightarrow> bool \<times> u32 \<times> ac_deny_rl" where
  "ac_deny_event_allowed hz jiffies rl =
     (let fresh = (rl_n rl = 0 \<or> time_after jiffies (rl_window_start rl + hz));
          suppressed = (if fresh then rl_suppressed rl else 0);
          rl1 = (if fresh then rl\<lparr>rl_suppressed := 0, rl_n := 0, rl_window_start := jiffies\<rparr> else rl);
          ok = rl_n rl1 < AC_DENY_EV_BURST;
          rl2 = (if ok then rl1\<lparr>rl_n := rl_n rl1 + 1\<rparr> else rl1\<lparr>rl_suppressed := rl_suppressed rl1 + 1\<rparr>)
      in (ok, suppressed, rl2))"

subsection \<open>Refinement to a bounded queue\<close>

definition ring_inv :: "ac_ring_state \<Rightarrow> bool" where
  "ring_inv s \<longleftrightarrow> length (rg_ring s) = AC_RING_SIZE \<and> rg_tail s < AC_RING_SIZE \<and>
     rg_count s \<le> AC_RING_SIZE \<and> rg_head s = (rg_tail s + rg_count s) mod AC_RING_SIZE"

definition ring_list :: "ac_ring_state \<Rightarrow> ac_event list" where
  "ring_list s = map (\<lambda>k. rg_ring s ! ((rg_tail s + k) mod AC_RING_SIZE)) [0..<rg_count s]"

lemma length_ring_list [simp]: "length (ring_list s) = rg_count s"
  by (simp add: ring_list_def)

lemma ring_list_Nil [simp]: "ring_list s = [] \<longleftrightarrow> rg_count s = 0"
  by (simp add: ring_list_def)

lemma ring_list_advance_by:
  assumes "j \<le> rg_count s"
  shows "ring_list (s\<lparr>rg_tail := (rg_tail s + j) mod AC_RING_SIZE, rg_count := rg_count s - j, rg_removed := r, rg_dropped := d\<rparr>) = drop j (ring_list s)"
  using assms by (auto simp: ring_list_def AC_RING_SIZE_def mod_simps add.assoc intro!: nth_equalityI)

lemma ring_inv_advance_by:
  assumes "j \<le> rg_count s" and "ring_inv s"
  shows "ring_inv (s\<lparr>rg_tail := (rg_tail s + j) mod AC_RING_SIZE, rg_count := rg_count s - j, rg_removed := r, rg_dropped := d\<rparr>)"
proof -
  have "((rg_tail s + j) mod AC_RING_SIZE + (rg_count s - j)) mod AC_RING_SIZE
      = (rg_tail s + j + (rg_count s - j)) mod AC_RING_SIZE"
    by (rule mod_add_left_eq)
  with assms show ?thesis by (auto simp: ring_inv_def AC_RING_SIZE_def)
qed

lemma ring_store:
  fixes ev :: ac_event and n :: nat
  assumes inv: "ring_inv s" and room: "rg_count s < AC_RING_SIZE"
  defines "s' \<equiv> s\<lparr>rg_ring := (rg_ring s)[rg_head s := ev], rg_reads := n,
                  rg_head := (rg_head s + 1) mod AC_RING_SIZE, rg_count := rg_count s + 1\<rparr>"
  shows "ring_inv s'" and "ring_list s' = ring_list s @ [ev]"
proof -
  show "ring_inv s'" using inv room by (auto simp: s'_def ring_inv_def mod_simps)
  have "(rg_ring s)[rg_head s := ev] ! ((rg_tail s + k) mod AC_RING_SIZE) =
      (if k = rg_count s then ev else rg_ring s ! ((rg_tail s + k) mod AC_RING_SIZE))"
    if "k \<le> rg_count s" for k
  proof -
    have "(rg_tail s + k) mod AC_RING_SIZE = rg_head s \<longleftrightarrow> k = rg_count s"
      using inv room that mod_add_inj [of k AC_RING_SIZE "rg_count s" "rg_tail s"]
      by (auto simp: ring_inv_def)
    moreover have "rg_head s < length (rg_ring s)"
      using inv by (auto simp: ring_inv_def AC_RING_SIZE_def)
    ultimately show ?thesis by (auto simp: nth_list_update)
  qed
  then show "ring_list s' = ring_list s @ [ev]"
    by (simp add: s'_def ring_list_def)
qed

text \<open>The arguments of one \<^verbatim>\<open>ac_emit\<close> call, and the event it stores.\<close>

type_synonym emit_args = "u32 \<times> pid_t \<times> string option \<times> string"

definition emit_of :: "emit_args \<Rightarrow> ac_ring_state \<Rightarrow> ac_ring_state" where
  "emit_of a s = (case a of (ty, p, c, m) \<Rightarrow> ac_emit ty p c m s)"

definition event_of :: "emit_args \<Rightarrow> ac_ring_state \<Rightarrow> ac_event" where
  "event_of a s = (case a of (ty, p, c, m) \<Rightarrow> ring_event (rg_ktime s (rg_reads s)) ty p c m)"

lemma ac_emit_ring:
  assumes "ring_inv s"
  shows "ring_inv (ac_emit ty p c m s)"
    and "ring_list (ac_emit ty p c m s) =
      (if rg_count s < AC_RING_SIZE then ring_list s else tl (ring_list s)) @ [event_of (ty, p, c, m) s]"
    and "rg_removed (ac_emit ty p c m s) = rg_removed s + (if rg_count s < AC_RING_SIZE then 0 else 1)"
    and "rg_dropped (ac_emit ty p c m s) = rg_dropped s + (if rg_count s < AC_RING_SIZE then 0 else 1)"
proof -
  define s1 where "s1 = (if rg_count s \<ge> AC_RING_SIZE
      then s\<lparr>rg_tail := (rg_tail s + 1) mod AC_RING_SIZE, rg_count := rg_count s - 1,
             rg_removed := rg_removed s + 1, rg_dropped := rg_dropped s + 1\<rparr> else s)"
  have c: "rg_count s \<le> AC_RING_SIZE" using assms by (simp add: ring_inv_def)
  have inv1: "ring_inv s1" using assms ring_inv_advance_by [of 1 s] c by (auto simp: s1_def AC_RING_SIZE_def)
  have l1: "ring_list s1 = (if rg_count s < AC_RING_SIZE then ring_list s else tl (ring_list s))"
    using ring_list_advance_by [of 1 s] c by (auto simp: s1_def AC_RING_SIZE_def drop_Suc)
  have room: "rg_count s1 < AC_RING_SIZE" using c by (auto simp: s1_def AC_RING_SIZE_def)
  have eq: "ac_emit ty p c m s = s1\<lparr>rg_ring := (rg_ring s1)[rg_head s1 := event_of (ty, p, c, m) s],
      rg_reads := rg_reads s + 1, rg_head := (rg_head s1 + 1) mod AC_RING_SIZE, rg_count := rg_count s1 + 1\<rparr>" for c
    by (simp add: ac_emit_def event_of_def s1_def Let_def)
  show "ring_inv (ac_emit ty p c m s)" unfolding eq by (rule ring_store(1) [OF inv1 room])
  show "ring_list (ac_emit ty p c m s) =
      (if rg_count s < AC_RING_SIZE then ring_list s else tl (ring_list s)) @ [event_of (ty, p, c, m) s]"
    unfolding eq using ring_store(2) [OF inv1 room] l1 by simp
  show "rg_removed (ac_emit ty p c m s) = rg_removed s + (if rg_count s < AC_RING_SIZE then 0 else 1)"
    and "rg_dropped (ac_emit ty p c m s) = rg_dropped s + (if rg_count s < AC_RING_SIZE then 0 else 1)"
    unfolding eq by (auto simp: s1_def)
qed

lemma peek_loop_eq:
  assumes "length acc \<le> min (rg_count s) AC_MAX_EVENTS" and "acc = take (length acc) (ring_list s)"
    and "idx = (rg_tail s + length acc) mod AC_RING_SIZE"
  shows "peek_loop s idx acc = take AC_MAX_EVENTS (ring_list s)"
  using assms
proof (induction s idx acc rule: peek_loop.induct)
  case (1 s idx acc)
  show ?case
  proof (cases "length acc < rg_count s \<and> length acc < AC_MAX_EVENTS")
    case True
    have "rg_ring s ! idx = ring_list s ! length acc" using True 1(4) by (simp add: ring_list_def)
    then have "acc @ [rg_ring s ! idx] = take (Suc (length acc)) (ring_list s)"
      using True 1(3) by (metis length_ring_list take_Suc_conv_app_nth)
    with True 1 show ?thesis
      by (subst peek_loop.simps) (simp add: mod_simps)
  next
    case False
    then have "length acc = min (rg_count s) AC_MAX_EVENTS" using 1(2) by auto
    with False 1(3) show ?thesis by (subst peek_loop.simps) (auto simp: min_def)
  qed
qed

lemma ac_peek_events_eq:
  "ring_inv s \<Longrightarrow> ac_peek_events out s =
     (out\<lparr>el_dropped := rg_dropped s, el_count := min (rg_count s) AC_MAX_EVENTS,
          el_events := take AC_MAX_EVENTS (ring_list s)\<rparr>, rg_removed s)"
  using peek_loop_eq [of "[]" s] by (simp add: ac_peek_events_def ring_inv_def Let_def)

lemma ac_commit_events_ring:
  assumes "ring_inv s"
  shows "ring_inv (ac_commit_events n rb s)"
    and "ring_list (ac_commit_events n rb s) = drop (n - unat (rg_removed s - rb)) (ring_list s)"
    and "rg_dropped (ac_commit_events n rb s) = rg_dropped s"
proof -
  define j where "j = min (n - unat (rg_removed s - rb)) (rg_count s)"
  have eq: "ac_commit_events n rb s = s\<lparr>rg_tail := (rg_tail s + j) mod AC_RING_SIZE,
      rg_count := rg_count s - j, rg_removed := rg_removed s + of_nat j, rg_dropped := rg_dropped s\<rparr>"
    by (auto simp: ac_commit_events_def j_def Let_def)
  have j: "j \<le> rg_count s" by (simp add: j_def)
  show "ring_inv (ac_commit_events n rb s)" unfolding eq by (rule ring_inv_advance_by [OF j assms])
  show "ring_list (ac_commit_events n rb s) = drop (n - unat (rg_removed s - rb)) (ring_list s)"
    unfolding eq ring_list_advance_by [OF j] by (simp add: j_def min_def)
  show "rg_dropped (ac_commit_events n rb s) = rg_dropped s" by (simp add: eq)
qed

lemma ring_advance_ring:
  assumes "ring_inv s" and "0 < rg_count s"
  shows "ring_inv (ring_advance s)" and "ring_list (ring_advance s) = tl (ring_list s)"
    and "rg_ring s ! rg_tail s = hd (ring_list s)"
proof -
  have eq: "ring_advance s = s\<lparr>rg_tail := (rg_tail s + 1) mod AC_RING_SIZE,
      rg_count := rg_count s - 1, rg_removed := rg_removed s + 1, rg_dropped := rg_dropped s\<rparr>"
    by (simp add: ring_advance_def)
  have c: "1 \<le> rg_count s" using assms by simp
  show "ring_inv (ring_advance s)" unfolding eq by (rule ring_inv_advance_by [OF c assms(1)])
  show "ring_list (ring_advance s) = tl (ring_list s)"
    unfolding eq ring_list_advance_by [OF c] by (simp add: drop_Suc)
  show "rg_ring s ! rg_tail s = hd (ring_list s)"
    using assms by (simp add: ring_list_def ring_inv_def hd_map)
qed

lemma drain_loop_eq:
  "ring_inv s \<Longrightarrow> out \<Longrightarrow> length acc \<le> AC_MAX_EVENTS \<Longrightarrow>
   fst (drain_loop out acc s) = acc @ take (AC_MAX_EVENTS - length acc) (ring_list s) \<and>
   ring_list (snd (drain_loop out acc s)) = drop (AC_MAX_EVENTS - length acc) (ring_list s) \<and>
   ring_inv (snd (drain_loop out acc s))"
proof (induction out acc s rule: drain_loop.induct)
  case (1 out acc s)
  show ?case
  proof (cases "rg_count s > 0 \<and> length acc < AC_MAX_EVENTS")
    case True
    then have c: "0 < rg_count s" by simp
    note adv = ring_advance_ring [OF 1(2) c]
    obtain k where k: "AC_MAX_EVENTS - length acc = Suc k" using True by (metis Suc_diff_Suc)
    then have k': "AC_MAX_EVENTS - length (acc @ [hd (ring_list s)]) = k" by simp
    have "fst (drain_loop out (acc @ [hd (ring_list s)]) (ring_advance s)) =
        (acc @ [hd (ring_list s)]) @ take k (tl (ring_list s)) \<and>
      ring_list (snd (drain_loop out (acc @ [hd (ring_list s)]) (ring_advance s))) = drop k (tl (ring_list s)) \<and>
      ring_inv (snd (drain_loop out (acc @ [hd (ring_list s)]) (ring_advance s)))"
      using 1 True adv k' by simp
    moreover have "drain_loop out acc s = drain_loop out (acc @ [hd (ring_list s)]) (ring_advance s)"
      using True 1(3) adv(3) by (subst drain_loop.simps) simp
    ultimately show ?thesis using c by (simp add: k take_Suc drop_Suc)
  next
    case False
    then have "drain_loop out acc s = (acc, s)" using 1 by (subst drain_loop.simps) auto
    with False 1 show ?thesis by auto
  qed
qed

lemma drain_loop_all:
  "ring_inv s \<Longrightarrow> \<not> out \<Longrightarrow> ring_list (snd (drain_loop out acc s)) = [] \<and> ring_inv (snd (drain_loop out acc s))
     \<and> fst (drain_loop out acc s) = acc"
proof (induction out acc s rule: drain_loop.induct)
  case (1 out acc s)
  show ?case
  proof (cases "rg_count s > 0")
    case True
    then have "drain_loop out acc s = drain_loop out acc (ring_advance s)"
      using 1(3) by (subst drain_loop.simps) simp
    with True 1 ring_advance_ring [OF 1(2) True] show ?thesis by simp
  next
    case False
    then have "drain_loop out acc s = (acc, s)" by (subst drain_loop.simps) simp
    with False 1 show ?thesis by (simp add: ring_list_def)
  qed
qed
subsection \<open>Interface: a queue that drops its oldest element\<close>

text \<open>The elements stored by a sequence of pushes, each made from the state it is pushed into.\<close>

primrec pushed :: "('a \<Rightarrow> 's \<Rightarrow> 'e) \<Rightarrow> ('a \<Rightarrow> 's \<Rightarrow> 's) \<Rightarrow> 's \<Rightarrow> 'a list \<Rightarrow> 'e list" where
  "pushed mk push s [] = []"
| "pushed mk push s (a # as) = mk a s # pushed mk push (push a s) as"

lemma length_pushed [simp]: "length (pushed mk push s as) = length as"
  by (induction as arbitrary: s) auto

text \<open>
  A consumer peeks a prefix, hands it over, and later commits it, quoting the removal counter it saw.
  The laws say what the producer's \<open>push\<close> may have done in between.
\<close>

locale lossy_queue =
  fixes inv :: "'s \<Rightarrow> bool"
    and items :: "'s \<Rightarrow> 'e list"
    and cap :: nat
    and removed :: "'s \<Rightarrow> u64"
    and mk :: "'a \<Rightarrow> 's \<Rightarrow> 'e"
    and push :: "'a \<Rightarrow> 's \<Rightarrow> 's"
    and commit :: "nat \<Rightarrow> u64 \<Rightarrow> 's \<Rightarrow> 's"
  assumes bounded: "inv s \<Longrightarrow> length (items s) \<le> cap"
    and cap_pos: "0 < cap"
    and push_inv: "inv s \<Longrightarrow> inv (push a s)"
    and push_items: "inv s \<Longrightarrow>
      items (push a s) = (if length (items s) < cap then items s else tl (items s)) @ [mk a s]"
    and push_removed: "inv s \<Longrightarrow>
      removed (push a s) = removed s + (if length (items s) < cap then 0 else 1)"
    and commit_inv: "inv s \<Longrightarrow> inv (commit n r s)"
    and commit_items: "inv s \<Longrightarrow> items (commit n r s) = drop (n - unat (removed s - r)) (items s)"
begin

lemma pushes:
  assumes "inv s"
  shows "inv (fold push as s) \<and>
    items (fold push as s) = drop (length (items s) + length as - cap) (items s @ pushed mk push s as) \<and>
    removed (fold push as s) = removed s + of_nat (length (items s) + length as - cap)"
  using assms
proof (induction as arbitrary: s)
  case Nil
  then show ?case using bounded [of s] by simp
next
  case (Cons a as)
  note IH = Cons.IH [OF push_inv [OF Cons.prems, of a]]
  show ?case
  proof (cases "length (items s) < cap")
    case True
    with IH Cons.prems show ?thesis by (simp add: push_items push_removed)
  next
    case False
    then have full: "length (items s) = cap" using bounded [OF Cons.prems] by simp
    then have "items s \<noteq> []" using cap_pos by auto
    then obtain x xs where xs: "items s = x # xs" by (cases "items s") auto
    have "items (push a s) = xs @ [mk a s]" using False xs by (simp add: push_items Cons.prems)
    moreover have cap: "cap = Suc (length xs)" using full xs by simp
    moreover have "Suc (length xs) + length as - cap = length as" using cap by simp
    ultimately show ?thesis using IH False xs
      by (simp add: push_removed Cons.prems add.commute del: of_nat_diff)
  qed
qed

lemma peek_push_commit:
  assumes "inv s" and "n \<le> length (items s)" and "length as < 2 ^ 64"
  defines "all \<equiv> items s @ pushed mk push s as"
    and "evicted \<equiv> length (items s) + length as - cap"
  shows "items (commit n (removed s) (fold push as s)) = drop (max n evicted) all"
proof -
  have p: "inv (fold push as s)" "items (fold push as s) = drop evicted all"
    "removed (fold push as s) = removed s + of_nat evicted"
    using pushes [OF assms(1), of as] by (auto simp: all_def evicted_def)
  have "evicted < 2 ^ 64" using assms(3) bounded [OF assms(1)] by (simp add: evicted_def)
  then have "unat (removed (fold push as s) - removed s) = evicted"
    by (simp add: p(3) unsigned_of_nat take_bit_nat_eq_self)
  then show ?thesis using p(2) by (simp add: commit_items [OF p(1)] max_def)
qed

end

interpretation ring: lossy_queue ring_inv ring_list AC_RING_SIZE rg_removed event_of emit_of ac_commit_events
proof (unfold_locales, goal_cases)
  case (1 s) then show ?case by (simp add: ring_inv_def)
next
  case 2 show ?case by (simp add: AC_RING_SIZE_def)
next
  case (3 s a) then show ?case by (cases a) (simp add: emit_of_def ac_emit_ring)
next
  case (4 s a) then show ?case by (cases a) (simp add: emit_of_def ac_emit_ring)
next
  case (5 s a) then show ?case by (cases a) (simp add: emit_of_def ac_emit_ring)
next
  case (6 s n r) then show ?case by (rule ac_commit_events_ring)
next
  case (7 s n r) then show ?case by (rule ac_commit_events_ring)
qed

lemma emits_dropped:
  "ring_inv s \<Longrightarrow> rg_dropped (fold emit_of as s) = rg_dropped s + of_nat (rg_count s + length as - AC_RING_SIZE)"
proof (induction as arbitrary: s)
  case Nil
  then show ?case by (simp add: ring_inv_def)
next
  case (Cons a as)
  obtain ty p c m where a: "a = (ty, p, c, m)" by (cases a)
  note e = ac_emit_ring [OF Cons.prems, of ty p c m]
  have cnt: "rg_count (emit_of a s) = (if rg_count s < AC_RING_SIZE then Suc (rg_count s) else AC_RING_SIZE)"
    using arg_cong [OF e(2), of length] Cons.prems by (auto simp: a emit_of_def ring_inv_def AC_RING_SIZE_def)
  have "ring_inv (emit_of a s)" using e(1) by (simp add: a emit_of_def)
  from Cons.IH [OF this] Cons.prems show ?case
    using e(4) cnt by (auto simp: a emit_of_def ring_inv_def simp del: of_nat_diff)
qed

subsection \<open>Rate limiter runs\<close>

text \<open>A sequence of denied calls at the given tick counts; the results of each.\<close>

primrec deny_run :: "u64 \<Rightarrow> u64 list \<Rightarrow> ac_deny_rl \<Rightarrow> (bool \<times> u32) list \<times> ac_deny_rl" where
  "deny_run hz [] rl = ([], rl)"
| "deny_run hz (j # js) rl =
     (case ac_deny_event_allowed hz j rl of (ok, sp, rl1) \<Rightarrow>
        case deny_run hz js rl1 of (rs, rl2) \<Rightarrow> ((ok, sp) # rs, rl2))"

lemma deny_run_account:
  "of_nat (length (filter (\<lambda>(ok, sp). \<not> ok) (fst (deny_run hz js rl)))) + rl_suppressed rl =
   sum_list (map snd (fst (deny_run hz js rl))) + rl_suppressed (snd (deny_run hz js rl))"
proof (induction js arbitrary: rl)
  case Nil
  then show ?case by simp
next
  case (Cons j js)
  show ?case using Cons.IH [of "snd (snd (ac_deny_event_allowed hz j rl))"]
    by (auto simp: ac_deny_event_allowed_def Let_def algebra_simps split: prod.splits if_splits)
qed

lemma deny_run_in_window:
  "0 < rl_n rl \<Longrightarrow> rl_n rl \<le> AC_DENY_EV_BURST \<Longrightarrow> \<forall>j \<in> set js. \<not> time_after j (rl_window_start rl + hz) \<Longrightarrow>
   length (filter fst (fst (deny_run hz js rl))) \<le> AC_DENY_EV_BURST - rl_n rl"
proof (induction js arbitrary: rl)
  case Nil
  then show ?case by simp
next
  case (Cons j js)
  let ?rl = "snd (snd (ac_deny_event_allowed hz j rl))"
  have "0 < rl_n ?rl" "rl_n ?rl \<le> AC_DENY_EV_BURST" "rl_window_start ?rl = rl_window_start rl"
    using Cons.prems by (auto simp: ac_deny_event_allowed_def Let_def)
  from Cons.IH [OF this(1,2)] this Cons.prems show ?case
    by (auto simp: ac_deny_event_allowed_def Let_def split: prod.splits if_splits)
qed

text \<open>Rate limit of denial events: in a run of denied calls that opens a new window and stays within it, at
  most \<^verbatim>\<open>AC_DENY_EV_BURST\<close> (8) calls may emit their event, whatever was counted before.\<close>

theorem deny_burst_bound:
  assumes "rl_n rl = 0 \<or> time_after j0 (rl_window_start rl + hz)"
    and "\<forall>j \<in> set js. \<not> time_after j (j0 + hz)"
  shows "length (filter fst (fst (deny_run hz (j0 # js) rl))) \<le> AC_DENY_EV_BURST"
proof -
  let ?rl = "snd (snd (ac_deny_event_allowed hz j0 rl))"
  have "rl_n ?rl = 1" and "rl_window_start ?rl = j0"
    using assms(1) by (auto simp: ac_deny_event_allowed_def Let_def AC_DENY_EV_BURST_def)
  with deny_run_in_window [of ?rl js hz] assms(2)
  have "length (filter fst (fst (deny_run hz js ?rl))) \<le> 7"
    by (simp add: AC_DENY_EV_BURST_def)
  then show ?thesis by (auto simp: AC_DENY_EV_BURST_def split: prod.splits)
qed

definition deny_rl0 :: ac_deny_rl where
  "deny_rl0 = \<lparr>rl_window_start = 0, rl_n = 0, rl_suppressed = 0\<rparr>"

theorem deny_burst_bound_witness:
  "length (filter fst (fst (deny_run 250 (1000 # replicate 12 1100) deny_rl0))) \<le> AC_DENY_EV_BURST"
  by (rule deny_burst_bound) (simp_all add: deny_rl0_def time_after_def)

text \<open>Nothing is lost from the accounting: over any run, the calls that emitted no event are exactly those
  reported by the summary counts handed out since, plus the ones still pending in the limiter.\<close>

theorem deny_accounting:
  "of_nat (length (filter (\<lambda>(ok, sp). \<not> ok) (fst (deny_run hz js deny_rl0)))) =
   sum_list (map snd (fst (deny_run hz js deny_rl0))) + rl_suppressed (snd (deny_run hz js deny_rl0))"
  using deny_run_account [of hz js deny_rl0] by (simp add: deny_rl0_def)

subsection \<open>Ring properties\<close>

text \<open>C24: Exactly-once hand-over of events.  Between the peek and the commit of \<^verbatim>\<open>AC_IOCTL_GET_EVENTS\<close> any
  number of events may be emitted, evicting old ones.  Afterwards, everything that was in the ring or
  was emitted is, in order: the events handed to the caller, the events lost to overflow, the events
  still in the ring.  No event is handed out and kept, none that was not handed out is removed by the
  commit, and the drop counter grew by the number of evictions.\<close>

theorem get_events_exactly_once:
  assumes inv: "ring_inv s" and few: "length as < 2 ^ 64"
    and peek: "ac_peek_events out s = (el, removed_before)"
    and s': "s' = ac_commit_events (el_count el) removed_before (fold emit_of as s)"
  shows "\<exists>lost. ring_list s @ pushed event_of emit_of s as = el_events el @ lost @ ring_list s' \<and>
    length lost = (rg_count s + length as - AC_RING_SIZE) - el_count el \<and>
    rg_dropped s' = rg_dropped s + of_nat (rg_count s + length as - AC_RING_SIZE) \<and> ring_inv s'"
proof -
  let ?all = "ring_list s @ pushed event_of emit_of s as"
  let ?ev = "rg_count s + length as - AC_RING_SIZE"
  have n: "el_count el = min (rg_count s) AC_MAX_EVENTS" and evs: "el_events el = take AC_MAX_EVENTS (ring_list s)"
    and rb: "removed_before = rg_removed s"
    using peek by (auto simp: ac_peek_events_eq [OF inv])
  have take_all: "el_events el = take (el_count el) ?all" by (auto simp: n evs min_def)
  have left: "ring_list s' = drop (max (el_count el) ?ev) ?all"
    unfolding s' rb using ring.peek_push_commit [OF inv _ few, of "el_count el"] n by simp
  have "?all = take (el_count el) ?all @ drop (el_count el) (take (max (el_count el) ?ev) ?all) @ drop (max (el_count el) ?ev) ?all"
    by (rule split_in_three) simp
  moreover have "length (drop (el_count el) (take (max (el_count el) ?ev) ?all)) = ?ev - el_count el"
  proof -
    have "max (el_count el) ?ev \<le> length ?all" using n by simp
    then show ?thesis by (simp add: min_absorb2 max_def del: take_append drop_append length_append)
  qed
  moreover have "rg_dropped s' = rg_dropped s + of_nat ?ev" "ring_inv s'"
    unfolding s' using ac_commit_events_ring [of "fold emit_of as s"] ring.pushes [OF inv, of as] emits_dropped [OF inv, of as]
    by auto
  ultimately show ?thesis using take_all left by metis
qed

text \<open>C25: Each operation implements the bounded queue: from any well-formed ring, \<^verbatim>\<open>ac_emit\<close> appends its event and
  drops the oldest one exactly when all 256 places are taken, \<^verbatim>\<open>ac_peek_events\<close> shows the up to 64
  oldest and changes nothing, \<^verbatim>\<open>ac_drain_events\<close> removes what it returns (everything, without a
  list), and all of them keep the ring well-formed.\<close>

theorem ring_refines_queue:
  assumes "ring_inv s"
  shows "ring_inv (ac_emit ty p c m s) \<and>
    ring_list (ac_emit ty p c m s) =
      (if length (ring_list s) < AC_RING_SIZE then ring_list s else tl (ring_list s))
        @ [ring_event (rg_ktime s (rg_reads s)) ty p c m] \<and>
    el_events (fst (ac_peek_events el s)) = take AC_MAX_EVENTS (ring_list s) \<and>
    map_option el_events (fst (ac_drain_events (Some el) s)) = Some (take AC_MAX_EVENTS (ring_list s)) \<and>
    ring_list (snd (ac_drain_events (Some el) s)) = drop AC_MAX_EVENTS (ring_list s) \<and>
    ring_inv (snd (ac_drain_events (Some el) s)) \<and>
    ring_list (snd (ac_drain_events None s)) = [] \<and> ring_inv (snd (ac_drain_events None s))"
  using ac_emit_ring [OF assms, of ty p c m] drain_loop_eq [OF assms, of True "[]"] drain_loop_all [OF assms, of False "[]"]
  by (simp add: event_of_def ac_peek_events_eq [OF assms] ac_drain_events_def case_prod_beta)

definition ring_init :: "(nat \<Rightarrow> u64) \<Rightarrow> ac_ring_state" where
  "ring_init kt = \<lparr>rg_ring = replicate AC_RING_SIZE (ring_event 0 0 0 None []), rg_head = 0, rg_tail = 0,
     rg_count = 0, rg_dropped = 0, rg_removed = 0, rg_ktime = kt, rg_reads = 0\<rparr>"

lemma ring_init_inv [simp]: "ring_inv (ring_init kt)"
  by (simp add: ring_inv_def ring_init_def AC_RING_SIZE_def)

lemma ring_init_list [simp]: "ring_list (ring_init kt) = []"
  by (simp add: ring_init_def)

theorem ring_refines_queue_witness:
  "ring_list (ac_emit AC_EV_INFO 1 None ''loaded'' (ring_init (\<lambda>_. 7))) = [ring_event 7 AC_EV_INFO 1 None ''loaded'']"
  using ring_refines_queue [OF ring_init_inv, of AC_EV_INFO 1 None "''loaded''" "\<lambda>_. 7"]
  by (simp add: AC_RING_SIZE_def ring_init_def)

theorem get_events_exactly_once_witness:
  "\<exists>s'. ring_list (ring_init (\<lambda>_. 7)) @ pushed event_of emit_of (ring_init (\<lambda>_. 7)) [(AC_EV_INFO, 1, None, ''a'')] =
     ring_list s' \<and> ring_inv s'"
proof -
  let ?s = "ring_init (\<lambda>_. 7)" and ?as = "[(AC_EV_INFO, 1, None, ''a'')]"
  let ?el = "\<lparr>el_count = 0, el_dropped = 0, el_block_ms = 0, el_events = []\<rparr>"
  have peek: "ac_peek_events ?el ?s = (?el, 0)"
    unfolding ac_peek_events_eq [OF ring_init_inv] by (simp add: ring_init_def)
  show ?thesis using get_events_exactly_once [OF ring_init_inv _ peek refl, of ?as]
    by (auto simp: ring_init_def AC_RING_SIZE_def)
qed

end
