(* ===== verification/AC_Text.thy ===== *)
theory AC_Text
  imports AC_Abi
begin

text \<open>
  Kernel text bounds, the module list and the discovery of the syscall table in
  \<^verbatim>\<open>src/src/anticheat_module.c\<close>.  Everything these functions ask of the kernel is a field of
  \<open>ac_kernel\<close>: fault-tolerant reads, symbol lookup by kprobe, the module list and the constants of
  its headers.  The lemmas relate the snapshot of module ranges to the live walk of the module list,
  and show that the table search ends and that what it returns is a table.
\<close>

subsection \<open>What the kernel provides\<close>

text \<open>
  The members of \<^verbatim>\<open>struct module\<close> that the code reads.  \<open>km_mem t\<close> is base and size of
  \<^verbatim>\<open>m->mem[t]\<close>.
\<close>

record kmodule =
  km_ptr :: addr
  km_name :: string
  km_state :: nat
  km_mem :: "nat \<Rightarrow> u64 \<times> u64"

text \<open>
  \<open>k_modules\<close> is the module ring read from \<^verbatim>\<open>THIS_MODULE\<close> on, so its first element is
  \<^verbatim>\<open>THIS_MODULE\<close>; \<open>k_core_types\<close> are the memory types of \<^verbatim>\<open>for_class_mod_mem_type(type, core)\<close>.
  A read of \<open>None\<close> faulted.
\<close>

record ac_kernel =
  k_read8 :: "addr \<Rightarrow> u64 option"
  k_read4 :: "addr \<Rightarrow> u32 option"
  k_register_kprobe :: "string \<Rightarrow> addr option"
  k_modules :: "kmodule list"
  k_is_vmalloc_or_module_addr :: "addr \<Rightarrow> bool"
  k_within_module_core :: "addr \<Rightarrow> kmodule \<Rightarrow> bool"
  k_MODULE_STATE_LIVE :: nat
  k_MOD_TEXT :: nat
  k_core_types :: "nat list"
  k_MOD_MEM_NUM_TYPES :: nat
  k_NR_syscalls :: nat
  k_NR_read :: nat
  k_NR_write :: nat

subsection \<open>Symbols and text bounds\<close>

record ac_text =
  tx_stext :: addr
  tx_etext :: addr
  tx_text_end :: addr
  tx_text_end_guessed :: bool
  tx_anchor :: addr

definition ac_lookup :: "ac_kernel \<Rightarrow> string \<Rightarrow> addr" where
  "ac_lookup k name = (case k_register_kprobe k name of Some a \<Rightarrow> a | None \<Rightarrow> 0)"

definition ac_normalize_func :: "ac_kernel \<Rightarrow> addr \<Rightarrow> addr" where
  "ac_normalize_func k a =
     (if a = 0 then 0
      else if a < 4 then a
      else if k_read4 k (a - 4) = Some 0xfa1e0ff3 then a - 4
      else a)"

definition ac_resolve_text_bounds :: "ac_kernel \<Rightarrow> ac_text \<Rightarrow> ac_text" where
  "ac_resolve_text_bounds k tx =
     (let stext0 = ac_lookup k ''_stext'';
          stext = (if stext0 = 0 then ac_lookup k ''_text'' else stext0);
          etext0 = ac_lookup k ''_etext'';
          etext = (if etext0 = 0 then ac_lookup k ''_sinittext'' else etext0);
          tx1 = tx\<lparr>tx_stext := stext, tx_etext := etext\<rparr>
      in if etext \<noteq> 0 then tx1\<lparr>tx_text_end := etext\<rparr>
         else if stext \<noteq> 0 then tx1\<lparr>tx_text_end := stext + 0x20000000, tx_text_end_guessed := True\<rparr>
         else tx1)"

subsection \<open>The module list\<close>

text \<open>A module pointer is an index into the ring; \<^verbatim>\<open>NULL\<close> is \<open>None\<close>.\<close>

definition ac_next_module_rcu :: "kmodule list \<Rightarrow> nat \<Rightarrow> nat option" where
  "ac_next_module_rcu ms i = (let j = (i + 1) mod length ms in if j = 0 then None else Some j)"

text \<open>
  The loop \<^verbatim>\<open>ac_for_each_module_rcu(m)\<close> from the module at index \<open>i\<close>: the body gets the module and
  the loop's variables and says whether it leaves the loop.
\<close>

function ac_for_each_module_rcu ::
  "kmodule list \<Rightarrow> (kmodule \<Rightarrow> 'a \<Rightarrow> bool \<times> 'a) \<Rightarrow> nat \<Rightarrow> 'a \<Rightarrow> 'a" where
  "ac_for_each_module_rcu ms body i acc =
     (if i < length ms
      then (case body (ms ! i) acc of (stop, acc') \<Rightarrow>
              if stop then acc'
              else (case ac_next_module_rcu ms i of
                      None \<Rightarrow> acc'
                    | Some j \<Rightarrow> ac_for_each_module_rcu ms body j acc'))
      else acc)"
  by pat_completeness auto
termination
  by (relation "measure (\<lambda>(ms, body, i, acc). length ms - i)")
     (auto simp: ac_next_module_rcu_def Let_def mod_Suc split: if_splits)

declare ac_for_each_module_rcu.simps [simp del]

definition ac_module_sane :: "ac_kernel \<Rightarrow> kmodule \<Rightarrow> bool" where
  "ac_module_sane k m \<longleftrightarrow>
     k_is_vmalloc_or_module_addr k (km_ptr m) \<and>
     km_state m = k_MODULE_STATE_LIVE k \<and>
     fst (km_mem m (k_MOD_TEXT k)) \<noteq> 0 \<and> snd (km_mem m (k_MOD_TEXT k)) \<noteq> 0 \<and>
     snd (km_mem m (k_MOD_TEXT k)) \<le> 0x40000000"

definition ac_addr_in_module :: "ac_kernel \<Rightarrow> addr \<Rightarrow> bool" where
  "ac_addr_in_module k a =
     ac_for_each_module_rcu (k_modules k)
       (\<lambda>m found. if ac_module_sane k m \<and> k_within_module_core k a m then (True, True) else (False, found))
       0 False"

record ac_mod_range =
  mr_start :: addr
  mr_end :: addr

text \<open>
  The inner loop of \<^verbatim>\<open>ac_snapshot_mod_ranges\<close> over the core memory types of one module, with the
  flag \<^verbatim>\<open>truncated\<close> and the ranges stored so far.
\<close>

fun snapshot_types ::
  "nat \<Rightarrow> kmodule \<Rightarrow> nat list \<Rightarrow> bool \<times> ac_mod_range list \<Rightarrow> bool \<times> ac_mod_range list" where
  "snapshot_types cap m [] (truncated, rs) = (truncated, rs)"
| "snapshot_types cap m (t # ts) (truncated, rs) =
     (let (base, size) = km_mem m t
      in if base = 0 \<or> size = 0 \<or> size > 0x40000000 then snapshot_types cap m ts (truncated, rs)
         else if length rs \<ge> cap then (True, rs)
         else snapshot_types cap m ts (truncated, rs @ [\<lparr>mr_start = base, mr_end = base + size\<rparr>]))"

text \<open>\<open>alloc\<close> says whether \<^verbatim>\<open>kvmalloc_array\<close> succeeds; \<open>None\<close> is the \<^verbatim>\<open>NULL\<close> snapshot.\<close>

definition ac_snapshot_mod_ranges :: "ac_kernel \<Rightarrow> bool \<Rightarrow> ac_mod_range list option" where
  "ac_snapshot_mod_ranges k alloc =
     (if \<not> alloc then None
      else case ac_for_each_module_rcu (k_modules k)
             (\<lambda>m acc. if \<not> ac_module_sane k m then (False, acc)
                      else let acc' = snapshot_types (AC_MAX_MODS * k_MOD_MEM_NUM_TYPES k) m (k_core_types k) acc
                           in (fst acc', acc'))
             0 (False, [])
           of (truncated, rs) \<Rightarrow> if truncated then None else Some rs)"

fun ac_addr_in_ranges :: "addr \<Rightarrow> ac_mod_range list \<Rightarrow> bool" where
  "ac_addr_in_ranges a [] = False"
| "ac_addr_in_ranges a (r # rs) =
     (if a \<ge> mr_start r \<and> a < mr_end r then True else ac_addr_in_ranges a rs)"

subsection \<open>Classification of a table entry\<close>

definition ac_in_core_text_snapshot :: "ac_text \<Rightarrow> addr \<Rightarrow> ac_mod_range list \<Rightarrow> bool" where
  "ac_in_core_text_snapshot tx a rs =
     (if tx_stext tx = 0 \<or> tx_text_end tx = 0 then False
      else if a < tx_stext tx \<or> a \<ge> tx_text_end tx then False
      else if ac_addr_in_ranges a rs then False
      else True)"

definition ac_plausible_handler_snapshot :: "addr \<Rightarrow> addr \<Rightarrow> ac_mod_range list \<Rightarrow> bool" where
  "ac_plausible_handler_snapshot e anchor rs =
     (if e = 0 then False
      else if ac_addr_in_ranges e rs then False
      else e > anchor - 0x4000000 \<and> e < anchor + 0x4000000)"

definition ac_in_core_text :: "ac_kernel \<Rightarrow> ac_text \<Rightarrow> addr \<Rightarrow> bool" where
  "ac_in_core_text k tx a =
     (if tx_stext tx = 0 \<or> tx_text_end tx = 0 then False
      else if a < tx_stext tx \<or> a \<ge> tx_text_end tx then False
      else if ac_addr_in_module k a then False
      else True)"

definition ac_plausible_handler :: "ac_kernel \<Rightarrow> addr \<Rightarrow> addr \<Rightarrow> bool" where
  "ac_plausible_handler k e anchor =
     (if e = 0 then False
      else if ac_addr_in_module k e then False
      else e > anchor - 0x4000000 \<and> e < anchor + 0x4000000)"

definition ac_entry_bad :: "ac_kernel \<Rightarrow> ac_text \<Rightarrow> addr \<Rightarrow> bool" where
  "ac_entry_bad k tx e =
     (if tx_stext tx \<noteq> 0 \<and> tx_text_end tx \<noteq> 0 then \<not> ac_in_core_text k tx e
      else \<not> ac_plausible_handler k e (tx_anchor tx))"

definition ac_entry_bad_snapshot ::
  "ac_kernel \<Rightarrow> ac_text \<Rightarrow> addr \<Rightarrow> ac_mod_range list option \<Rightarrow> bool" where
  "ac_entry_bad_snapshot k tx e ranges =
     (case ranges of
        None \<Rightarrow> ac_entry_bad k tx e
      | Some rs \<Rightarrow>
          if tx_stext tx \<noteq> 0 \<and> tx_text_end tx \<noteq> 0 then \<not> ac_in_core_text_snapshot tx e rs
          else \<not> ac_plausible_handler_snapshot e (tx_anchor tx) rs)"

subsection \<open>Discovery of the syscall table\<close>

definition slot_addr :: "addr \<Rightarrow> nat \<Rightarrow> addr" where
  "slot_addr base i = base + of_nat (i * 8)"

text \<open>The loop of \<^verbatim>\<open>ac_table_plausible\<close> from slot \<open>i\<close> on.\<close>

function plausible_loop :: "ac_kernel \<Rightarrow> addr \<Rightarrow> addr \<Rightarrow> nat \<Rightarrow> nat \<Rightarrow> bool" where
  "plausible_loop k base anchor i valid =
     (if i < k_NR_syscalls k
      then case k_read8 k (slot_addr base i) of
             None \<Rightarrow> plausible_loop k base anchor (i + 1) valid
           | Some e \<Rightarrow>
               if e = 0 then plausible_loop k base anchor (i + 1) valid
               else if ac_plausible_handler k e anchor
                    then (if valid + 1 \<ge> 400 then True else plausible_loop k base anchor (i + 1) (valid + 1))
                    else plausible_loop k base anchor (i + 1) valid
      else valid \<ge> 400)"
  by pat_completeness auto
termination
  by (relation "measure (\<lambda>(k, base, anchor, i, valid). k_NR_syscalls k - i)") auto

declare plausible_loop.simps [simp del]

definition ac_table_plausible :: "ac_kernel \<Rightarrow> addr \<Rightarrow> addr \<Rightarrow> bool" where
  "ac_table_plausible k base anchor = plausible_loop k base anchor 0 0"

text \<open>One iteration of the loop of \<^verbatim>\<open>ac_derive_bounds\<close>: lowest and highest plausible handler so far.\<close>

definition derive_step :: "ac_kernel \<Rightarrow> addr \<Rightarrow> addr \<Rightarrow> addr \<times> addr \<Rightarrow> nat \<Rightarrow> addr \<times> addr" where
  "derive_step k base anchor = (\<lambda>(lo, hi) i.
     case k_read8 k (slot_addr base i) of
       None \<Rightarrow> (lo, hi)
     | Some e \<Rightarrow>
         if \<not> ac_plausible_handler k e anchor then (lo, hi)
         else (if lo = 0 \<or> e < lo then e else lo, if e > hi then e else hi))"

definition ac_derive_bounds :: "ac_kernel \<Rightarrow> addr \<Rightarrow> addr \<Rightarrow> ac_text \<Rightarrow> ac_text" where
  "ac_derive_bounds k base anchor tx =
     (case foldl (derive_step k base anchor) (0, 0) [0..<k_NR_syscalls k] of (lo, hi) \<Rightarrow>
        if lo \<noteq> 0 \<and> hi \<noteq> 0 then
          (let derived_end = (hi + 1 + 0x1FFFFF) AND NOT 0x1FFFFF;
               tx1 = (if tx_stext tx = 0 then tx\<lparr>tx_stext := lo AND NOT 0x1FFFFF\<rparr> else tx);
               tx2 = (if tx_text_end tx1 = 0 then tx1\<lparr>tx_text_end := derived_end\<rparr>
                      else if tx_text_end_guessed tx1 \<and> derived_end \<noteq> tx_text_end tx1
                           then tx1\<lparr>tx_text_end := derived_end\<rparr>
                      else tx1)
           in tx2\<lparr>tx_text_end_guessed := False\<rparr>)
        else tx)"

text \<open>The tests of one address in either scan loop; \<open>Some base\<close> when they all pass.\<close>

definition scan_candidate :: "ac_kernel \<Rightarrow> addr \<Rightarrow> addr \<Rightarrow> addr \<Rightarrow> addr option" where
  "scan_candidate k rh wh a =
     (case k_read8 k a of
        None \<Rightarrow> None
      | Some v1 \<Rightarrow>
          if v1 \<noteq> rh then None
          else let base = a - of_nat (k_NR_read k * 8)
               in case k_read8 k (base + of_nat (k_NR_write k * 8)) of
                    None \<Rightarrow> None
                  | Some v2 \<Rightarrow> if v2 = wh \<and> ac_table_plausible k base rh then Some base else None)"

text \<open>The two scan loops.  \<open>None\<close> is a loop that never ends, \<open>Some None\<close> one that finds nothing.\<close>

partial_function (option) scan_forward ::
  "ac_kernel \<Rightarrow> addr \<Rightarrow> addr \<Rightarrow> addr \<Rightarrow> addr \<Rightarrow> addr option option" where
  "scan_forward k rh wh hi a =
     (if a < hi
      then case scan_candidate k rh wh a of
             Some base \<Rightarrow> Some (Some base)
           | None \<Rightarrow> scan_forward k rh wh hi (a + 8)
      else Some None)"

partial_function (option) scan_backward ::
  "ac_kernel \<Rightarrow> addr \<Rightarrow> addr \<Rightarrow> addr \<Rightarrow> addr \<Rightarrow> addr option option" where
  "scan_backward k rh wh lo a =
     (if a > lo
      then case scan_candidate k rh wh a of
             Some base \<Rightarrow> Some (Some base)
           | None \<Rightarrow> scan_backward k rh wh lo (a - 8)
      else Some None)"

declare scan_forward.simps [code] and scan_backward.simps [code]

definition ac_find_syscall_table :: "ac_kernel \<Rightarrow> ac_text \<Rightarrow> (addr \<times> ac_text) option" where
  "ac_find_syscall_table k tx =
     (let rh = ac_normalize_func k (ac_lookup k ''__x64_sys_read'');
          wh = ac_normalize_func k (ac_lookup k ''__x64_sys_write'');
          found = (\<lambda>base. (base, ac_derive_bounds k base rh (tx\<lparr>tx_anchor := rh\<rparr>)))
      in if rh = 0 \<or> wh = 0 then Some (0, tx)
         else
           (let lo = (if tx_etext tx \<noteq> 0 then tx_etext tx else if tx_stext tx \<noteq> 0 then tx_stext tx else rh);
                hi = lo + 0x2000000
            in case scan_forward k rh wh hi lo of
                 None \<Rightarrow> None
               | Some (Some base) \<Rightarrow> Some (found base)
               | Some None \<Rightarrow>
                   (case scan_backward k rh wh (rh - 0x2000000) rh of
                      None \<Rightarrow> None
                    | Some (Some base) \<Rightarrow> Some (found base)
                    | Some None \<Rightarrow> Some (0, tx))))"

subsection \<open>The module walk visits every module once\<close>

fun list_walk :: "(kmodule \<Rightarrow> 'a \<Rightarrow> bool \<times> 'a) \<Rightarrow> kmodule list \<Rightarrow> 'a \<Rightarrow> 'a" where
  "list_walk body [] acc = acc"
| "list_walk body (m # ms) acc = (case body m acc of (stop, acc') \<Rightarrow> if stop then acc' else list_walk body ms acc')"

lemma ac_next_module_rcu_eq:
  "i < length ms \<Longrightarrow> ac_next_module_rcu ms i = (if i + 1 < length ms then Some (i + 1) else None)"
  by (cases "i + 1 = length ms") (auto simp: ac_next_module_rcu_def)

lemma for_each_drop:
  "i < length ms \<Longrightarrow> ac_for_each_module_rcu ms body i acc = list_walk body (drop i ms) acc"
proof (induction ms body i acc rule: ac_for_each_module_rcu.induct)
  case (1 ms body i acc)
  have d: "drop i ms = ms ! i # drop (i + 1) ms" using 1(2) by (simp add: Cons_nth_drop_Suc)
  obtain stop acc' where b: "body (ms ! i) acc = (stop, acc')" by fastforce
  show ?case
    using 1 b by (subst ac_for_each_module_rcu.simps) (auto simp: d ac_next_module_rcu_eq)
qed

lemma for_each_walk: "ac_for_each_module_rcu ms body 0 acc = list_walk body ms acc"
  using for_each_drop [of 0 ms body acc] by (cases ms) (auto simp: ac_for_each_module_rcu.simps)

lemma list_walk_find:
  "list_walk (\<lambda>m found. if P m then (True, True) else (False, found)) ms b \<longleftrightarrow> b \<or> (\<exists>m \<in> set ms. P m)"
  by (induction ms arbitrary: b) auto

lemma ac_addr_in_module_iff:
  "ac_addr_in_module k a \<longleftrightarrow> (\<exists>m \<in> set (k_modules k). ac_module_sane k m \<and> k_within_module_core k a m)"
  by (simp add: ac_addr_in_module_def for_each_walk list_walk_find)

subsection \<open>The snapshot of module ranges\<close>

text \<open>The ranges that one module contributes, and those of all sane modules, in walk order.\<close>

definition type_ranges :: "kmodule \<Rightarrow> nat list \<Rightarrow> ac_mod_range list" where
  "type_ranges m ts = concat (map (\<lambda>t. case km_mem m t of (base, sz) \<Rightarrow>
     if base = 0 \<or> sz = 0 \<or> sz > 0x40000000 then [] else [\<lparr>mr_start = base, mr_end = base + sz\<rparr>]) ts)"

definition all_ranges :: "ac_kernel \<Rightarrow> ac_mod_range list" where
  "all_ranges k = concat (map (\<lambda>m. type_ranges m (k_core_types k)) (filter (ac_module_sane k) (k_modules k)))"

lemma type_ranges_Cons: "type_ranges m (t # ts) = type_ranges m [t] @ type_ranges m ts"
  by (simp add: type_ranges_def)

lemma snapshot_types_eq:
  "length rs \<le> cap \<Longrightarrow> snapshot_types cap m ts (False, rs) =
     (if length rs + length (type_ranges m ts) \<le> cap then (False, rs @ type_ranges m ts)
      else (True, take cap (rs @ type_ranges m ts)))"
proof (induction ts arbitrary: rs)
  case Nil
  then show ?case by (simp add: type_ranges_def)
next
  case (Cons t ts)
  obtain base sz where mt: "km_mem m t = (base, sz)" by fastforce
  show ?case
  proof (cases "base = 0 \<or> sz = 0 \<or> sz > 0x40000000")
    case True
    then have "type_ranges m (t # ts) = type_ranges m ts" by (simp add: type_ranges_def mt)
    with Cons True show ?thesis by (simp add: mt)
  next
    case False
    then have "type_ranges m (t # ts) = \<lparr>mr_start = base, mr_end = base + sz\<rparr> # type_ranges m ts"
      by (simp add: type_ranges_def mt)
    with Cons False show ?thesis by (auto simp: mt)
  qed
qed

lemma snapshot_walk:
  "length rs \<le> cap \<Longrightarrow>
   list_walk (\<lambda>m acc. if \<not> ac_module_sane k m then (False, acc)
       else let acc' = snapshot_types cap m (k_core_types k) acc in (fst acc', acc')) ms (False, rs) =
     (let new = concat (map (\<lambda>m. type_ranges m (k_core_types k)) (filter (ac_module_sane k) ms))
      in if length rs + length new \<le> cap then (False, rs @ new) else (True, take cap (rs @ new)))"
proof (induction ms arbitrary: rs)
  case (Cons m ms)
  show ?case
  proof (cases "ac_module_sane k m \<and> length rs + length (type_ranges m (k_core_types k)) \<le> cap")
    case True
    with Cons show ?thesis by (simp add: snapshot_types_eq Let_def)
  qed (use Cons in \<open>auto simp: snapshot_types_eq Let_def\<close>)
qed simp

lemma ac_snapshot_mod_ranges_eq:
  "ac_snapshot_mod_ranges k alloc =
     (if alloc \<and> length (all_ranges k) \<le> AC_MAX_MODS * k_MOD_MEM_NUM_TYPES k then Some (all_ranges k) else None)"
  by (simp add: ac_snapshot_mod_ranges_def for_each_walk snapshot_walk Let_def all_ranges_def)

lemma ac_addr_in_ranges_iff:
  "ac_addr_in_ranges a rs \<longleftrightarrow> (\<exists>r \<in> set rs. mr_start r \<le> a \<and> a < mr_end r)"
  by (induction rs) auto

text \<open>
  The kernel's \<^verbatim>\<open>within_module_core\<close>, as the source describes it: the address is in one of the core
  memory types, by the wrapping comparison \<^verbatim>\<open>addr - base < sz\<close>.
\<close>

definition within_core_spec :: "ac_kernel \<Rightarrow> bool" where
  "within_core_spec k \<longleftrightarrow> (\<forall>a m. k_within_module_core k a m \<longleftrightarrow>
     (\<exists>t \<in> set (k_core_types k). a - fst (km_mem m t) < snd (km_mem m t)))"

text \<open>
  No core range of a live module is torn: an empty one aside, it has a base, is at most 1 GiB long
  and does not wrap around the address space.
\<close>

definition ranges_regular :: "ac_kernel \<Rightarrow> bool" where
  "ranges_regular k \<longleftrightarrow> (\<forall>m \<in> set (k_modules k). \<forall>t \<in> set (k_core_types k).
     case km_mem m t of (base, sz) \<Rightarrow>
       sz = 0 \<or> base \<noteq> 0 \<and> sz \<le> 0x40000000 \<and> unat base + unat sz < 2 ^ 64)"

lemma range_wrap_compare:
  fixes a b s :: "64 word"
  assumes "unat b + unat s < 2 ^ 64"
  shows "a - b < s \<longleftrightarrow> b \<le> a \<and> a < b + s"
proof -
  have bs: "unat (b + s) = unat b + unat s" using assms by (simp add: unat_word_ariths)
  show ?thesis
  proof (cases "b \<le> a")
    case True
    then have "unat (a - b) = unat a - unat b" by (rule unat_sub)
    with True bs show ?thesis by (auto simp: word_less_nat_alt word_le_nat_alt)
  next
    case False
    then have lt: "unat a < unat b" by (simp add: word_le_nat_alt)
    have "unat (a - b) = 2 ^ 64 + unat a - unat b" using False by (simp add: unat_sub_if' word_le_nat_alt)
    with assms lt have "\<not> unat (a - b) < unat s" by simp
    with False show ?thesis by (simp add: word_less_nat_alt)
  qed
qed

lemma in_all_ranges_iff:
  assumes "within_core_spec k" and "ranges_regular k"
  shows "ac_addr_in_ranges a (all_ranges k) \<longleftrightarrow> ac_addr_in_module k a"
proof -
  have one: "(\<exists>r \<in> set (type_ranges m [t]). mr_start r \<le> a \<and> a < mr_end r) \<longleftrightarrow>
      a - fst (km_mem m t) < snd (km_mem m t)"
    if "m \<in> set (k_modules k)" "t \<in> set (k_core_types k)" for m t
  proof -
    obtain b s where bs: "km_mem m t = (b, s)" by fastforce
    have "s = 0 \<or> b \<noteq> 0 \<and> s \<le> 0x40000000 \<and> unat b + unat s < 2 ^ 64"
      using assms(2) that bs by (fastforce simp: ranges_regular_def)
    then show ?thesis using range_wrap_compare [of b s a] by (auto simp: type_ranges_def bs)
  qed
  have ts: "set (type_ranges m ts) = (\<Union>t \<in> set ts. set (type_ranges m [t]))" for m ts
    by (auto simp: type_ranges_def)
  have "(\<exists>r \<in> set (type_ranges m (k_core_types k)). mr_start r \<le> a \<and> a < mr_end r) \<longleftrightarrow> k_within_module_core k a m"
    if "m \<in> set (k_modules k)" for m
    unfolding ts [of m "k_core_types k"] using assms(1) one [OF that]
    by (simp add: within_core_spec_def bex_UN)
  then show ?thesis
    unfolding ac_addr_in_ranges_iff ac_addr_in_module_iff all_ranges_def by auto
qed

text \<open>C28: Classifying a table entry against the snapshot of module ranges gives the answer of the live
  walk of the module list, whether or not the snapshot could be taken.\<close>

theorem ac_entry_bad_snapshot_correct:
  assumes "within_core_spec k" and "ranges_regular k"
  shows "ac_entry_bad_snapshot k tx e (ac_snapshot_mod_ranges k alloc) = ac_entry_bad k tx e"
  using in_all_ranges_iff [OF assms, of e]
  by (auto simp: ac_entry_bad_snapshot_def ac_snapshot_mod_ranges_eq ac_entry_bad_def
      ac_in_core_text_snapshot_def ac_in_core_text_def ac_plausible_handler_snapshot_def ac_plausible_handler_def)

subsection \<open>The plausibility test counts handlers\<close>

definition slot_handler :: "ac_kernel \<Rightarrow> addr \<Rightarrow> addr \<Rightarrow> nat \<Rightarrow> bool" where
  "slot_handler k base anchor i \<longleftrightarrow>
     (case k_read8 k (slot_addr base i) of None \<Rightarrow> False | Some e \<Rightarrow> ac_plausible_handler k e anchor)"

lemma plausible_loop_count:
  "valid < 400 \<Longrightarrow> plausible_loop k base anchor i valid \<longleftrightarrow>
     valid + length (filter (slot_handler k base anchor) [i..<k_NR_syscalls k]) \<ge> 400"
proof (induction k base anchor i valid rule: plausible_loop.induct)
  case (1 k base anchor i valid)
  have z: "\<not> ac_plausible_handler k 0 anchor" by (simp add: ac_plausible_handler_def)
  show ?case
  proof (cases "i < k_NR_syscalls k")
    case False
    then show ?thesis by (subst plausible_loop.simps) simp
  next
    case True
    then have u: "[i..<k_NR_syscalls k] = i # [i + 1..<k_NR_syscalls k]" by (simp add: upt_conv_Cons)
    have h: "slot_handler k base anchor i \<longleftrightarrow>
        (case k_read8 k (slot_addr base i) of None \<Rightarrow> False | Some e \<Rightarrow> ac_plausible_handler k e anchor)"
      by (simp add: slot_handler_def)
    show ?thesis
    proof (cases "k_read8 k (slot_addr base i)")
      case None
      with 1 True h show ?thesis by (subst plausible_loop.simps) (simp add: u)
    next
      case (Some e)
      with 1 True h z show ?thesis by (subst plausible_loop.simps) (cases "e = 0"; auto simp: u)
    qed
  qed
qed

lemma ac_table_plausible_iff:
  "ac_table_plausible k base anchor \<longleftrightarrow>
     length (filter (slot_handler k base anchor) [0..<k_NR_syscalls k]) \<ge> 400"
  by (simp add: ac_table_plausible_def plausible_loop_count)

subsection \<open>Derived text bounds\<close>

definition accepted :: "ac_kernel \<Rightarrow> addr \<Rightarrow> addr \<Rightarrow> nat list \<Rightarrow> addr \<Rightarrow> bool" where
  "accepted k base anchor is e \<longleftrightarrow>
     (\<exists>i \<in> set is. k_read8 k (slot_addr base i) = Some e \<and> ac_plausible_handler k e anchor)"

lemma plausible_nonzero: "ac_plausible_handler k e anchor \<Longrightarrow> e \<noteq> 0"
  by (auto simp: ac_plausible_handler_def)

lemma derive_fold:
  "case foldl (derive_step k base anchor) (0, 0) is of (lo, hi) \<Rightarrow>
     (\<forall>e. accepted k base anchor is e \<longrightarrow> lo \<noteq> 0 \<and> lo \<le> e \<and> e \<le> hi) \<and>
     (hi \<noteq> 0 \<longrightarrow> accepted k base anchor is hi)"
proof (induction "is" rule: rev_induct)
  case Nil
  show ?case by (simp add: accepted_def)
next
  case (snoc i "is")
  obtain lo hi where f: "foldl (derive_step k base anchor) (0, 0) is = (lo, hi)" by fastforce
  have IH: "accepted k base anchor is e \<Longrightarrow> lo \<noteq> 0 \<and> lo \<le> e \<and> e \<le> hi"
    "hi \<noteq> 0 \<Longrightarrow> accepted k base anchor is hi" for e using snoc f by auto
  have a: "accepted k base anchor (is @ [i]) e \<longleftrightarrow> accepted k base anchor is e \<or>
      k_read8 k (slot_addr base i) = Some e \<and> ac_plausible_handler k e anchor" for e
    by (auto simp: accepted_def)
  show ?case
  proof (cases "\<exists>e. k_read8 k (slot_addr base i) = Some e \<and> ac_plausible_handler k e anchor")
    case False
    then have "derive_step k base anchor (lo, hi) i = (lo, hi)"
      by (auto simp: derive_step_def split: option.split)
    with False IH show ?thesis by (auto simp: f a)
  next
    case True
    then obtain e where e: "k_read8 k (slot_addr base i) = Some e" "ac_plausible_handler k e anchor" by blast
    then have s: "derive_step k base anchor (lo, hi) i =
        (if lo = 0 \<or> e < lo then e else lo, if e > hi then e else hi)"
      by (simp add: derive_step_def)
    have b: "x \<noteq> 0 \<and> (if lo = 0 \<or> e < lo then e else lo) \<le> x \<and> x \<le> (if e > hi then e else hi)"
      if "accepted k base anchor is x \<or> x = e" for x
      using that
    proof
      assume "accepted k base anchor is x"
      with IH(1) [of x] plausible_nonzero show ?thesis by (auto simp: accepted_def)
    next
      assume "x = e"
      with plausible_nonzero [OF e(2)] show ?thesis by auto
    qed
    have nz: "(if lo = 0 \<or> e < lo then e else lo) \<noteq> 0" using plausible_nonzero [OF e(2)] by auto
    show ?thesis
      using b nz IH(2) e by (auto simp: f a s)
  qed
qed

lemma and_not_2M:
  fixes x :: "64 word"
  shows "unat (x AND NOT 0x1FFFFF) = unat x div 2 ^ 21 * 2 ^ 21"
proof -
  have m: "(0x1FFFFF :: 64 word) = mask 21" by (simp add: mask_eq_exp_minus_1)
  have "x AND NOT (mask 21) = push_bit 21 (drop_bit 21 x)"
    by (rule bit_eqI) (auto simp: bit_simps)
  then have "unat (x AND NOT 0x1FFFFF) = take_bit 64 (push_bit 21 (unat x div 2 ^ 21))"
    unfolding m by (simp only: unsigned_push_bit_eq unat_drop_bit_eq drop_bit_eq_div [of _ "unat x"]) simp
  also have "\<dots> = unat x div 2 ^ 21 * 2 ^ 21"
    using unsigned_less [of x, where 'a = nat] by (simp add: push_bit_eq_mult take_bit_nat_eq_self)
  finally show ?thesis .
qed

lemma round_down_le: "(x :: 64 word) AND NOT 0x1FFFFF \<le> x"
  unfolding word_le_nat_alt and_not_2M by simp

lemma round_up_gt:
  fixes h :: "64 word"
  assumes "unat h + 0x200000 < 2 ^ 64"
  shows "h < (h + 1 + 0x1FFFFF) AND NOT 0x1FFFFF"
proof -
  have "unat (h + 1 + 0x1FFFFF) = unat h + 0x200000"
    using assms by (simp add: unat_word_ariths add.assoc)
  moreover have "unat h < (unat h + 0x200000) div 2 ^ 21 * 2 ^ 21" by simp
  ultimately show ?thesis by (simp only: word_less_nat_alt and_not_2M)
qed

lemma plausible_below:
  assumes "ac_plausible_handler k e anchor" and "unat anchor + 0x4200000 \<le> 2 ^ 64"
  shows "unat e + 0x200000 < 2 ^ 64"
proof -
  have "unat (anchor + 0x4000000) = unat anchor + 0x4000000" using assms(2) by (simp add: unat_word_ariths)
  with assms show ?thesis by (auto simp: ac_plausible_handler_def word_less_nat_alt split: if_splits)
qed

text \<open>C29: After \<^verbatim>\<open>ac_derive_bounds\<close> no handler that the table scan accepted is classified as hooked, as
  long as it lies within the bounds that were resolved from symbols; and a bound resolved from a symbol is
  never changed.\<close>

theorem ac_derive_bounds_accepts:
  assumes i: "i < k_NR_syscalls k" and e: "k_read8 k (slot_addr base i) = Some e"
    and pl: "ac_plausible_handler k e anchor"
    and anchor: "tx_anchor tx = anchor" "unat anchor + 0x4200000 \<le> 2 ^ 64"
    and low: "tx_stext tx = 0 \<or> tx_stext tx \<le> e"
    and high: "tx_text_end tx = 0 \<or> tx_text_end_guessed tx \<or> e < tx_text_end tx"
  shows "\<not> ac_entry_bad k (ac_derive_bounds k base anchor tx) e \<and>
     (tx_stext tx \<noteq> 0 \<longrightarrow> tx_stext (ac_derive_bounds k base anchor tx) = tx_stext tx) \<and>
     (tx_text_end tx \<noteq> 0 \<and> \<not> tx_text_end_guessed tx \<longrightarrow>
        tx_text_end (ac_derive_bounds k base anchor tx) = tx_text_end tx)"
proof -
  obtain lo hi where f: "foldl (derive_step k base anchor) (0, 0) [0..<k_NR_syscalls k] = (lo, hi)" by fastforce
  have acc: "accepted k base anchor [0..<k_NR_syscalls k] e" using i e pl by (auto simp: accepted_def)
  have le: "lo \<noteq> 0" "lo \<le> e" "e \<le> hi" and hi: "hi \<noteq> 0 \<Longrightarrow> accepted k base anchor [0..<k_NR_syscalls k] hi"
    using derive_fold [of k base anchor "[0..<k_NR_syscalls k]"] acc by (auto simp: f)
  have hi0: "hi \<noteq> 0" using le by auto
  have "unat hi + 0x200000 < 2 ^ 64" using hi [OF hi0] anchor(2) plausible_below by (auto simp: accepted_def)
  from round_up_gt [OF this] have up: "e < (hi + 1 + 0x1FFFFF) AND NOT 0x1FFFFF" using le by order
  have down: "lo AND NOT 0x1FFFFF \<le> e" using round_down_le [of lo] le by order
  have notmod: "\<not> ac_addr_in_module k e" using pl by (auto simp: ac_plausible_handler_def split: if_splits)
  show ?thesis
    using low high up down notmod pl anchor(1) le(1) hi0
    by (auto simp: ac_derive_bounds_def f Let_def ac_entry_bad_def ac_in_core_text_def
        simp del: word_not_simps split: if_splits)
qed

subsection \<open>The table scan\<close>

lemma scan_forward_returns:
  assumes "unat hi + 8 \<le> 2 ^ 64"
  shows "\<exists>r. scan_forward k rh wh hi a = Some r \<and>
     (r = None \<longrightarrow> (\<forall>j. unat a + 8 * j < unat hi \<longrightarrow> scan_candidate k rh wh (a + of_nat (8 * j)) = None)) \<and>
     (\<forall>b. r = Some b \<longrightarrow> (\<exists>j. scan_candidate k rh wh (a + of_nat (8 * j)) = Some b))"
proof (induction "unat hi - unat a" arbitrary: a rule: less_induct)
  case less
  show ?case
  proof (cases "a < hi \<and> scan_candidate k rh wh a = None")
    case False
    then show ?thesis
      by (subst scan_forward.simps) (auto simp: word_less_nat_alt split: option.split intro!: exI [of _ 0])
  next
    case True
    then have a8: "unat (a + 8) = unat a + 8"
      using assms by (simp add: unat_word_ariths word_less_nat_alt)
    have "unat a < unat hi" using True by (simp add: word_less_nat_alt)
    then have "unat hi - unat (a + 8) < unat hi - unat a" using a8 by arith
    from less [OF this] obtain r where r: "scan_forward k rh wh hi (a + 8) = Some r"
      "r = None \<Longrightarrow> \<forall>j. unat a + 8 + 8 * j < unat hi \<longrightarrow> scan_candidate k rh wh (a + 8 + of_nat (8 * j)) = None"
      "\<And>b. r = Some b \<Longrightarrow> \<exists>j. scan_candidate k rh wh (a + 8 + of_nat (8 * j)) = Some b"
      by (auto simp: a8)
    have s: "a + 8 + of_nat (8 * j) = a + of_nat (8 * Suc j)" for j by simp
    have "scan_candidate k rh wh (a + of_nat (8 * j)) = None" if "r = None" "unat a + 8 * j < unat hi" for j
      using r(2) [OF that(1)] that(2) True by (cases j) (auto simp: add.assoc)
    moreover have "\<exists>j. scan_candidate k rh wh (a + of_nat (8 * j)) = Some b" if "r = Some b" for b
      using r(3) [OF that] unfolding s by blast
    ultimately show ?thesis using r(1) True by (subst scan_forward.simps) auto
  qed
qed

lemma scan_backward_returns:
  assumes "8 \<le> unat lo"
  shows "\<exists>r. scan_backward k rh wh lo a = Some r \<and>
     (r = None \<longrightarrow> (\<forall>j. unat lo + 8 * j < unat a \<longrightarrow> scan_candidate k rh wh (a - of_nat (8 * j)) = None)) \<and>
     (\<forall>b. r = Some b \<longrightarrow> (\<exists>j. scan_candidate k rh wh (a - of_nat (8 * j)) = Some b))"
proof (induction "unat a" arbitrary: a rule: less_induct)
  case less
  show ?case
  proof (cases "a > lo \<and> scan_candidate k rh wh a = None")
    case False
    then show ?thesis
      by (subst scan_backward.simps) (auto simp: word_less_nat_alt split: option.split intro!: exI [of _ 0])
  next
    case True
    then have "8 \<le> a" using assms by (simp add: word_le_nat_alt word_less_nat_alt)
    then have a8: "unat (a - 8) = unat a - 8" by (simp add: unat_sub)
    have "unat (a - 8) < unat a" using True assms a8 by (simp add: word_less_nat_alt)
    from less [OF this] obtain r where r: "scan_backward k rh wh lo (a - 8) = Some r"
      "r = None \<Longrightarrow> \<forall>j. unat lo + 8 * j < unat a - 8 \<longrightarrow> scan_candidate k rh wh (a - 8 - of_nat (8 * j)) = None"
      "\<And>b. r = Some b \<Longrightarrow> \<exists>j. scan_candidate k rh wh (a - 8 - of_nat (8 * j)) = Some b"
      by (auto simp: a8)
    have s: "a - 8 - of_nat (8 * j) = a - of_nat (8 * Suc j)" for j by simp
    have "scan_candidate k rh wh (a - of_nat (8 * j)) = None" if "r = None" "unat lo + 8 * j < unat a" for j
      using r(2) [OF that(1)] that(2) True by (cases j) (auto simp: diff_diff_eq)
    moreover have "\<exists>j. scan_candidate k rh wh (a - of_nat (8 * j)) = Some b" if "r = Some b" for b
      using r(3) [OF that] unfolding s by blast
    ultimately show ?thesis using r(1) True by (subst scan_backward.simps) auto
  qed
qed

text \<open>What a located table is: it holds both handlers in their slots and 400 plausible handlers.\<close>

definition is_table :: "ac_kernel \<Rightarrow> addr \<Rightarrow> addr \<Rightarrow> addr \<Rightarrow> bool" where
  "is_table k rh wh base \<longleftrightarrow>
     k_read8 k (slot_addr base (k_NR_read k)) = Some rh \<and>
     k_read8 k (slot_addr base (k_NR_write k)) = Some wh \<and>
     length (filter (slot_handler k base rh) [0..<k_NR_syscalls k]) \<ge> 400"

lemma scan_candidate_iff:
  "scan_candidate k rh wh a = Some base \<longleftrightarrow> base = a - of_nat (k_NR_read k * 8) \<and> is_table k rh wh base"
  by (auto simp: scan_candidate_def is_table_def slot_addr_def ac_table_plausible_iff Let_def
      split: option.split if_splits)

lemma scan_candidate_None:
  "scan_candidate k rh wh a = None \<longleftrightarrow> \<not> is_table k rh wh (a - of_nat (k_NR_read k * 8))"
  using scan_candidate_iff [of k rh wh a] by (metis not_Some_eq)

text \<open>C27: The search for the syscall table ends, for windows that do not wrap around the address space.
  A base it returns is a table: both handlers sit in their slots and at least 400 entries are plausible
  handlers.  When it returns 0, no word of the forward window and none of the backward window is the read
  slot of such a table.  (The page at address 0 is not readable.)\<close>

theorem ac_find_syscall_table_correct:
  fixes k :: ac_kernel and tx :: ac_text
  assumes rh: "rh = ac_normalize_func k (ac_lookup k ''__x64_sys_read'')"
    and wh: "wh = ac_normalize_func k (ac_lookup k ''__x64_sys_write'')" "wh \<noteq> 0"
    and lo: "lo = (if tx_etext tx \<noteq> 0 then tx_etext tx else if tx_stext tx \<noteq> 0 then tx_stext tx else rh)"
    and fwd: "unat lo + 0x2000008 \<le> 2 ^ 64" and bwd: "0x2000008 \<le> unat rh"
    and null: "k_read8 k (slot_addr 0 (k_NR_read k)) = None"
  shows "\<exists>base tx'. ac_find_syscall_table k tx = Some (base, tx') \<and>
     (if base \<noteq> 0 then is_table k rh wh base \<and> tx' = ac_derive_bounds k base rh (tx\<lparr>tx_anchor := rh\<rparr>)
      else tx' = tx \<and> (\<forall>j < 0x400000.
        \<not> is_table k rh wh (lo + of_nat (8 * j) - of_nat (k_NR_read k * 8)) \<and>
        \<not> is_table k rh wh (rh - of_nat (8 * j) - of_nat (k_NR_read k * 8))))"
proof -
  have n0: "\<not> is_table k rh wh 0" using null by (simp add: is_table_def)
  have rh0: "rh \<noteq> 0" using bwd by auto
  have hi: "unat (lo + 0x2000000) = unat lo + 0x2000000" using fwd by (simp add: unat_word_ariths)
  have "0x2000000 \<le> rh" using bwd by (simp add: word_le_nat_alt)
  then have low: "unat (rh - 0x2000000) = unat rh - 0x2000000" by (simp add: unat_sub)
  have low8: "8 \<le> unat (rh - 0x2000000)" using bwd low by arith
  obtain f where f: "scan_forward k rh wh (lo + 0x2000000) lo = Some f"
    "f = None \<Longrightarrow> \<forall>j. unat lo + 8 * j < unat lo + 0x2000000 \<longrightarrow> scan_candidate k rh wh (lo + of_nat (8 * j)) = None"
    "\<And>b. f = Some b \<Longrightarrow> \<exists>j. scan_candidate k rh wh (lo + of_nat (8 * j)) = Some b"
    using scan_forward_returns [of "lo + 0x2000000" k rh wh lo] fwd by (auto simp: hi)
  obtain g where g: "scan_backward k rh wh (rh - 0x2000000) rh = Some g"
    "g = None \<Longrightarrow> \<forall>j. unat rh - 0x2000000 + 8 * j < unat rh \<longrightarrow> scan_candidate k rh wh (rh - of_nat (8 * j)) = None"
    "\<And>b. g = Some b \<Longrightarrow> \<exists>j. scan_candidate k rh wh (rh - of_nat (8 * j)) = Some b"
    using scan_backward_returns [of "rh - 0x2000000" k rh wh rh, OF low8] unfolding low by blast
  have unf: "ac_find_syscall_table k tx = (case f of
      Some base \<Rightarrow> Some (base, ac_derive_bounds k base rh (tx\<lparr>tx_anchor := rh\<rparr>))
    | None \<Rightarrow> (case g of Some base \<Rightarrow> Some (base, ac_derive_bounds k base rh (tx\<lparr>tx_anchor := rh\<rparr>)) | None \<Rightarrow> Some (0, tx)))"
    using f(1) g(1) rh0 wh(2)
    unfolding ac_find_syscall_table_def Let_def rh [symmetric] wh(1) [symmetric] lo [symmetric]
    by (auto split: option.split)
  show ?thesis
  proof (cases "f = None \<and> g = None")
    case True
    have "\<not> is_table k rh wh (lo + of_nat (8 * j) - of_nat (k_NR_read k * 8)) \<and>
        \<not> is_table k rh wh (rh - of_nat (8 * j) - of_nat (k_NR_read k * 8))" if "j < 0x400000" for j
      using f(2) g(2) True that bwd scan_candidate_None [of k rh wh] by (auto simp del: of_nat_mult)
    with True show ?thesis by (auto simp: unf simp del: of_nat_mult)
  next
    case False
    then obtain b a where "scan_candidate k rh wh a = Some b"
      "ac_find_syscall_table k tx = Some (b, ac_derive_bounds k b rh (tx\<lparr>tx_anchor := rh\<rparr>))"
      using f(3) g(3) by (cases f; cases g) (auto simp: unf)
    with n0 show ?thesis by (auto simp: scan_candidate_iff)
  qed
qed

subsection \<open>A concrete kernel\<close>

text \<open>
  A kernel with a table of 512 handlers at \<open>0xffffffff82000000\<close>, one foreign module and the module
  itself, for evaluating the statements.
\<close>

definition demo_module :: "addr \<Rightarrow> kmodule" where
  "demo_module a = \<lparr>km_ptr = a, km_name = ''demo'', km_state = 0,
     km_mem = (\<lambda>t. if t = 0 then (a + 0x1000, 0x2000) else if t = 1 then (a + 0x8000, 0x1000) else (0, 0))\<rparr>"

definition demo_kernel :: ac_kernel where
  "demo_kernel = \<lparr>
     k_read8 = (\<lambda>a. if 0xffffffff82000000 \<le> a \<and> a < 0xffffffff82001000
                    then Some (0xffffffff81000000 + 2 * (a - 0xffffffff82000000)) else None),
     k_read4 = (\<lambda>a. None),
     k_register_kprobe = (\<lambda>s. if s = ''__x64_sys_read'' then Some 0xffffffff81000000
                              else if s = ''__x64_sys_write'' then Some 0xffffffff81000010
                              else if s = ''_stext'' then Some 0xffffffff80000000
                              else if s = ''_etext'' then Some 0xffffffff81f00000 else None),
     k_modules = [demo_module 0xffffffffc0000000, demo_module 0xffffffffc0100000],
     k_is_vmalloc_or_module_addr = (\<lambda>a. a \<ge> 0xffffffffa0000000),
     k_within_module_core = (\<lambda>a m. \<exists>t \<in> set [0, 1, 2, 3]. a - fst (km_mem m t) < snd (km_mem m t)),
     k_MODULE_STATE_LIVE = 0, k_MOD_TEXT = 0, k_core_types = [0, 1, 2, 3], k_MOD_MEM_NUM_TYPES = 7,
     k_NR_syscalls = 512, k_NR_read = 0, k_NR_write = 1\<rparr>"

definition demo_text :: ac_text where
  "demo_text = \<lparr>tx_stext = 0xffffffff80000000, tx_etext = 0xffffffff81f00000,
     tx_text_end = 0xffffffff81f00000, tx_text_end_guessed = False, tx_anchor = 0xffffffff81000000\<rparr>"

lemma demo_within_core: "within_core_spec demo_kernel"
  by (simp add: within_core_spec_def demo_kernel_def)

lemma demo_regular: "ranges_regular demo_kernel"
  by (simp add: ranges_regular_def demo_kernel_def demo_module_def)

lemma demo_resolve: "ac_resolve_text_bounds demo_kernel (demo_text\<lparr>tx_stext := 0, tx_etext := 0, tx_text_end := 0\<rparr>) = demo_text"
  by (simp add: ac_resolve_text_bounds_def ac_lookup_def demo_kernel_def demo_text_def)

lemma demo_lookup:
  "ac_normalize_func demo_kernel (ac_lookup demo_kernel ''__x64_sys_read'') = 0xffffffff81000000"
  "ac_normalize_func demo_kernel (ac_lookup demo_kernel ''__x64_sys_write'') = 0xffffffff81000010"
  by (simp_all add: ac_normalize_func_def ac_lookup_def demo_kernel_def)

theorem ac_entry_bad_snapshot_correct_witness:
  "ac_entry_bad_snapshot demo_kernel demo_text 0xffffffffc0101800 (ac_snapshot_mod_ranges demo_kernel True) \<and>
   ac_entry_bad_snapshot demo_kernel demo_text 0xffffffffc0101800 (ac_snapshot_mod_ranges demo_kernel False) \<and>
   \<not> ac_entry_bad_snapshot demo_kernel demo_text 0xffffffff81000040 (ac_snapshot_mod_ranges demo_kernel True)"
  unfolding ac_entry_bad_snapshot_correct [OF demo_within_core demo_regular]
  by (simp add: ac_entry_bad_def ac_in_core_text_def demo_text_def ac_addr_in_module_iff ac_module_sane_def
      demo_kernel_def demo_module_def)

theorem ac_find_syscall_table_correct_witness:
  "\<exists>base tx'. ac_find_syscall_table demo_kernel demo_text = Some (base, tx') \<and>
     (if base \<noteq> 0 then is_table demo_kernel 0xffffffff81000000 0xffffffff81000010 base \<and>
        tx' = ac_derive_bounds demo_kernel base 0xffffffff81000000 (demo_text\<lparr>tx_anchor := 0xffffffff81000000\<rparr>)
      else tx' = demo_text \<and> (\<forall>j < 0x400000.
        \<not> is_table demo_kernel 0xffffffff81000000 0xffffffff81000010 (0xffffffff81f00000 + of_nat (8 * j) - of_nat (k_NR_read demo_kernel * 8)) \<and>
        \<not> is_table demo_kernel 0xffffffff81000000 0xffffffff81000010 (0xffffffff81000000 - of_nat (8 * j) - of_nat (k_NR_read demo_kernel * 8))))"
  by (rule ac_find_syscall_table_correct)
     (simp_all add: demo_lookup demo_text_def, simp add: demo_kernel_def slot_addr_def)

theorem ac_derive_bounds_accepts_witness:
  "k_read8 demo_kernel (slot_addr 0xffffffff82000000 3) = Some 0xffffffff81000030 \<and>
   \<not> ac_entry_bad demo_kernel (ac_derive_bounds demo_kernel 0xffffffff82000000 0xffffffff81000000
       (demo_text\<lparr>tx_stext := 0, tx_text_end := 0\<rparr>)) 0xffffffff81000030"
proof -
  have r: "k_read8 demo_kernel (slot_addr 0xffffffff82000000 3) = Some 0xffffffff81000030"
    by (simp add: demo_kernel_def slot_addr_def)
  have p: "ac_plausible_handler demo_kernel 0xffffffff81000030 0xffffffff81000000"
    by (simp add: ac_plausible_handler_def ac_addr_in_module_iff ac_module_sane_def demo_kernel_def demo_module_def)
  show ?thesis
    using r ac_derive_bounds_accepts [OF _ r p, of "demo_text\<lparr>tx_stext := 0, tx_text_end := 0\<rparr>"]
    by (simp add: demo_text_def) (simp add: demo_kernel_def)
qed

end
