(* ===== verification/AC_Syscalls.thy ===== *)
theory AC_Syscalls
  imports AC_Sha256 AC_Ring AC_Text "HOL-Library.Monad_Syntax"
begin

text \<open>
  The boot-time baseline of syscall handler addresses and the table check behind
  \<^verbatim>\<open>AC_IOCTL_CHECK_SYSCALLS\<close> (\<^verbatim>\<open>ac_capture_syscall_baseline\<close>, \<^verbatim>\<open>ac_check_syscalls\<close> in
  \<^verbatim>\<open>src/src/anticheat_module.c\<close>).  The check runs under one mutex, so a call is one step on its state.
  Results are optional because the hash routines loop; the lemmas show that a result always comes.
\<close>

subsection \<open>State and operations\<close>

text \<open>The bitmaps are lists with one boolean per syscall.\<close>

record ac_sys_state =
  sy_table :: addr
  sy_hooked_bitmap :: "bool list"
  sy_baseline :: "u64 list"
  sy_baseline_hex :: string
  sy_baseline_ready :: bool
  sy_redirect_bitmap :: "bool list"
  sy_baseline_captured :: "bool list"

text \<open>The bytes of an \<^verbatim>\<open>unsigned long\<close> in memory (x86-64 is little-endian) and of an array of them.\<close>

definition le64 :: "u64 \<Rightarrow> byte list" where
  "le64 w = map (\<lambda>j. ucast (drop_bit (8 * j) w)) [0..<8]"

definition bytes_of_longs :: "u64 list \<Rightarrow> byte list" where
  "bytes_of_longs ws = concat (map le64 ws)"

text \<open>One iteration of the capture loop.\<close>

definition capture_slot :: "ac_kernel \<Rightarrow> addr \<Rightarrow> ac_sys_state \<Rightarrow> nat \<Rightarrow> ac_sys_state" where
  "capture_slot k base sy i =
     (case k_read8 k (slot_addr base i) of
        Some e \<Rightarrow> sy\<lparr>sy_baseline_captured := (sy_baseline_captured sy)[i := True],
                     sy_baseline := (sy_baseline sy)[i := e]\<rparr>
      | None \<Rightarrow> sy\<lparr>sy_baseline := (sy_baseline sy)[i := 0]\<rparr>)"

text \<open>\<open>c0\<close> is the uninitialised context on the stack of \<^verbatim>\<open>ac_sha256_hex\<close>.\<close>

definition ac_capture_syscall_baseline ::
  "ac_kernel \<Rightarrow> ac_sha256_ctx \<Rightarrow> ac_sys_state \<Rightarrow> ac_sys_state option" where
  "ac_capture_syscall_baseline k c0 sy =
     (if sy_table sy = 0 then Some sy
      else
        (let sy1 = foldl (capture_slot k (sy_table sy)) sy [0..<k_NR_syscalls k]
         in do {
              hex \<leftarrow> ac_sha256_hex c0 (bytes_of_longs (sy_baseline sy1));
              Some (sy1\<lparr>sy_baseline_hex := hex, sy_baseline_ready := True\<rparr>)
            }))"

text \<open>The variables of the check loop: the reply, the module's state, the ring and the running hash.\<close>

record check_state =
  ck_out :: ac_syscall_check
  ck_sys :: ac_sys_state
  ck_ring :: ac_ring_state
  ck_hash :: ac_sha256_ctx

text \<open>The part of an iteration that compares a value read from slot \<open>i\<close> with the baseline.\<close>

definition check_baseline ::
  "ac_sha256_ctx \<Rightarrow> (u64 \<Rightarrow> bool) \<Rightarrow> nat \<Rightarrow> u64 \<Rightarrow> check_state \<Rightarrow> check_state option" where
  "check_baseline c0 entry_bad i e st =
     (let sy = ck_sys st;
          have_baseline = (sy_baseline_ready sy \<and> sy_baseline_captured sy ! i);
          clear_redirect = st\<lparr>ck_sys := sy\<lparr>sy_redirect_bitmap := (sy_redirect_bitmap sy)[i := False]\<rparr>\<rparr>
      in if \<not> sy_baseline_ready sy then Some st
         else if \<not> have_baseline then
           (let sy1 = sy\<lparr>sy_baseline := (sy_baseline sy)[i := e],
                         sy_baseline_captured := (sy_baseline_captured sy)[i := True]\<rparr>
            in do {
                 hex \<leftarrow> ac_sha256_hex c0 (bytes_of_longs (sy_baseline sy1));
                 Some (st\<lparr>ck_sys := sy1\<lparr>sy_baseline_hex := hex,
                                          sy_redirect_bitmap := (sy_redirect_bitmap sy)[i := False]\<rparr>\<rparr>)
               })
         else if e \<noteq> sy_baseline sy ! i then
           (if \<not> entry_bad e then
              Some (st\<lparr>ck_out := (ck_out st)\<lparr>sc_redirected := sc_redirected (ck_out st) + 1\<rparr>,
                       ck_sys := sy\<lparr>sy_redirect_bitmap := (sy_redirect_bitmap sy)[i := True]\<rparr>,
                       ck_ring := (if sy_redirect_bitmap sy ! i then ck_ring st
                                   else ac_emit AC_EV_SYSCALL_REDIRECT 0 (Some ''?'')
                                          (''syscall['' @ fmt_u i @ ''] handler changed 0x'' @ fmt_lx (sy_baseline sy ! i) @
                                           '' -> 0x'' @ fmt_lx e @ '' (still core text)'') (ck_ring st))\<rparr>)
            else Some clear_redirect)
         else Some clear_redirect)"

text \<open>The part of an iteration that classifies the value by the text range.\<close>

definition check_range :: "(u64 \<Rightarrow> bool) \<Rightarrow> nat \<Rightarrow> u64 \<Rightarrow> check_state \<Rightarrow> check_state" where
  "check_range entry_bad i e st =
     (if e = 0 then st
      else
        (let out1 = (ck_out st)\<lparr>sc_total := sc_total (ck_out st) + 1\<rparr>; sy = ck_sys st
         in if entry_bad e then
              st\<lparr>ck_out := out1\<lparr>sc_non_text := sc_non_text out1 + 1, sc_hooked := sc_hooked out1 + 1\<rparr>,
                 ck_sys := sy\<lparr>sy_hooked_bitmap := (sy_hooked_bitmap sy)[i := True]\<rparr>,
                 ck_ring := (if sy_hooked_bitmap sy ! i then ck_ring st
                             else ac_emit AC_EV_SYSCALL_HOOK 0 (Some ''?'')
                                    (''syscall['' @ fmt_u i @ ''] -> 0x'' @ fmt_lx e @ '' outside core kernel text'')
                                    (ck_ring st))\<rparr>
            else st\<lparr>ck_out := out1, ck_sys := sy\<lparr>sy_hooked_bitmap := (sy_hooked_bitmap sy)[i := False]\<rparr>\<rparr>))"

text \<open>One iteration of the loop of \<^verbatim>\<open>ac_check_syscalls\<close>.\<close>

definition check_slot ::
  "ac_kernel \<Rightarrow> ac_sha256_ctx \<Rightarrow> (u64 \<Rightarrow> bool) \<Rightarrow> addr \<Rightarrow> nat \<Rightarrow> check_state \<Rightarrow> check_state option" where
  "check_slot k c0 entry_bad base i st =
     (let sy = ck_sys st;
          have_baseline = (sy_baseline_ready sy \<and> sy_baseline_captured sy ! i)
      in case k_read8 k (slot_addr base i) of
           None \<Rightarrow> do {
             h \<leftarrow> ac_sha256_update (ck_hash st) (le64 (if have_baseline then sy_baseline sy ! i else 0));
             Some (st\<lparr>ck_hash := h\<rparr>)
           }
         | Some e \<Rightarrow> do {
             h \<leftarrow> ac_sha256_update (ck_hash st) (le64 e);
             st1 \<leftarrow> check_baseline c0 entry_bad i e (st\<lparr>ck_hash := h\<rparr>);
             Some (check_range entry_bad i e st1)
           })"

primrec check_loop ::
  "ac_kernel \<Rightarrow> ac_sha256_ctx \<Rightarrow> (u64 \<Rightarrow> bool) \<Rightarrow> addr \<Rightarrow> nat list \<Rightarrow> check_state \<Rightarrow> check_state option" where
  "check_loop k c0 entry_bad base [] st = Some st"
| "check_loop k c0 entry_bad base (i # is) st =
     Option.bind (check_slot k c0 entry_bad base i st) (check_loop k c0 entry_bad base is)"

definition syscall_check_zero :: ac_syscall_check where
  "syscall_check_zero = \<lparr>sc_table_addr = 0, sc_nr_syscalls = 0, sc_total = 0, sc_non_text = 0, sc_hooked = 0,
     sc_ok = 0, sc_baseline_ready = 0, sc_redirected = 0, sc_checksum_mismatch = 0,
     sc_baseline_sha256 = [], sc_current_sha256 = []\<rparr>"

text \<open>The end of the function: the digests, the mismatch flag and the verdict.\<close>

definition check_reply :: "ac_sys_state \<Rightarrow> byte list \<Rightarrow> ac_syscall_check \<Rightarrow> ac_syscall_check" where
  "check_reply sy digest out =
     (let out2 = (if sy_baseline_ready sy
                  then out\<lparr>sc_baseline_sha256 := strscpy 65 (sy_baseline_hex sy)\<rparr>
                  else out);
          out3 = out2\<lparr>sc_current_sha256 := ac_sha256_hex_digest digest\<rparr>;
          mismatch = (sy_baseline_ready sy \<and> sc_current_sha256 out3 \<noteq> sc_baseline_sha256 out3);
          out4 = out3\<lparr>sc_checksum_mismatch := (if mismatch then 1 else 0)\<rparr>
      in out4\<lparr>sc_ok := (if sc_hooked out4 = 0 \<and> sc_redirected out4 = 0 \<and>
                           sc_checksum_mismatch out4 = 0 then 1 else 0)\<rparr>)"

text \<open>\<open>alloc\<close> says whether the allocation of the range snapshot succeeds.\<close>

definition ac_check_syscalls ::
  "ac_kernel \<Rightarrow> bool \<Rightarrow> ac_text \<Rightarrow> ac_sha256_ctx \<Rightarrow> ac_sys_state \<Rightarrow> ac_ring_state \<Rightarrow>
     (int \<times> ac_syscall_check \<times> ac_sys_state \<times> ac_ring_state) option" where
  "ac_check_syscalls k alloc tx c0 sy rg =
     (let base = sy_table sy;
          out0 = syscall_check_zero\<lparr>sc_table_addr := base\<rparr>
      in if base = 0 then Some (- ENODEV, out0, sy, rg)
         else
           (let out1 = out0\<lparr>sc_nr_syscalls := k_NR_syscalls k,
                            sc_baseline_ready := (if sy_baseline_ready sy then 1 else 0)\<rparr>;
                ranges = ac_snapshot_mod_ranges k alloc
            in do {
                 st \<leftarrow> check_loop k c0 (\<lambda>e. ac_entry_bad_snapshot k tx e ranges) base [0..<k_NR_syscalls k]
                        \<lparr>ck_out = out1, ck_sys = sy, ck_ring = rg, ck_hash = ac_sha256_init c0\<rparr>;
                 digest \<leftarrow> ac_sha256_final (ck_hash st);
                 Some (0, check_reply (ck_sys st) digest (ck_out st), ck_sys st, ck_ring st)
               }))"

subsection \<open>What one check does to each slot\<close>

text \<open>
  The specification, slot by slot: \<open>ob i\<close> is what the check reads from slot \<open>i\<close> (\<open>None\<close>: the read
  failed), \<open>bad\<close> the range classification and \<open>sy\<close> the state before the check.
\<close>

definition had_baseline :: "ac_sys_state \<Rightarrow> nat \<Rightarrow> bool" where
  "had_baseline sy i \<longleftrightarrow> sy_baseline_ready sy \<and> sy_baseline_captured sy ! i"

definition slot_baseline :: "(nat \<Rightarrow> u64 option) \<Rightarrow> ac_sys_state \<Rightarrow> nat \<Rightarrow> u64" where
  "slot_baseline ob sy i =
     (case ob i of Some e \<Rightarrow> if sy_baseline_ready sy \<and> \<not> sy_baseline_captured sy ! i then e else sy_baseline sy ! i
      | None \<Rightarrow> sy_baseline sy ! i)"

definition slot_hashed :: "(nat \<Rightarrow> u64 option) \<Rightarrow> ac_sys_state \<Rightarrow> nat \<Rightarrow> u64" where
  "slot_hashed ob sy i = (case ob i of Some e \<Rightarrow> e | None \<Rightarrow> if had_baseline sy i then sy_baseline sy ! i else 0)"

definition slot_redirected :: "(nat \<Rightarrow> u64 option) \<Rightarrow> (u64 \<Rightarrow> bool) \<Rightarrow> ac_sys_state \<Rightarrow> nat \<Rightarrow> bool" where
  "slot_redirected ob bad sy i \<longleftrightarrow>
     (case ob i of Some e \<Rightarrow> had_baseline sy i \<and> e \<noteq> sy_baseline sy ! i \<and> \<not> bad e | None \<Rightarrow> False)"

definition slot_hooked :: "(nat \<Rightarrow> u64 option) \<Rightarrow> (u64 \<Rightarrow> bool) \<Rightarrow> nat \<Rightarrow> bool" where
  "slot_hooked ob bad i \<longleftrightarrow> (case ob i of Some e \<Rightarrow> e \<noteq> 0 \<and> bad e | None \<Rightarrow> False)"

definition slot_nonnull :: "(nat \<Rightarrow> u64 option) \<Rightarrow> nat \<Rightarrow> bool" where
  "slot_nonnull ob i \<longleftrightarrow> (case ob i of Some e \<Rightarrow> e \<noteq> 0 | None \<Rightarrow> False)"

definition redirect_text :: "nat \<Rightarrow> u64 \<Rightarrow> u64 \<Rightarrow> emit_args" where
  "redirect_text i old e = (AC_EV_SYSCALL_REDIRECT, 0, Some ''?'',
     ''syscall['' @ fmt_u i @ ''] handler changed 0x'' @ fmt_lx old @ '' -> 0x'' @ fmt_lx e @ '' (still core text)'')"

definition hook_text :: "nat \<Rightarrow> u64 \<Rightarrow> emit_args" where
  "hook_text i e = (AC_EV_SYSCALL_HOOK, 0, Some ''?'',
     ''syscall['' @ fmt_u i @ ''] -> 0x'' @ fmt_lx e @ '' outside core kernel text'')"

text \<open>The events of a slot: one per condition, and only when its bit was clear before.\<close>

definition slot_events :: "(nat \<Rightarrow> u64 option) \<Rightarrow> (u64 \<Rightarrow> bool) \<Rightarrow> ac_sys_state \<Rightarrow> nat \<Rightarrow> emit_args list" where
  "slot_events ob bad sy i =
     (if slot_redirected ob bad sy i \<and> \<not> sy_redirect_bitmap sy ! i
      then [redirect_text i (sy_baseline sy ! i) (the (ob i))] else []) @
     (if slot_hooked ob bad i \<and> \<not> sy_hooked_bitmap sy ! i then [hook_text i (the (ob i))] else [])"

text \<open>The first \<open>n\<close> elements of a list replaced by \<open>f 0\<close>, \<open>f 1\<close>, \<dots>\<close>

definition upd_upto :: "nat \<Rightarrow> (nat \<Rightarrow> 'a) \<Rightarrow> 'a list \<Rightarrow> 'a list" where
  "upd_upto n f xs = map f [0..<n] @ drop n xs"

lemma upd_upto_0 [simp]: "upd_upto 0 f xs = xs"
  by (simp add: upd_upto_def)

lemma upd_upto_all: "upd_upto (length xs) f xs = map f [0..<length xs]"
  by (simp add: upd_upto_def)

lemma upd_upto_nth [simp]: "n < length xs \<Longrightarrow> upd_upto n f xs ! n = xs ! n"
  by (simp add: upd_upto_def nth_append)

lemma length_upd_upto [simp]: "n \<le> length xs \<Longrightarrow> length (upd_upto n f xs) = length xs"
  by (simp add: upd_upto_def)

lemma upd_upto_set: "n < length xs \<Longrightarrow> f n = v \<Longrightarrow> (upd_upto n f xs)[n := v] = upd_upto (Suc n) f xs"
  by (simp add: upd_upto_def list_update_append Cons_nth_drop_Suc [symmetric])

lemma upd_upto_keep: "n < length xs \<Longrightarrow> f n = xs ! n \<Longrightarrow> upd_upto (Suc n) f xs = upd_upto n f xs"
  by (simp add: upd_upto_def Cons_nth_drop_Suc)

definition sys_inv :: "nat \<Rightarrow> ac_sys_state \<Rightarrow> bool" where
  "sys_inv nr sy \<longleftrightarrow>
     length (sy_hooked_bitmap sy) = nr \<and> length (sy_baseline sy) = nr \<and>
     length (sy_redirect_bitmap sy) = nr \<and> length (sy_baseline_captured sy) = nr \<and>
     (sy_baseline_ready sy \<longrightarrow>
        sy_baseline_hex sy = ac_sha256_hex_digest (sha256_spec (bytes_of_longs (sy_baseline sy))) \<and>
        (\<forall>i < nr. \<not> sy_baseline_captured sy ! i \<longrightarrow> sy_baseline sy ! i = 0))"

text \<open>The module's state after the first \<open>n\<close> slots.\<close>

definition sys_after :: "(nat \<Rightarrow> u64 option) \<Rightarrow> (u64 \<Rightarrow> bool) \<Rightarrow> nat \<Rightarrow> ac_sys_state \<Rightarrow> ac_sys_state" where
  "sys_after ob bad n sy =
     (let bl = upd_upto n (slot_baseline ob sy) (sy_baseline sy)
      in sy\<lparr>sy_baseline := bl,
            sy_baseline_hex := (if sy_baseline_ready sy then ac_sha256_hex_digest (sha256_spec (bytes_of_longs bl))
                                else sy_baseline_hex sy),
            sy_baseline_captured :=
              upd_upto n (\<lambda>i. sy_baseline_captured sy ! i \<or> (sy_baseline_ready sy \<and> ob i \<noteq> None)) (sy_baseline_captured sy),
            sy_redirect_bitmap :=
              upd_upto n (\<lambda>i. if sy_baseline_ready sy \<and> ob i \<noteq> None then slot_redirected ob bad sy i
                              else sy_redirect_bitmap sy ! i) (sy_redirect_bitmap sy),
            sy_hooked_bitmap :=
              upd_upto n (\<lambda>i. if slot_nonnull ob i then slot_hooked ob bad i else sy_hooked_bitmap sy ! i)
                (sy_hooked_bitmap sy)\<rparr>)"

definition out_after ::
  "(nat \<Rightarrow> u64 option) \<Rightarrow> (u64 \<Rightarrow> bool) \<Rightarrow> nat \<Rightarrow> ac_sys_state \<Rightarrow> ac_syscall_check \<Rightarrow> ac_syscall_check" where
  "out_after ob bad n sy out = out\<lparr>
     sc_total := length (filter (slot_nonnull ob) [0..<n]),
     sc_non_text := length (filter (slot_hooked ob bad) [0..<n]),
     sc_hooked := length (filter (slot_hooked ob bad) [0..<n]),
     sc_redirected := length (filter (slot_redirected ob bad sy) [0..<n])\<rparr>"

definition ring_after :: "(nat \<Rightarrow> u64 option) \<Rightarrow> (u64 \<Rightarrow> bool) \<Rightarrow> nat \<Rightarrow> ac_sys_state \<Rightarrow> ac_ring_state \<Rightarrow> ac_ring_state" where
  "ring_after ob bad n sy rg = fold emit_of (concat (map (slot_events ob bad sy) [0..<n])) rg"

definition st_after ::
  "(nat \<Rightarrow> u64 option) \<Rightarrow> (u64 \<Rightarrow> bool) \<Rightarrow> nat \<Rightarrow> ac_sys_state \<Rightarrow> ac_syscall_check \<Rightarrow> ac_ring_state \<Rightarrow> ac_sha256_ctx \<Rightarrow> check_state" where
  "st_after ob bad n sy out rg h = \<lparr>ck_out = out_after ob bad n sy out, ck_sys = sys_after ob bad n sy,
     ck_ring = ring_after ob bad n sy rg, ck_hash = h\<rparr>"

lemma hex_keep:
  assumes "sys_inv nr sy" and "n < nr" and "slot_baseline ob sy n = sy_baseline sy ! n"
  shows "sys_after ob bad (Suc n) sy = (sys_after ob bad n sy)\<lparr>
     sy_baseline_captured := (sy_baseline_captured (sys_after ob bad n sy))
       [n := sy_baseline_captured sy ! n \<or> (sy_baseline_ready sy \<and> ob n \<noteq> None)],
     sy_redirect_bitmap := (sy_redirect_bitmap (sys_after ob bad n sy))
       [n := if sy_baseline_ready sy \<and> ob n \<noteq> None then slot_redirected ob bad sy n else sy_redirect_bitmap sy ! n],
     sy_hooked_bitmap := (sy_hooked_bitmap (sys_after ob bad n sy))
       [n := if slot_nonnull ob n then slot_hooked ob bad n else sy_hooked_bitmap sy ! n]\<rparr>"
  using assms by (simp add: sys_after_def sys_inv_def upd_upto_set upd_upto_keep Let_def)

lemma sys_after_at:
  assumes "sys_inv nr sy" and "n < nr"
  shows "sy_baseline (sys_after ob bad n sy) ! n = sy_baseline sy ! n"
    and "sy_baseline_captured (sys_after ob bad n sy) ! n = sy_baseline_captured sy ! n"
    and "sy_redirect_bitmap (sys_after ob bad n sy) ! n = sy_redirect_bitmap sy ! n"
    and "sy_hooked_bitmap (sys_after ob bad n sy) ! n = sy_hooked_bitmap sy ! n"
    and "sy_baseline_ready (sys_after ob bad n sy) = sy_baseline_ready sy"
    and "(sy_baseline_captured (sys_after ob bad n sy))[n := sy_baseline_captured sy ! n] = sy_baseline_captured (sys_after ob bad n sy)"
    and "(sy_redirect_bitmap (sys_after ob bad n sy))[n := sy_redirect_bitmap sy ! n] = sy_redirect_bitmap (sys_after ob bad n sy)"
    and "(sy_hooked_bitmap (sys_after ob bad n sy))[n := sy_hooked_bitmap sy ! n] = sy_hooked_bitmap (sys_after ob bad n sy)"
  using assms by (auto simp: sys_after_def sys_inv_def Let_def intro!: list_update_same_conv [THEN iffD2])

lemma sys_after_backfill:
  assumes "sys_inv nr sy" and "n < nr" and "sy_baseline_ready sy" and "\<not> sy_baseline_captured sy ! n"
    and "ob n = Some e"
  shows "sys_after ob bad (Suc n) sy = (sys_after ob bad n sy)\<lparr>
     sy_baseline := (sy_baseline (sys_after ob bad n sy))[n := e],
     sy_baseline_hex := ac_sha256_hex_digest (sha256_spec (bytes_of_longs ((sy_baseline (sys_after ob bad n sy))[n := e]))),
     sy_baseline_captured := (sy_baseline_captured (sys_after ob bad n sy))[n := True],
     sy_redirect_bitmap := (sy_redirect_bitmap (sys_after ob bad n sy))[n := False],
     sy_hooked_bitmap := (sy_hooked_bitmap (sys_after ob bad n sy))
       [n := if slot_nonnull ob n then slot_hooked ob bad n else sy_hooked_bitmap sy ! n]\<rparr>"
  using assms by (simp add: sys_after_def sys_inv_def upd_upto_set Let_def slot_baseline_def
      slot_redirected_def had_baseline_def)

lemmas slot_specs = slot_nonnull_def slot_hooked_def slot_redirected_def had_baseline_def slot_events_def
  redirect_text_def hook_text_def emit_of_def

lemma st_after_Suc:
  "st_after ob bad (Suc n) sy out rg h' = (st_after ob bad n sy out rg h)\<lparr>
     ck_out := (out_after ob bad n sy out)\<lparr>
       sc_total := sc_total (out_after ob bad n sy out) + of_bool (slot_nonnull ob n),
       sc_non_text := sc_non_text (out_after ob bad n sy out) + of_bool (slot_hooked ob bad n),
       sc_hooked := sc_hooked (out_after ob bad n sy out) + of_bool (slot_hooked ob bad n),
       sc_redirected := sc_redirected (out_after ob bad n sy out) + of_bool (slot_redirected ob bad sy n)\<rparr>,
     ck_sys := sys_after ob bad (Suc n) sy,
     ck_ring := fold emit_of (slot_events ob bad sy n) (ring_after ob bad n sy rg), ck_hash := h'\<rparr>"
  by (simp add: st_after_def out_after_def ring_after_def)

lemma check_range_cases:
  "check_range bad i 0 st = st"
  "e \<noteq> 0 \<Longrightarrow> bad e \<Longrightarrow> check_range bad i e st = st\<lparr>
     ck_out := (ck_out st)\<lparr>sc_total := sc_total (ck_out st) + 1, sc_non_text := sc_non_text (ck_out st) + 1,
                            sc_hooked := sc_hooked (ck_out st) + 1\<rparr>,
     ck_sys := (ck_sys st)\<lparr>sy_hooked_bitmap := (sy_hooked_bitmap (ck_sys st))[i := True]\<rparr>,
     ck_ring := (if sy_hooked_bitmap (ck_sys st) ! i then ck_ring st else emit_of (hook_text i e) (ck_ring st))\<rparr>"
  "e \<noteq> 0 \<Longrightarrow> \<not> bad e \<Longrightarrow> check_range bad i e st = st\<lparr>
     ck_out := (ck_out st)\<lparr>sc_total := sc_total (ck_out st) + 1\<rparr>,
     ck_sys := (ck_sys st)\<lparr>sy_hooked_bitmap := (sy_hooked_bitmap (ck_sys st))[i := False]\<rparr>\<rparr>"
  by (simp_all add: check_range_def Let_def emit_of_def hook_text_def)

lemma check_baseline_cases:
  "\<not> sy_baseline_ready (ck_sys st) \<Longrightarrow> check_baseline c0 bad i e st = Some st"
  "sy_baseline_ready (ck_sys st) \<Longrightarrow> sy_baseline_captured (ck_sys st) ! i \<Longrightarrow>
   e = sy_baseline (ck_sys st) ! i \<or> bad e \<Longrightarrow>
   check_baseline c0 bad i e st =
     Some (st\<lparr>ck_sys := (ck_sys st)\<lparr>sy_redirect_bitmap := (sy_redirect_bitmap (ck_sys st))[i := False]\<rparr>\<rparr>)"
  "sy_baseline_ready (ck_sys st) \<Longrightarrow> sy_baseline_captured (ck_sys st) ! i \<Longrightarrow>
   e \<noteq> sy_baseline (ck_sys st) ! i \<Longrightarrow> \<not> bad e \<Longrightarrow>
   check_baseline c0 bad i e st =
     Some (st\<lparr>ck_out := (ck_out st)\<lparr>sc_redirected := sc_redirected (ck_out st) + 1\<rparr>,
              ck_sys := (ck_sys st)\<lparr>sy_redirect_bitmap := (sy_redirect_bitmap (ck_sys st))[i := True]\<rparr>,
              ck_ring := (if sy_redirect_bitmap (ck_sys st) ! i then ck_ring st
                          else emit_of (redirect_text i (sy_baseline (ck_sys st) ! i) e) (ck_ring st))\<rparr>)"
  by (auto simp add: check_baseline_def Let_def emit_of_def redirect_text_def)

lemma check_slot_after:
  assumes inv: "sys_inv nr sy" and n: "n < nr" and c0: "length (ctx_buf c0) = 64"
    and h: "ctx_has h m" and ob: "ob = (\<lambda>i. k_read8 k (slot_addr base i))"
  shows "\<exists>h'. check_slot k c0 bad base n (st_after ob bad n sy out rg h) = Some (st_after ob bad (Suc n) sy out rg h') \<and>
      ctx_has h' (m @ le64 (slot_hashed ob sy n))"
proof -
  obtain h' where h': "ac_sha256_update h (le64 (slot_hashed ob sy n)) = Some h'"
    "ctx_has h' (m @ le64 (slot_hashed ob sy n))" using sha.update_has [OF h] by blast
  note at = sys_after_at [OF inv n]
  have rd: "k_read8 k (slot_addr base n) = ob n" by (simp add: ob)
  let ?S = "st_after ob bad n sy out rg h"
  have hashed: "ck_hash ?S = h" "ck_sys ?S = sys_after ob bad n sy" "ck_out ?S = out_after ob bad n sy out"
    "ck_ring ?S = ring_after ob bad n sy rg"
    by (simp_all add: st_after_def)
  have "check_slot k c0 bad base n ?S = Some (st_after ob bad (Suc n) sy out rg h')"
  proof (cases "ob n")
    case None
    have b: "slot_baseline ob sy n = sy_baseline sy ! n" by (simp add: slot_baseline_def None)
    have "check_slot k c0 bad base n ?S = Some (?S\<lparr>ck_hash := h'\<rparr>)"
      using None h'(1) by (auto simp: check_slot_def rd hashed at slot_hashed_def had_baseline_def Let_def)
    also have "?S\<lparr>ck_hash := h'\<rparr> = st_after ob bad (Suc n) sy out rg h'"
      unfolding st_after_Suc [of ob bad n sy out rg h' h] hex_keep [OF inv n b]
      by (simp add: slot_specs None at hashed st_after_def out_after_def)
    finally show ?thesis .
  next
    case (Some e)
    have u: "ac_sha256_update h (le64 e) = Some h'" using h'(1) Some by (simp add: slot_hashed_def)
    show ?thesis
    proof (cases "sy_baseline_ready sy \<and> \<not> sy_baseline_captured sy ! n")
      case True
      show ?thesis
        unfolding st_after_Suc [of ob bad n sy out rg h' h] sys_after_backfill [of nr sy n ob e, OF inv n conjunct1 [OF True] conjunct2 [OF True] Some]
        using Some u True
        by (cases "e = 0"; cases "bad e")
           (simp_all add: check_slot_def check_baseline_def check_range_cases rd hashed at slot_specs Let_def
             sha256_hex_value [OF c0] st_after_def out_after_def)
    next
      case False
      then have b: "slot_baseline ob sy n = sy_baseline sy ! n" by (auto simp: slot_baseline_def Some)
      have c: "check_slot k c0 bad base n ?S =
          Option.bind (check_baseline c0 bad n e (?S\<lparr>ck_hash := h'\<rparr>)) (\<lambda>st. Some (check_range bad n e st))"
        using u by (simp add: check_slot_def rd Some hashed)
      have cap: "(sy_baseline_captured (sys_after ob bad n sy))[n := True] = sy_baseline_captured (sys_after ob bad n sy)"
        if "sy_baseline_captured sy ! n" using that at(6) [of ob bad] by simp
      note step = st_after_Suc [of ob bad n sy out rg h' h] hex_keep [OF inv n b] c
      consider "\<not> sy_baseline_ready sy" | "sy_baseline_ready sy" "sy_baseline_captured sy ! n" "sy_baseline sy ! n = e"
        | "sy_baseline_ready sy" "sy_baseline_captured sy ! n" "bad e"
        | "sy_baseline_ready sy" "sy_baseline_captured sy ! n" "e \<noteq> sy_baseline sy ! n" "\<not> bad e"
        using False by blast
      then show ?thesis
      proof cases
        case 1
        then have r: "\<not> slot_redirected ob bad sy n" by (simp add: slot_redirected_def had_baseline_def split: option.split)
        show ?thesis
          unfolding step using 1 r Some by (cases "e = 0"; cases "bad e")
            (simp_all add: check_baseline_cases check_range_cases hashed at cap slot_events_def slot_nonnull_def slot_hooked_def)
      next
        case 2
        then have r: "\<not> slot_redirected ob bad sy n" by (simp add: slot_redirected_def Some)
        show ?thesis
          unfolding step using 2 r Some by (cases "e = 0"; cases "bad e")
            (simp_all add: check_baseline_cases check_range_cases hashed at cap slot_events_def slot_nonnull_def slot_hooked_def)
      next
        case 3
        then have r: "\<not> slot_redirected ob bad sy n" by (simp add: slot_redirected_def Some)
        show ?thesis
          unfolding step using 3 r Some by (cases "e = 0")
            (simp_all add: check_baseline_cases check_range_cases hashed at cap slot_events_def slot_nonnull_def slot_hooked_def)
      next
        case 4
        then have r: "slot_redirected ob bad sy n" by (simp add: slot_redirected_def had_baseline_def Some)
        show ?thesis
          unfolding step using 4 r Some by (cases "e = 0")
            (simp_all add: check_baseline_cases check_range_cases hashed at cap slot_events_def slot_nonnull_def slot_hooked_def)
      qed
    qed
  qed
  with h'(2) show ?thesis by blast
qed

lemma check_loop_append:
  "check_loop k c0 bad base (is @ js) st = Option.bind (check_loop k c0 bad base is st) (check_loop k c0 bad base js)"
  by (induction "is" arbitrary: st) (auto split: bind_split)

lemma check_loop_after:
  assumes inv: "sys_inv nr sy" and c0: "length (ctx_buf c0) = 64" and ob: "ob = (\<lambda>i. k_read8 k (slot_addr base i))"
    and out: "sc_total out = 0" "sc_non_text out = 0" "sc_hooked out = 0" "sc_redirected out = 0"
  shows "n \<le> nr \<Longrightarrow> \<exists>h. check_loop k c0 bad base [0..<n]
      \<lparr>ck_out = out, ck_sys = sy, ck_ring = rg, ck_hash = ac_sha256_init c0\<rparr> = Some (st_after ob bad n sy out rg h) \<and>
      ctx_has h (bytes_of_longs (map (slot_hashed ob sy) [0..<n]))"
proof (induction n)
  case 0
  have "sys_after ob bad 0 sy = sy" using inv by (simp add: sys_after_def sys_inv_def Let_def)
  then have "\<lparr>ck_out = out, ck_sys = sy, ck_ring = rg, ck_hash = ac_sha256_init c0\<rparr> =
      st_after ob bad 0 sy out rg (ac_sha256_init c0)"
    using out by (simp add: st_after_def out_after_def ring_after_def)
  then show ?case using ctx_has_init [OF c0] by (intro exI [of _ "ac_sha256_init c0"]) (simp add: bytes_of_longs_def)
next
  case (Suc n)
  then obtain h where h: "check_loop k c0 bad base [0..<n] \<lparr>ck_out = out, ck_sys = sy, ck_ring = rg, ck_hash = ac_sha256_init c0\<rparr> =
      Some (st_after ob bad n sy out rg h)" "ctx_has h (bytes_of_longs (map (slot_hashed ob sy) [0..<n]))" by auto
  from check_slot_after [OF inv _ c0 h(2) ob, of n bad out rg] Suc(2)
  obtain h' where "check_slot k c0 bad base n (st_after ob bad n sy out rg h) = Some (st_after ob bad (Suc n) sy out rg h')"
    "ctx_has h' (bytes_of_longs (map (slot_hashed ob sy) [0..<n]) @ le64 (slot_hashed ob sy n))" by auto
  then show ?case by (auto simp: check_loop_append h(1) bytes_of_longs_def)
qed

text \<open>The reply and the state after a check, in terms of the slots.\<close>

definition check_reads :: "ac_kernel \<Rightarrow> ac_sys_state \<Rightarrow> nat \<Rightarrow> u64 option" where
  "check_reads k sy i = k_read8 k (slot_addr (sy_table sy) i)"

definition check_bad :: "ac_kernel \<Rightarrow> bool \<Rightarrow> ac_text \<Rightarrow> u64 \<Rightarrow> bool" where
  "check_bad k alloc tx e = ac_entry_bad_snapshot k tx e (ac_snapshot_mod_ranges k alloc)"

definition live_digest :: "ac_kernel \<Rightarrow> ac_sys_state \<Rightarrow> byte list" where
  "live_digest k sy = sha256_spec (bytes_of_longs (map (slot_hashed (check_reads k sy) sy) [0..<k_NR_syscalls k]))"

definition base_digest :: "ac_kernel \<Rightarrow> ac_sys_state \<Rightarrow> byte list" where
  "base_digest k sy = sha256_spec (bytes_of_longs (map (slot_baseline (check_reads k sy) sy) [0..<k_NR_syscalls k]))"

lemma sys_after_inv:
  assumes "sys_inv nr sy"
  shows "sys_inv nr (sys_after ob bad nr sy)"
  using assms by (auto simp: sys_inv_def sys_after_def Let_def upd_upto_def slot_baseline_def split: option.split)

lemma ac_check_syscalls_eq:
  fixes k :: ac_kernel and sy :: ac_sys_state and tx :: ac_text and alloc :: bool
  assumes inv: "sys_inv (k_NR_syscalls k) sy" and base: "sy_table sy \<noteq> 0" and c0: "length (ctx_buf c0) = 64"
  defines "ob \<equiv> check_reads k sy" and "bad \<equiv> check_bad k alloc tx" and "nr \<equiv> k_NR_syscalls k"
  shows "ac_check_syscalls k alloc tx c0 sy rg = Some (0,
     (out_after ob bad nr sy syscall_check_zero)\<lparr>
        sc_table_addr := sy_table sy, sc_nr_syscalls := nr, sc_baseline_ready := of_bool (sy_baseline_ready sy),
        sc_baseline_sha256 := (if sy_baseline_ready sy then ac_sha256_hex_digest (base_digest k sy) else []),
        sc_current_sha256 := ac_sha256_hex_digest (live_digest k sy),
        sc_checksum_mismatch := of_bool (sy_baseline_ready sy \<and> live_digest k sy \<noteq> base_digest k sy),
        sc_ok := of_bool ((\<forall>i < nr. \<not> slot_hooked ob bad i \<and> \<not> slot_redirected ob bad sy i) \<and>
                          (sy_baseline_ready sy \<longrightarrow> live_digest k sy = base_digest k sy))\<rparr>,
     sys_after ob bad nr sy, ring_after ob bad nr sy rg)"
proof -
  define out where "out = syscall_check_zero\<lparr>sc_table_addr := sy_table sy, sc_nr_syscalls := nr,
      sc_baseline_ready := (if sy_baseline_ready sy then 1 else 0)\<rparr>"
  have o: "sc_total out = 0" "sc_non_text out = 0" "sc_hooked out = 0" "sc_redirected out = 0"
    by (simp_all add: out_def syscall_check_zero_def)
  have ob: "ob = (\<lambda>i. k_read8 k (slot_addr (sy_table sy) i))" by (simp add: ob_def check_reads_def fun_eq_iff)
  obtain h where h: "check_loop k c0 bad (sy_table sy) [0..<nr]
      \<lparr>ck_out = out, ck_sys = sy, ck_ring = rg, ck_hash = ac_sha256_init c0\<rparr> = Some (st_after ob bad nr sy out rg h)"
    "ctx_has h (bytes_of_longs (map (slot_hashed ob sy) [0..<nr]))"
    using check_loop_after [OF inv c0 ob o, of nr bad rg] by (auto simp: nr_def)
  have fin: "ac_sha256_final h = Some (live_digest k sy)"
    using sha.finish_spec [OF h(2)] by (simp add: live_digest_def ob_def nr_def)
  have bl: "upd_upto nr (slot_baseline ob sy) (sy_baseline sy) = map (slot_baseline ob sy) [0..<nr]"
    using inv by (simp add: upd_upto_def sys_inv_def nr_def)
  have hex: "sy_baseline_ready sy \<Longrightarrow> sy_baseline_hex (sys_after ob bad nr sy) = ac_sha256_hex_digest (base_digest k sy)"
    "sy_baseline_ready (sys_after ob bad nr sy) = sy_baseline_ready sy"
    using bl by (simp_all add: sys_after_def Let_def base_digest_def ob_def nr_def)
  have l32: "length (live_digest k sy) = 32" "length (base_digest k sy) = 32"
    by (simp_all add: live_digest_def base_digest_def)
  have bad': "bad = (\<lambda>e. ac_entry_bad_snapshot k tx e (ac_snapshot_mod_ranges k alloc))"
    by (simp add: bad_def check_bad_def fun_eq_iff)
  have len: "strscpy 65 (ac_sha256_hex_digest d) = ac_sha256_hex_digest d" for d
    by (simp add: strscpy_def length_hex_digest)
  have none: "length (filter P [0..<nr]) = 0 \<longleftrightarrow> (\<forall>i < nr. \<not> P i)" for P
    by (auto simp: filter_empty_conv)
  have "ac_check_syscalls k alloc tx c0 sy rg = Some (0,
      check_reply (sys_after ob bad nr sy) (live_digest k sy) (out_after ob bad nr sy out),
      sys_after ob bad nr sy, ring_after ob bad nr sy rg)"
    using base h(1) fin
    by (simp add: ac_check_syscalls_def Let_def nr_def [symmetric] bad' [symmetric] out_def [symmetric] st_after_def)
  also have "check_reply (sys_after ob bad nr sy) (live_digest k sy) (out_after ob bad nr sy out) =
    (out_after ob bad nr sy syscall_check_zero)\<lparr>
        sc_table_addr := sy_table sy, sc_nr_syscalls := nr, sc_baseline_ready := of_bool (sy_baseline_ready sy),
        sc_baseline_sha256 := (if sy_baseline_ready sy then ac_sha256_hex_digest (base_digest k sy) else []),
        sc_current_sha256 := ac_sha256_hex_digest (live_digest k sy),
        sc_checksum_mismatch := of_bool (sy_baseline_ready sy \<and> live_digest k sy \<noteq> base_digest k sy),
        sc_ok := of_bool ((\<forall>i < nr. \<not> slot_hooked ob bad i \<and> \<not> slot_redirected ob bad sy i) \<and>
                          (sy_baseline_ready sy \<longrightarrow> live_digest k sy = base_digest k sy))\<rparr>"
    using hex none [of "slot_hooked ob bad"] none [of "slot_redirected ob bad sy"]
    by (cases "sy_baseline_ready sy"; cases "live_digest k sy = base_digest k sy")
       (auto simp: check_reply_def Let_def len hex_digest_eq_iff [OF l32] out_after_def out_def syscall_check_zero_def)
  finally show ?thesis .
qed

subsection \<open>Capturing the baseline\<close>

text \<open>The module's state before the baseline is captured: static arrays are zero.\<close>

definition sys_boot :: "nat \<Rightarrow> addr \<Rightarrow> ac_sys_state" where
  "sys_boot nr table = \<lparr>sy_table = table, sy_hooked_bitmap = replicate nr False, sy_baseline = replicate nr 0,
     sy_baseline_hex = [], sy_baseline_ready = False, sy_redirect_bitmap = replicate nr False,
     sy_baseline_captured = replicate nr False\<rparr>"

lemma capture_fold:
  "n \<le> nr \<Longrightarrow> foldl (capture_slot k base) (sys_boot nr table) [0..<n] = (sys_boot nr table)\<lparr>
     sy_baseline := upd_upto n (\<lambda>i. case k_read8 k (slot_addr base i) of Some e \<Rightarrow> e | None \<Rightarrow> 0) (replicate nr 0),
     sy_baseline_captured := upd_upto n (\<lambda>i. k_read8 k (slot_addr base i) \<noteq> None) (replicate nr False)\<rparr>"
proof (induction n)
  case 0
  show ?case by (simp add: sys_boot_def)
next
  case (Suc n)
  then show ?case
    by (cases "k_read8 k (slot_addr base n)")
       (simp_all add: capture_slot_def upd_upto_set, simp add: upd_upto_keep)
qed

text \<open>Capturing the baseline at load returns and establishes the invariant of the check: every slot
  that could be read is recorded with the value read, every other one as 0 and not captured, and the stored
  hex digest is the SHA-256 value of exactly the stored addresses.\<close>

theorem ac_capture_syscall_baseline_correct:
  assumes "table \<noteq> 0" and "length (ctx_buf c0) = 64"
  shows "\<exists>sy. ac_capture_syscall_baseline k c0 (sys_boot (k_NR_syscalls k) table) = Some sy \<and>
     sy_table sy = table \<and> sy_baseline_ready sy \<and> sys_inv (k_NR_syscalls k) sy \<and>
     (\<forall>i < k_NR_syscalls k. sy_baseline_captured sy ! i = (k_read8 k (slot_addr table i) \<noteq> None) \<and>
        sy_baseline sy ! i = (case k_read8 k (slot_addr table i) of Some e \<Rightarrow> e | None \<Rightarrow> 0))"
proof -
  let ?nr = "k_NR_syscalls k"
  have t: "sy_table (sys_boot ?nr table) = table" by (simp add: sys_boot_def)
  show ?thesis
    using assms unfolding ac_capture_syscall_baseline_def t
    by (simp add: capture_fold sha256_hex_value) (simp add: sys_inv_def upd_upto_def sys_boot_def split: option.split)
qed

subsection \<open>Properties of the check\<close>

text \<open>The two bitmaps are those that the reply implies.\<close>

lemma bytes_of_longs_inj: "length xs = length ys \<Longrightarrow> bytes_of_longs xs = bytes_of_longs ys \<Longrightarrow> xs = ys"
proof -
  have le: "le64 a = le64 b \<Longrightarrow> a = b" for a b
  proof -
    assume "le64 a = le64 b"
    then have eq: "ucast (drop_bit (8 * j) a) = (ucast (drop_bit (8 * j) b) :: byte)" if "j < 8" for j
      using that by (simp add: le64_def list_eq_iff_nth_eq)
    show "a = b"
    proof (rule bit_word_eqI)
      fix n assume n: "n < LENGTH(64)"
      have "bit (ucast (drop_bit (8 * (n div 8)) a) :: byte) (n mod 8) = bit (ucast (drop_bit (8 * (n div 8)) b) :: byte) (n mod 8)"
        using eq [of "n div 8"] n by simp
      then show "bit a n = bit b n" by (simp add: bit_simps)
    qed
  qed
  assume l: "length xs = length ys" and "bytes_of_longs xs = bytes_of_longs ys"
  then have "map le64 xs = map le64 ys"
    unfolding bytes_of_longs_def
    by (intro concat_injective) (auto simp: le64_def zip_map_map)
  then show "xs = ys" using le by (simp add: inj_on_def inj_map_eq_map)
qed

text \<open>C2: No false alarm.  When every slot that can be read holds its baseline value and no such value is
  classified as hooked, the check reports ok and emits nothing; a slot whose read fails never causes an alarm,
  and a slot that was not captured at load is adopted.\<close>

theorem ac_check_syscalls_no_false_alarm:
  assumes inv: "sys_inv (k_NR_syscalls k) sy" and base: "sy_table sy \<noteq> 0" and c0: "length (ctx_buf c0) = 64"
    and same: "\<And>i e. i < k_NR_syscalls k \<Longrightarrow> check_reads k sy i = Some e \<Longrightarrow>
       (e = 0 \<or> \<not> ac_entry_bad_snapshot k tx e (ac_snapshot_mod_ranges k alloc)) \<and>
       (sy_baseline_captured sy ! i \<longrightarrow> e = sy_baseline sy ! i)"
  shows "\<exists>out sy'. ac_check_syscalls k alloc tx c0 sy rg = Some (0, out, sy', rg) \<and> sc_ok out = 1 \<and>
     sc_hooked out = 0 \<and> sc_redirected out = 0 \<and> sc_checksum_mismatch out = 0"
proof -
  let ?ob = "check_reads k sy" and ?bad = "check_bad k alloc tx"
  have clean: "\<not> slot_hooked ?ob ?bad i" "\<not> slot_redirected ?ob ?bad sy i" if "i < k_NR_syscalls k" for i
    using same [OF that] by (auto simp: slot_hooked_def slot_redirected_def had_baseline_def check_bad_def split: option.split)
  have ev: "concat (map (slot_events ?ob ?bad sy) [0..<k_NR_syscalls k]) = []"
    using clean by (auto simp: slot_events_def)
  have "live_digest k sy = base_digest k sy" if "sy_baseline_ready sy"
  proof -
    have "slot_hashed ?ob sy i = slot_baseline ?ob sy i" if "i < k_NR_syscalls k" for i
      using same [OF that] inv that \<open>sy_baseline_ready sy\<close>
      by (auto simp: slot_hashed_def slot_baseline_def had_baseline_def sys_inv_def split: option.split)
    then have "map (slot_hashed ?ob sy) [0..<k_NR_syscalls k] = map (slot_baseline ?ob sy) [0..<k_NR_syscalls k]" by simp
    then show ?thesis by (simp only: live_digest_def base_digest_def)
  qed
  moreover have "filter (slot_hooked ?ob ?bad) [0..<k_NR_syscalls k] = []"
    "filter (slot_redirected ?ob ?bad sy) [0..<k_NR_syscalls k] = []"
    using clean by (auto simp: filter_empty_conv)
  ultimately show ?thesis
    using clean by (simp add: ac_check_syscalls_eq [OF inv base c0] out_after_def ring_after_def ev)
qed

text \<open>C1: Detection.  Let a slot whose address was captured be read with a different value.  A non-zero value is counted as
  hooked or redirected and the check is not ok, whatever the digests say.  In any case the table that is hashed differs from
  the stored one, and the checksum flag is set exactly when the SHA-256 values of these two tables differ, in which case the
  check is not ok either.\<close>

theorem ac_check_syscalls_detects:
  assumes inv: "sys_inv (k_NR_syscalls k) sy" and base: "sy_table sy \<noteq> 0" and c0: "length (ctx_buf c0) = 64"
    and i: "i < k_NR_syscalls k" and cap: "sy_baseline_ready sy" "sy_baseline_captured sy ! i"
    and changed: "check_reads k sy i = Some e" "e \<noteq> sy_baseline sy ! i"
    and live: "live = map (slot_hashed (check_reads k sy) sy) [0..<k_NR_syscalls k]"
    and stored: "stored = map (slot_baseline (check_reads k sy) sy) [0..<k_NR_syscalls k]"
  shows "live ! i = e \<and> stored ! i = sy_baseline sy ! i \<and>
     (\<exists>out sy' rg'. ac_check_syscalls k alloc tx c0 sy rg = Some (0, out, sy', rg') \<and>
        (e \<noteq> 0 \<longrightarrow> sc_ok out = 0 \<and> 0 < sc_hooked out + sc_redirected out) \<and>
        sc_checksum_mismatch out = of_bool (sha256_spec (bytes_of_longs live) \<noteq> sha256_spec (bytes_of_longs stored)) \<and>
        (sha256_spec (bytes_of_longs live) \<noteq> sha256_spec (bytes_of_longs stored) \<longrightarrow> sc_ok out = 0))"
proof -
  let ?ob = "check_reads k sy" and ?bad = "check_bad k alloc tx" and ?nr = "k_NR_syscalls k"
  have hb: "had_baseline sy i" using cap by (simp add: had_baseline_def)
  have hit: "0 < length (filter (slot_hooked ?ob ?bad) [0..<?nr]) + length (filter (slot_redirected ?ob ?bad sy) [0..<?nr]) \<and>
      (slot_hooked ?ob ?bad i \<or> slot_redirected ?ob ?bad sy i)" if "e \<noteq> 0"
  proof -
    have h: "slot_hooked ?ob ?bad i \<or> slot_redirected ?ob ?bad sy i"
      using that changed hb by (simp add: slot_hooked_def slot_redirected_def)
    then have "i \<in> set (filter (slot_hooked ?ob ?bad) [0..<?nr]) \<or> i \<in> set (filter (slot_redirected ?ob ?bad sy) [0..<?nr])"
      using i by simp
    then have "0 < length (filter (slot_hooked ?ob ?bad) [0..<?nr]) + length (filter (slot_redirected ?ob ?bad sy) [0..<?nr])"
      by (elim disjE) (drule length_pos_if_in_set, linarith)+
    with h show ?thesis by blast
  qed
  have d: "live_digest k sy = sha256_spec (bytes_of_longs live)" "base_digest k sy = sha256_spec (bytes_of_longs stored)"
    by (simp_all add: live_digest_def base_digest_def live stored)
  have "live ! i = e" "stored ! i = sy_baseline sy ! i"
    using i changed cap by (simp_all add: live stored slot_hashed_def slot_baseline_def)
  then show ?thesis
    using hit cap i by (auto simp: ac_check_syscalls_eq [OF inv base c0] out_after_def d)
qed

lemma sys_after_ready: "sy_baseline_ready (sys_after ob bad n sy) = sy_baseline_ready sy"
  by (simp add: sys_after_def Let_def)

lemma sys_after_fields:
  assumes "sys_inv nr sy" and "i < nr"
  shows "sy_baseline (sys_after ob bad nr sy) ! i = slot_baseline ob sy i"
    and "sy_baseline_captured (sys_after ob bad nr sy) ! i = (sy_baseline_captured sy ! i \<or> (sy_baseline_ready sy \<and> ob i \<noteq> None))"
    and "sy_redirect_bitmap (sys_after ob bad nr sy) ! i =
      (if sy_baseline_ready sy \<and> ob i \<noteq> None then slot_redirected ob bad sy i else sy_redirect_bitmap sy ! i)"
    and "sy_hooked_bitmap (sys_after ob bad nr sy) ! i =
      (if slot_nonnull ob i then slot_hooked ob bad i else sy_hooked_bitmap sy ! i)"
  using assms by (auto simp: sys_after_def sys_inv_def upd_upto_def Let_def)

lemma upd_upto_same: "n = length xs \<Longrightarrow> (\<And>i. i < n \<Longrightarrow> f i = xs ! i) \<Longrightarrow> upd_upto n f xs = xs"
  by (auto simp: upd_upto_def intro!: nth_equalityI)

lemma slots_stable:
  assumes inv: "sys_inv nr sy" and i: "i < nr"
  shows "slot_baseline ob (sys_after ob bad nr sy) i = slot_baseline ob sy i"
    and "slot_hashed ob (sys_after ob bad nr sy) i = slot_hashed ob sy i"
    and "slot_redirected ob bad (sys_after ob bad nr sy) i = slot_redirected ob bad sy i"
    and "slot_events ob bad (sys_after ob bad nr sy) i = []"
  using sys_after_fields [OF inv i, of ob bad] inv i
  by (auto simp: slot_baseline_def slot_hashed_def slot_redirected_def slot_events_def slot_hooked_def slot_nonnull_def
      had_baseline_def sys_after_ready sys_inv_def split: option.splits)

lemma sys_after_idem:
  assumes inv: "sys_inv nr sy"
  shows "sys_after ob bad nr (sys_after ob bad nr sy) = sys_after ob bad nr sy"
proof -
  let ?sy = "sys_after ob bad nr sy"
  have inv': "sys_inv nr ?sy" by (rule sys_after_inv [OF inv])
  note facts = sys_after_fields [OF inv] slots_stable [OF inv] sys_after_ready
  have lens: "nr = length (sy_baseline ?sy)" "nr = length (sy_baseline_captured ?sy)"
    "nr = length (sy_redirect_bitmap ?sy)" "nr = length (sy_hooked_bitmap ?sy)" using inv' by (simp_all add: sys_inv_def)
  have "upd_upto nr (slot_baseline ob ?sy) (sy_baseline ?sy) = sy_baseline ?sy"
    by (rule upd_upto_same [OF lens(1)]) (simp add: facts)
  moreover have "upd_upto nr (\<lambda>i. sy_baseline_captured ?sy ! i \<or> (sy_baseline_ready ?sy \<and> ob i \<noteq> None)) (sy_baseline_captured ?sy)
      = sy_baseline_captured ?sy"
    by (rule upd_upto_same [OF lens(2)]) (auto simp: facts)
  moreover have "upd_upto nr (\<lambda>i. if sy_baseline_ready ?sy \<and> ob i \<noteq> None then slot_redirected ob bad ?sy i
      else sy_redirect_bitmap ?sy ! i) (sy_redirect_bitmap ?sy) = sy_redirect_bitmap ?sy"
    by (rule upd_upto_same [OF lens(3)]) (auto simp: facts)
  moreover have "upd_upto nr (\<lambda>i. if slot_nonnull ob i then slot_hooked ob bad i else sy_hooked_bitmap ?sy ! i)
      (sy_hooked_bitmap ?sy) = sy_hooked_bitmap ?sy"
    by (rule upd_upto_same [OF lens(4)]) (auto simp: facts)
  moreover have "sy_baseline_ready ?sy \<Longrightarrow> sy_baseline_hex ?sy = ac_sha256_hex_digest (sha256_spec (bytes_of_longs (sy_baseline ?sy)))"
    using inv' by (simp add: sys_inv_def)
  ultimately have "sys_after ob bad nr ?sy = ?sy\<lparr>sy_baseline := sy_baseline ?sy, sy_baseline_hex := sy_baseline_hex ?sy,
      sy_baseline_captured := sy_baseline_captured ?sy, sy_redirect_bitmap := sy_redirect_bitmap ?sy,
      sy_hooked_bitmap := sy_hooked_bitmap ?sy\<rparr>"
    by (simp add: sys_after_def [of ob bad nr ?sy] Let_def)
  then show ?thesis by simp
qed

text \<open>Rising edge.  Repeating the check while memory and module list stay as they are returns the
  same reply, keeps the state and emits no further event: a persistent hook or redirect is reported once.\<close>

theorem ac_check_syscalls_reports_once:
  assumes inv: "sys_inv (k_NR_syscalls k) sy" and c0: "length (ctx_buf c0) = 64"
    and first: "ac_check_syscalls k alloc tx c0 sy rg = Some (r, out, sy', rg')"
  shows "ac_check_syscalls k alloc tx c0 sy' rg' = Some (r, out, sy', rg')"
proof (cases "sy_table sy = 0")
  case True
  with first show ?thesis by (auto simp: ac_check_syscalls_def)
next
  case base: False
  let ?ob = "check_reads k sy" and ?bad = "check_bad k alloc tx" and ?nr = "k_NR_syscalls k"
  have res: "sy' = sys_after ?ob ?bad ?nr sy" "rg' = ring_after ?ob ?bad ?nr sy rg"
    using first by (simp_all add: ac_check_syscalls_eq [OF inv base c0])
  have inv': "sys_inv ?nr sy'" using sys_after_inv [OF inv] by (simp add: res)
  have keep: "sy_table sy' = sy_table sy" "sy_baseline_ready sy' = sy_baseline_ready sy"
    by (simp_all add: res sys_after_def Let_def)
  have ob: "check_reads k sy' = ?ob" by (simp add: check_reads_def keep fun_eq_iff)
  note same = slots_stable [OF inv, of _ ?ob ?bad, folded res(1)]
  have mp: "map (slot_baseline ?ob sy') [0..<?nr] = map (slot_baseline ?ob sy) [0..<?nr]"
    "map (slot_hashed ?ob sy') [0..<?nr] = map (slot_hashed ?ob sy) [0..<?nr]"
    "concat (map (slot_events ?ob ?bad sy') [0..<?nr]) = []"
    "filter (slot_redirected ?ob ?bad sy') [0..<?nr] = filter (slot_redirected ?ob ?bad sy) [0..<?nr]"
    using same by (auto intro: filter_cong)
  have dig: "live_digest k sy' = live_digest k sy" "base_digest k sy' = base_digest k sy"
    unfolding live_digest_def base_digest_def ob mp by simp_all
  have b': "sy_table sy' \<noteq> 0" using base by (simp add: keep)
  have all: "(\<forall>i < ?nr. \<not> slot_hooked ?ob ?bad i \<and> \<not> slot_redirected ?ob ?bad sy' i) \<longleftrightarrow>
      (\<forall>i < ?nr. \<not> slot_hooked ?ob ?bad i \<and> \<not> slot_redirected ?ob ?bad sy i)" using same(3) by auto
  have sys: "sys_after ?ob ?bad ?nr sy' = sy'" using sys_after_idem [OF inv] by (simp add: res)
  from first show ?thesis
    unfolding ac_check_syscalls_eq [OF inv base c0] ac_check_syscalls_eq [OF inv' b' c0]
    by (simp only: ob sys dig all keep ring_after_def mp out_after_def) (simp add: res(2) ring_after_def)
qed

subsection \<open>A concrete table\<close>

definition demo_kernel3 :: ac_kernel where
  "demo_kernel3 = demo_kernel\<lparr>k_NR_syscalls := 3\<rparr>"

text \<open>Baseline of three slots, the last of which could not be read at load; \<open>b\<close> is the address recorded for slot 1.\<close>

definition demo_sys :: "u64 \<Rightarrow> ac_sys_state" where
  "demo_sys b = \<lparr>sy_table = 0xffffffff82000000, sy_hooked_bitmap = [False, False, False],
     sy_baseline = [0xffffffff81000000, b, 0],
     sy_baseline_hex = ac_sha256_hex_digest (sha256_spec (bytes_of_longs [0xffffffff81000000, b, 0])),
     sy_baseline_ready = True, sy_redirect_bitmap = [False, False, False],
     sy_baseline_captured = [True, True, False]\<rparr>"

lemma demo_sys_inv: "sys_inv (k_NR_syscalls demo_kernel3) (demo_sys b)" "sy_table (demo_sys b) \<noteq> 0"
  "length (ctx_buf sha_ctx0) = 64"
  by (auto simp: sys_inv_def demo_kernel3_def demo_sys_def sha_ctx0_def less_Suc_eq numeral_3_eq_3)

lemma demo_reads: "i < 3 \<Longrightarrow> check_reads demo_kernel3 (demo_sys b) i = Some (0xffffffff81000000 + of_nat (16 * i))"
  by (auto simp: check_reads_def demo_kernel3_def demo_kernel_def demo_sys_def slot_addr_def less_Suc_eq numeral_3_eq_3)

lemma demo_ranges: "ac_snapshot_mod_ranges demo_kernel3 True = Some [
    \<lparr>mr_start = 0xffffffffc0001000, mr_end = 0xffffffffc0003000\<rparr>, \<lparr>mr_start = 0xffffffffc0008000, mr_end = 0xffffffffc0009000\<rparr>,
    \<lparr>mr_start = 0xffffffffc0101000, mr_end = 0xffffffffc0103000\<rparr>, \<lparr>mr_start = 0xffffffffc0108000, mr_end = 0xffffffffc0109000\<rparr>]"
  by (simp add: ac_snapshot_mod_ranges_eq all_ranges_def type_ranges_def demo_kernel3_def demo_kernel_def
      demo_module_def ac_module_sane_def AC_MAX_MODS_def)

lemma demo_good: "\<not> ac_entry_bad_snapshot demo_kernel3 demo_text 0xffffffff81000000 (ac_snapshot_mod_ranges demo_kernel3 True)"
  "\<not> ac_entry_bad_snapshot demo_kernel3 demo_text 0xffffffff81000010 (ac_snapshot_mod_ranges demo_kernel3 True)"
  "\<not> ac_entry_bad_snapshot demo_kernel3 demo_text 0xffffffff81000020 (ac_snapshot_mod_ranges demo_kernel3 True)"
  unfolding demo_ranges by (simp_all add: ac_entry_bad_snapshot_def ac_in_core_text_snapshot_def demo_text_def)

theorem ac_capture_syscall_baseline_correct_witness:
  "\<exists>sy. ac_capture_syscall_baseline demo_kernel3 sha_ctx0 (sys_boot 3 0xffffffff82000000) = Some sy \<and>
     sys_inv 3 sy \<and> sy_baseline sy ! 2 = 0xffffffff81000020"
proof -
  have nr: "k_NR_syscalls demo_kernel3 = 3" by (simp add: demo_kernel3_def)
  have r: "k_read8 demo_kernel3 (slot_addr 0xffffffff82000000 2) = Some 0xffffffff81000020"
    by (simp add: demo_kernel3_def demo_kernel_def slot_addr_def)
  show ?thesis
    using ac_capture_syscall_baseline_correct [of "0xffffffff82000000" sha_ctx0 demo_kernel3] demo_sys_inv(3) r by (auto simp: nr)
qed

theorem ac_check_syscalls_no_false_alarm_witness:
  "\<exists>out sy'. ac_check_syscalls demo_kernel3 True demo_text sha_ctx0 (demo_sys 0xffffffff81000010) (ring_init of_nat) =
     Some (0, out, sy', ring_init of_nat) \<and> sc_ok out = 1"
proof -
  have "(e = 0 \<or> \<not> ac_entry_bad_snapshot demo_kernel3 demo_text e (ac_snapshot_mod_ranges demo_kernel3 True)) \<and>
      (sy_baseline_captured (demo_sys 0xffffffff81000010) ! i \<longrightarrow> e = sy_baseline (demo_sys 0xffffffff81000010) ! i)"
    if "i < k_NR_syscalls demo_kernel3" "check_reads demo_kernel3 (demo_sys 0xffffffff81000010) i = Some e" for i e
  proof -
    have i: "i = 0 \<or> i = 1 \<or> i = 2" using that(1) by (auto simp: demo_kernel3_def)
    then have e: "e = 0xffffffff81000000 + of_nat (16 * i)" using that(2) demo_reads [of i] by auto
    have "e = 0xffffffff81000000 \<or> e = 0xffffffff81000010 \<or> e = 0xffffffff81000020" using i by (auto simp: e)
    then have "\<not> ac_entry_bad_snapshot demo_kernel3 demo_text e (ac_snapshot_mod_ranges demo_kernel3 True)"
      by (elim disjE) (simp_all add: demo_good)
    then show ?thesis using i by (auto simp: e demo_sys_def)
  qed
  from ac_check_syscalls_no_false_alarm [OF demo_sys_inv this] show ?thesis by blast
qed

theorem ac_check_syscalls_detects_witness:
  "\<exists>out sy' rg'. ac_check_syscalls demo_kernel3 True demo_text sha_ctx0 (demo_sys 0xffffffff81000770) (ring_init of_nat) =
     Some (0, out, sy', rg') \<and> sc_ok out = 0 \<and> 0 < sc_hooked out + sc_redirected out"
  using ac_check_syscalls_detects [OF demo_sys_inv(1) [of "0xffffffff81000770"] demo_sys_inv(2-3), where i = 1 and e = "0xffffffff81000010"
      and alloc = True and tx = demo_text and rg = "ring_init of_nat", OF _ _ _ _ _ refl refl]
    demo_reads [of 1 "0xffffffff81000770"] by (auto simp: demo_sys_def demo_kernel3_def)

theorem ac_check_syscalls_reports_once_witness:
  "\<exists>out sy' rg'. ac_check_syscalls demo_kernel3 True demo_text sha_ctx0 (demo_sys 0xffffffff81000770) (ring_init of_nat) = Some (0, out, sy', rg') \<and>
     ac_check_syscalls demo_kernel3 True demo_text sha_ctx0 sy' rg' = Some (0, out, sy', rg')"
  using ac_check_syscalls_reports_once [OF demo_sys_inv(1) demo_sys_inv(3)
      ac_check_syscalls_eq [OF demo_sys_inv(1) [of "0xffffffff81000770"] demo_sys_inv(2-3), where alloc = True and tx = demo_text
      and rg = "ring_init of_nat"]]
    ac_check_syscalls_eq [OF demo_sys_inv(1) [of "0xffffffff81000770"] demo_sys_inv(2-3), where alloc = True and tx = demo_text
      and rg = "ring_init of_nat"] by blast

end
