(* ===== verification/AC_Registry.thy ===== *)
theory AC_Registry
  imports AC_Ring
begin

text \<open>
  The registry of protected address spaces in \<^verbatim>\<open>src/src/anticheat_module.c\<close>: the slot table
  \<^verbatim>\<open>ac_prots\<close>, registration and removal through the kernel's mmu notifiers, the release callback and
  its deferred worker, and the queries.  Every critical section of \<^verbatim>\<open>ac_prot_lock\<close> is a definition of
  its own, so that AC_Registry_Steps can interleave them; the functions of the C code compose them in
  order.  The lemmas here are about calls that run without interference: the registry then refines a
  finite map from address spaces to what is recorded about them.

  An \<^verbatim>\<open>mm_struct\<close> pointer is a 64-bit word; \<^verbatim>\<open>NULL\<close> is 0 and \<^verbatim>\<open>AC_PROT_RESERVED\<close> is 1.
\<close>

subsection \<open>State\<close>

type_synonym mm_ptr = u64

definition AC_PROT_MAX :: nat where "AC_PROT_MAX = 64"
definition AC_PROT_RESERVED :: mm_ptr where "AC_PROT_RESERVED = 1"

definition real_mm :: "mm_ptr \<Rightarrow> bool" where
  "real_mm mm \<longleftrightarrow> mm \<noteq> 0 \<and> mm \<noteq> AC_PROT_RESERVED"

record ac_prot_entry =
  pe_mm :: mm_ptr
  pe_pid :: pid_t
  pe_jit_allowed :: bool
  pe_removing :: bool
  pe_claiming :: mm_ptr
  pe_cancel :: bool
  pe_release_mm :: mm_ptr
  pe_comm :: string

text \<open>\<open>pr_release_q\<close> holds the slots whose \<^verbatim>\<open>release_work\<close> is queued on \<^verbatim>\<open>ac_wq\<close>.\<close>

record ac_reg =
  pr_slots :: "ac_prot_entry list"
  pr_count :: u32
  pr_ring :: ac_ring_state
  pr_release_q :: "nat list"

text \<open>The state at load: an all-zero table.\<close>

definition free_entry :: ac_prot_entry where
  "free_entry = \<lparr>pe_mm = 0, pe_pid = 0, pe_jit_allowed = False, pe_removing = False, pe_claiming = 0,
     pe_cancel = False, pe_release_mm = 0, pe_comm = []\<rparr>"

definition reg_init :: "ac_ring_state \<Rightarrow> ac_reg" where
  "reg_init rg = \<lparr>pr_slots = replicate AC_PROT_MAX free_entry, pr_count = 0, pr_ring = rg, pr_release_q = []\<rparr>"

text \<open>
  The kernel's mmu notifier calls, given the slot whose notifier is meant.  They sleep, so the module's
  state may change while they run; \<^verbatim>\<open>mmu_notifier_unregister\<close> calls \<^verbatim>\<open>->release\<close>.
\<close>

record 's mmu_ops =
  mk_register :: "nat \<Rightarrow> mm_ptr \<Rightarrow> 's \<Rightarrow> int \<times> 's"
  mk_unregister :: "nat \<Rightarrow> mm_ptr \<Rightarrow> 's \<Rightarrow> 's"

definition upd_slot :: "nat \<Rightarrow> (ac_prot_entry \<Rightarrow> ac_prot_entry) \<Rightarrow> 'a ac_reg_scheme \<Rightarrow> 'a ac_reg_scheme" where
  "upd_slot i f s = s\<lparr>pr_slots := (pr_slots s)[i := f (pr_slots s ! i)]\<rparr>"

subsection \<open>Lookup of tasks\<close>

text \<open>
  The kernel's task lookup: \<^verbatim>\<open>struct pid\<close> objects and pid namespaces are numbers.  \<open>tk_mm\<close> is what
  \<^verbatim>\<open>get_task_mm\<close> returns, 0 for a kernel thread or an exiting task.
\<close>

record ktask =
  tk_pid :: pid_t
  tk_tgid :: pid_t
  tk_comm :: string
  tk_mm :: mm_ptr
  tk_ns :: "nat option"

record ktasks =
  tq_find_get_pid :: "pid_t \<Rightarrow> nat option"
  tq_get_pid_task :: "nat \<Rightarrow> ktask option"
  tq_find_pid_ns :: "pid_t \<Rightarrow> nat \<Rightarrow> nat option"

definition ac_find_task :: "ktasks \<Rightarrow> pid_t \<Rightarrow> ktask option" where
  "ac_find_task q pid =
     (case tq_find_get_pid q pid of
        None \<Rightarrow> None
      | Some pidp \<Rightarrow> tq_get_pid_task q pidp)"

definition ac_find_task_in_ns_of :: "ktasks \<Rightarrow> pid_t \<Rightarrow> pid_t \<Rightarrow> ktask option" where
  "ac_find_task_in_ns_of q nr ref_pid =
     (case ac_find_task q ref_pid of
        None \<Rightarrow> None
      | Some ref_task \<Rightarrow>
          (case (case tk_ns ref_task of Some ns \<Rightarrow> tq_find_pid_ns q nr ns | None \<Rightarrow> None) of
             None \<Rightarrow> None
           | Some pidp \<Rightarrow> tq_get_pid_task q pidp))"

subsection \<open>The release callback\<close>

text \<open>\<^verbatim>\<open>ac_mmu_release\<close> for the notifier embedded in slot \<open>i\<close>.\<close>

definition ac_mmu_release :: "nat \<Rightarrow> mm_ptr \<Rightarrow> 'a ac_reg_scheme \<Rightarrow> 'a ac_reg_scheme" where
  "ac_mmu_release i mm s =
     (let e = pr_slots s ! i
      in if pe_mm e \<noteq> mm then s
         else
           (let caller_initiated = pe_removing e;
                s1 = (upd_slot i (\<lambda>e. e\<lparr>pe_mm := 0, pe_removing := True\<rparr>) s)\<lparr>pr_count := pr_count s - 1\<rparr>
            in if caller_initiated then s1
               else
                 (let s2 = s1\<lparr>pr_ring := ac_emit AC_EV_EXIT (pe_pid e) (Some (pe_comm e)) ''protected process exited'' (pr_ring s1)\<rparr>
                  in (upd_slot i (\<lambda>e. e\<lparr>pe_release_mm := mm\<rparr>) s2)\<lparr>pr_release_q := pr_release_q s2 @ [i]\<rparr>)))"

text \<open>The critical section at the end of \<^verbatim>\<open>ac_prot_release_worker\<close>, and the worker.\<close>

definition release_done :: "nat \<Rightarrow> 'a ac_reg_scheme \<Rightarrow> 'a ac_reg_scheme" where
  "release_done i s = upd_slot i (\<lambda>e. e\<lparr>pe_release_mm := 0, pe_removing := False\<rparr>) s"

definition ac_prot_release_worker :: "'a ac_reg_scheme mmu_ops \<Rightarrow> nat \<Rightarrow> 'a ac_reg_scheme \<Rightarrow> 'a ac_reg_scheme" where
  "ac_prot_release_worker mk i s =
     (let mm = pe_release_mm (pr_slots s ! i)
      in release_done i (mk_unregister mk i mm s))"

subsection \<open>Registration\<close>

text \<open>
  The scan of \<^verbatim>\<open>ac_add_prot_mm\<close>, from slot \<open>i\<close> on with the free slot found so far: the address space is
  already protected in a slot, a registration for it is in flight, a free slot can be claimed, or the table
  is full.
\<close>

datatype add_scan_result = Already nat | In_flight | Free_slot nat | No_slot

fun add_scan :: "mm_ptr \<Rightarrow> ac_prot_entry list \<Rightarrow> nat \<Rightarrow> nat option \<Rightarrow> add_scan_result" where
  "add_scan mm [] i slot = (case slot of Some j \<Rightarrow> Free_slot j | None \<Rightarrow> No_slot)"
| "add_scan mm (e # es) i slot =
     (if pe_mm e = mm \<and> \<not> pe_removing e then Already i
      else if pe_mm e = AC_PROT_RESERVED \<and> pe_claiming e = mm \<and> \<not> pe_cancel e then In_flight
      else add_scan mm es (i + 1) (if pe_mm e = 0 \<and> \<not> pe_removing e \<and> slot = None then Some i else slot))"

text \<open>The first critical section: \<open>Inl\<close> a return value, or \<open>Inr\<close> the slot claimed.\<close>

definition add_claim :: "mm_ptr \<Rightarrow> bool \<Rightarrow> 'a ac_reg_scheme \<Rightarrow> (int + nat) \<times> 'a ac_reg_scheme" where
  "add_claim mm jit_allowed s =
     (case add_scan mm (pr_slots s) 0 None of
        Already i \<Rightarrow> (Inl 0, upd_slot i (\<lambda>e. e\<lparr>pe_jit_allowed := jit_allowed\<rparr>) s)
      | In_flight \<Rightarrow> (Inl 0, s)
      | No_slot \<Rightarrow> (Inl (- ENOSPC), s)
      | Free_slot i \<Rightarrow>
          (Inr i, upd_slot i (\<lambda>e. e\<lparr>pe_mm := AC_PROT_RESERVED, pe_claiming := mm, pe_cancel := False\<rparr>) s))"

text \<open>
  The second one, after \<^verbatim>\<open>mmu_notifier_register\<close> returned \<open>ret\<close>: \<open>Some\<close> a return value, or \<open>None\<close>
  when the claim was cancelled and the notifier must be unregistered again.
\<close>

definition add_finish ::
  "nat \<Rightarrow> mm_ptr \<Rightarrow> pid_t \<Rightarrow> string \<Rightarrow> bool \<Rightarrow> int \<Rightarrow> 'a ac_reg_scheme \<Rightarrow> int option \<times> 'a ac_reg_scheme" where
  "add_finish i mm pid comm jit_allowed ret s =
     (let s1 = upd_slot i (\<lambda>e. e\<lparr>pe_claiming := 0\<rparr>) s
      in if ret \<noteq> 0 then (Some ret, upd_slot i (\<lambda>e. e\<lparr>pe_mm := 0, pe_cancel := False\<rparr>) s1)
         else if pe_cancel (pr_slots s1 ! i) then
           (None, upd_slot i (\<lambda>e. e\<lparr>pe_cancel := False, pe_mm := 0, pe_removing := True\<rparr>) s1)
         else
           (Some 0, (upd_slot i (\<lambda>e. e\<lparr>pe_mm := mm, pe_pid := pid, pe_jit_allowed := jit_allowed,
                                      pe_comm := strscpy AC_MAX_COMM comm\<rparr>) s1)\<lparr>pr_count := pr_count s1 + 1\<rparr>))"

text \<open>The critical section that ends a removal.\<close>

definition removing_done :: "nat \<Rightarrow> 'a ac_reg_scheme \<Rightarrow> 'a ac_reg_scheme" where
  "removing_done i s = upd_slot i (\<lambda>e. e\<lparr>pe_removing := False\<rparr>) s"

definition ac_add_prot_mm ::
  "'a ac_reg_scheme mmu_ops \<Rightarrow> mm_ptr \<Rightarrow> pid_t \<Rightarrow> string \<Rightarrow> bool \<Rightarrow> 'a ac_reg_scheme \<Rightarrow> int \<times> 'a ac_reg_scheme" where
  "ac_add_prot_mm mk mm pid comm jit_allowed s =
     (case add_claim mm jit_allowed s of
        (Inl ret, s1) \<Rightarrow> (ret, s1)
      | (Inr i, s1) \<Rightarrow>
          (case mk_register mk i mm s1 of (ret, s2) \<Rightarrow>
             (case add_finish i mm pid comm jit_allowed ret s2 of
                (Some r, s3) \<Rightarrow> (r, s3)
              | (None, s3) \<Rightarrow> (0, removing_done i (mk_unregister mk i mm s3)))))"

subsection \<open>Removal\<close>

text \<open>The first slot at or after \<open>i\<close> that holds a live entry for \<open>mm\<close>.\<close>

fun find_live :: "mm_ptr \<Rightarrow> ac_prot_entry list \<Rightarrow> nat \<Rightarrow> nat option" where
  "find_live mm [] i = None"
| "find_live mm (e # es) i = (if pe_mm e = mm \<and> \<not> pe_removing e then Some i else find_live mm es (i + 1))"

text \<open>The first critical section of \<^verbatim>\<open>ac_del_prot_mm\<close>: mark a live entry, or else cancel every claim.\<close>

definition del_mark :: "mm_ptr \<Rightarrow> 'a ac_reg_scheme \<Rightarrow> nat option \<times> 'a ac_reg_scheme" where
  "del_mark mm s =
     (case find_live mm (pr_slots s) 0 of
        Some i \<Rightarrow> (Some i, upd_slot i (\<lambda>e. e\<lparr>pe_removing := True\<rparr>) s)
      | None \<Rightarrow>
          (None, s\<lparr>pr_slots := map (\<lambda>e. if pe_mm e = AC_PROT_RESERVED \<and> pe_claiming e = mm
                                        then e\<lparr>pe_cancel := True\<rparr> else e) (pr_slots s)\<rparr>))"

definition ac_del_prot_mm :: "'a ac_reg_scheme mmu_ops \<Rightarrow> mm_ptr \<Rightarrow> 'a ac_reg_scheme \<Rightarrow> 'a ac_reg_scheme" where
  "ac_del_prot_mm mk mm s =
     (case del_mark mm s of
        (None, s1) \<Rightarrow> s1
      | (Some i, s1) \<Rightarrow> removing_done i (mk_unregister mk i mm s1))"

text \<open>One iteration of \<^verbatim>\<open>ac_clear_protected\<close>: its critical section, then the whole body.\<close>

definition clear_mark :: "nat \<Rightarrow> 'a ac_reg_scheme \<Rightarrow> mm_ptr \<times> 'a ac_reg_scheme" where
  "clear_mark i s =
     (let e = pr_slots s ! i
      in if pe_mm e \<noteq> 0 \<and> pe_mm e \<noteq> AC_PROT_RESERVED \<and> \<not> pe_removing e
         then (pe_mm e, upd_slot i (\<lambda>e. e\<lparr>pe_removing := True\<rparr>) s)
         else (0, s))"

definition clear_slot :: "'a ac_reg_scheme mmu_ops \<Rightarrow> 'a ac_reg_scheme \<Rightarrow> nat \<Rightarrow> 'a ac_reg_scheme" where
  "clear_slot mk s i =
     (case clear_mark i s of (mm, s1) \<Rightarrow>
        if mm = 0 then s1 else removing_done i (mk_unregister mk i mm s1))"

definition ac_clear_protected :: "'a ac_reg_scheme mmu_ops \<Rightarrow> 'a ac_reg_scheme \<Rightarrow> 'a ac_reg_scheme" where
  "ac_clear_protected mk s = foldl (clear_slot mk) s [0..<AC_PROT_MAX]"

subsection \<open>Queries\<close>

definition ac_prot_jit_allowed_mm :: "mm_ptr \<Rightarrow> 'a ac_reg_scheme \<Rightarrow> bool" where
  "ac_prot_jit_allowed_mm mm s =
     (case foldl (\<lambda>(found, jit) e. if pe_mm e = mm then (True, jit \<and> pe_jit_allowed e) else (found, jit))
             (False, True) (pr_slots s)
      of (found, jit) \<Rightarrow> found \<and> jit)"

fun some_slot_holds :: "mm_ptr \<Rightarrow> ac_prot_entry list \<Rightarrow> bool" where
  "some_slot_holds mm [] = False"
| "some_slot_holds mm (e # es) = (if pe_mm e = mm then True else some_slot_holds mm es)"

definition ac_is_protected_mm :: "mm_ptr \<Rightarrow> 'a ac_reg_scheme \<Rightarrow> bool" where
  "ac_is_protected_mm mm s = (if mm = 0 then False else some_slot_holds mm (pr_slots s))"

text \<open>\<^verbatim>\<open>ac_is_protected_current\<close> and \<^verbatim>\<open>ac_is_protected_task_mm\<close>, for a task as seen by the kernel.\<close>

definition ac_is_protected_current :: "ktask \<Rightarrow> 'a ac_reg_scheme \<Rightarrow> bool" where
  "ac_is_protected_current cur s = ac_is_protected_mm (tk_mm cur) s"

definition ac_is_protected_task_mm :: "ktask \<Rightarrow> 'a ac_reg_scheme \<Rightarrow> bool" where
  "ac_is_protected_task_mm t s = (if tk_mm t = 0 then False else ac_is_protected_mm (tk_mm t) s)"

definition ac_protected_count :: "'a ac_reg_scheme \<Rightarrow> u32" where
  "ac_protected_count s = pr_count s"

fun list_protected_loop :: "ac_prot_entry list \<Rightarrow> ac_prot_item list \<Rightarrow> ac_prot_item list" where
  "list_protected_loop [] acc = acc"
| "list_protected_loop (e # es) acc =
     (if length acc < AC_MAX_PROTS then
        (if pe_mm e = 0 \<or> pe_mm e = AC_PROT_RESERVED then list_protected_loop es acc
         else list_protected_loop es (acc @ [\<lparr>pt_pid = pe_pid e, pt_jit_allowed = pe_jit_allowed e,
                                              pt_comm = strscpy AC_MAX_COMM (pe_comm e)\<rparr>]))
      else acc)"

definition ac_list_protected :: "'a ac_reg_scheme \<Rightarrow> ac_prot_list" where
  "ac_list_protected s =
     (let items = list_protected_loop (pr_slots s) [] in \<lparr>pl_count = length items, pl_items = items\<rparr>)"

subsection \<open>Basic facts\<close>

lemma real_mm_simps [simp]: "\<not> real_mm 0" "\<not> real_mm AC_PROT_RESERVED" "AC_PROT_RESERVED \<noteq> 0" "0 \<noteq> AC_PROT_RESERVED"
  by (simp_all add: real_mm_def AC_PROT_RESERVED_def)

lemma real_mm_neq: "real_mm x \<Longrightarrow> x \<noteq> 0" "real_mm x \<Longrightarrow> x \<noteq> AC_PROT_RESERVED"
  by (auto simp: real_mm_def)

lemma pr_upd_slot [simp]:
  "pr_slots (upd_slot i f s) = (pr_slots s)[i := f (pr_slots s ! i)]"
  "pr_count (upd_slot i f s) = pr_count s" "pr_ring (upd_slot i f s) = pr_ring s"
  "pr_release_q (upd_slot i f s) = pr_release_q s"
  by (simp_all add: upd_slot_def)

text \<open>A live entry for \<open>mm\<close>: published and not being removed, or claimed and not cancelled.\<close>

definition live_for :: "mm_ptr \<Rightarrow> ac_prot_entry \<Rightarrow> bool" where
  "live_for mm e \<longleftrightarrow> pe_mm e = mm \<and> \<not> pe_removing e \<or>
     pe_mm e = AC_PROT_RESERVED \<and> pe_claiming e = mm \<and> \<not> pe_cancel e"

subsection \<open>The scans\<close>

lemma add_scan_Already:
  "add_scan mm es i slot = Already k \<Longrightarrow>
     i \<le> k \<and> k - i < length es \<and> pe_mm (es ! (k - i)) = mm \<and> \<not> pe_removing (es ! (k - i))"
proof (induction es arbitrary: i slot)
  case (Cons e es)
  show ?case
  proof (cases "pe_mm e = mm \<and> \<not> pe_removing e")
    case False
    with Cons.prems Cons.IH [of "i + 1"] show ?thesis
      by (fastforce split: if_splits simp: nth_Cons' Suc_le_eq)
  qed (use Cons.prems in auto)
qed (simp split: option.splits)

lemma add_scan_In_flight:
  "add_scan mm es i slot = In_flight \<Longrightarrow> \<exists>e \<in> set es. pe_mm e = AC_PROT_RESERVED \<and> pe_claiming e = mm \<and> \<not> pe_cancel e"
  by (induction es arbitrary: i slot) (auto split: if_splits option.splits)

lemma add_scan_Free:
  "add_scan mm es i slot = Free_slot k \<Longrightarrow> (\<forall>e \<in> set es. \<not> live_for mm e) \<and>
     (slot = Some k \<or> i \<le> k \<and> k - i < length es \<and> pe_mm (es ! (k - i)) = 0 \<and> \<not> pe_removing (es ! (k - i)))"
proof (induction es arbitrary: i slot)
  case (Cons e es)
  have nl: "\<not> live_for mm e" using Cons.prems by (auto simp: live_for_def split: if_splits)
  from Cons.prems have "add_scan mm es (i + 1) (if pe_mm e = 0 \<and> \<not> pe_removing e \<and> slot = None then Some i else slot) = Free_slot k"
    by (auto split: if_splits)
  from Cons.IH [OF this] nl show ?case
    by (auto simp: nth_Cons' Suc_le_eq split: if_splits)
qed (simp split: option.splits)

lemma add_scan_No_slot:
  "add_scan mm es i slot = No_slot \<Longrightarrow> slot = None \<and> (\<forall>e \<in> set es. \<not> live_for mm e \<and> (pe_mm e = 0 \<longrightarrow> pe_removing e))"
  by (induction es arbitrary: i slot) (fastforce simp: live_for_def split: if_splits option.splits)+

lemma find_live_Some:
  "find_live mm es i = Some k \<Longrightarrow>
     i \<le> k \<and> k - i < length es \<and> pe_mm (es ! (k - i)) = mm \<and> \<not> pe_removing (es ! (k - i))"
proof (induction es arbitrary: i)
  case (Cons e es)
  then show ?case by (fastforce split: if_splits simp: nth_Cons' Suc_le_eq)
qed simp

lemma find_live_None: "find_live mm es i = None \<longleftrightarrow> (\<forall>e \<in> set es. pe_mm e = mm \<longrightarrow> pe_removing e)"
  by (induction es arbitrary: i) auto

lemma some_slot_holds_iff: "some_slot_holds mm es \<longleftrightarrow> (\<exists>e \<in> set es. pe_mm e = mm)"
  by (induction es) auto

subsection \<open>Calls without interference refine a finite map\<close>

text \<open>
  What the code relies on of the notifier calls when no other call runs meanwhile: registering leaves the
  module's state alone, and unregistering runs \<^verbatim>\<open>->release\<close> (whose effect is void when it already ran).
\<close>

definition mmu_spec :: "'a ac_reg_scheme mmu_ops \<Rightarrow> bool" where
  "mmu_spec mk \<longleftrightarrow> (\<forall>i mm s. snd (mk_register mk i mm s) = s) \<and>
     (\<forall>i mm s. mk_unregister mk i mm s = ac_mmu_release i mm s)"

text \<open>Between calls no slot is claimed; an entry being removed is one whose release work is queued.\<close>

definition reg_wf :: "'a ac_reg_scheme \<Rightarrow> bool" where
  "reg_wf s \<longleftrightarrow> length (pr_slots s) = AC_PROT_MAX \<and>
     (\<forall>i < AC_PROT_MAX. pe_mm (pr_slots s ! i) \<noteq> AC_PROT_RESERVED \<and>
        (pe_removing (pr_slots s ! i) \<longrightarrow> pe_mm (pr_slots s ! i) = 0)) \<and>
     (\<forall>i < AC_PROT_MAX. \<forall>j < AC_PROT_MAX. real_mm (pe_mm (pr_slots s ! i)) \<longrightarrow>
        pe_mm (pr_slots s ! i) = pe_mm (pr_slots s ! j) \<longrightarrow> i = j)"

lemma reg_wfD:
  assumes "reg_wf s"
  shows "length (pr_slots s) = AC_PROT_MAX"
    and "i < AC_PROT_MAX \<Longrightarrow> pe_mm (pr_slots s ! i) \<noteq> AC_PROT_RESERVED"
    and "i < AC_PROT_MAX \<Longrightarrow> pe_removing (pr_slots s ! i) \<Longrightarrow> pe_mm (pr_slots s ! i) = 0"
    and "i < AC_PROT_MAX \<Longrightarrow> j < AC_PROT_MAX \<Longrightarrow> pe_mm (pr_slots s ! i) = mm \<Longrightarrow> pe_mm (pr_slots s ! j) = mm \<Longrightarrow>
      real_mm mm \<Longrightarrow> i = j"
proof -
  have *: "\<forall>i < AC_PROT_MAX. \<forall>j < AC_PROT_MAX. real_mm (pe_mm (pr_slots s ! i)) \<longrightarrow>
      pe_mm (pr_slots s ! i) = pe_mm (pr_slots s ! j) \<longrightarrow> i = j" using assms unfolding reg_wf_def by (elim conjE)
  show "i < AC_PROT_MAX \<Longrightarrow> j < AC_PROT_MAX \<Longrightarrow> pe_mm (pr_slots s ! i) = mm \<Longrightarrow> pe_mm (pr_slots s ! j) = mm \<Longrightarrow>
      real_mm mm \<Longrightarrow> i = j" by (rule * [rule_format]) simp_all
qed (use assms in \<open>simp_all add: reg_wf_def\<close>)

type_synonym prot_info = "pid_t \<times> string \<times> bool"

definition entry_info :: "ac_prot_entry \<Rightarrow> prot_info" where
  "entry_info e = (pe_pid e, pe_comm e, pe_jit_allowed e)"

text \<open>The abstraction: what is recorded about each protected address space.\<close>

definition reg_abs :: "'a ac_reg_scheme \<Rightarrow> mm_ptr \<Rightarrow> prot_info option" where
  "reg_abs s mm = (if real_mm mm then map_option entry_info (List.find (\<lambda>e. pe_mm e = mm) (pr_slots s)) else None)"

definition has_free_slot :: "'a ac_reg_scheme \<Rightarrow> bool" where
  "has_free_slot s \<longleftrightarrow> (\<exists>e \<in> set (pr_slots s). pe_mm e = 0 \<and> \<not> pe_removing e)"

lemma reg_abs_iff:
  assumes "reg_wf s"
  shows "reg_abs s mm = Some v \<longleftrightarrow>
    (\<exists>i < AC_PROT_MAX. pe_mm (pr_slots s ! i) = mm \<and> real_mm mm \<and> v = entry_info (pr_slots s ! i))"
proof -
  have "List.find (\<lambda>e. pe_mm e = mm) (pr_slots s) = Some e \<longleftrightarrow>
      (\<exists>i < AC_PROT_MAX. pe_mm (pr_slots s ! i) = mm \<and> e = pr_slots s ! i)" if "real_mm mm" for e
    using reg_wfD(4) [OF assms _ _ _ _ that] that
    by (auto simp: find_Some_iff reg_wfD(1) [OF assms]) (metis less_irrefl order.strict_trans)
  then show ?thesis by (auto simp: reg_abs_def)
qed

lemma option_eq_by_Some: "(\<And>v. a = Some v \<longleftrightarrow> b = Some v) \<Longrightarrow> a = b"
  by (cases a) (auto, cases b, auto)

text \<open>Changing one slot whose old and new address space are \<open>0\<close> or \<open>mm\<close> changes the map at \<open>mm\<close> only.\<close>

lemma reg_upd:
  assumes wf: "reg_wf s" and i: "i < AC_PROT_MAX" and s': "pr_slots s' = (pr_slots s)[i := e]"
    and old: "pe_mm (pr_slots s ! i) \<in> {0, mm}" and new: "pe_mm e \<in> {0, mm}" and mm: "real_mm mm"
    and rem: "pe_removing e \<Longrightarrow> pe_mm e = 0"
    and only: "\<And>j. j < AC_PROT_MAX \<Longrightarrow> pe_mm (pr_slots s ! j) = mm \<Longrightarrow> j = i"
  shows "reg_wf s'" and "reg_abs s' = (reg_abs s)(mm := if pe_mm e = mm then Some (entry_info e) else None)"
proof -
  note wfD = reg_wfD [OF wf]
  have at: "pr_slots s' ! i = e" "\<And>j. j \<noteq> i \<Longrightarrow> pr_slots s' ! j = pr_slots s ! j"
    using i by (simp_all add: s' wfD(1))
  have mm0: "mm \<noteq> 0" "mm \<noteq> AC_PROT_RESERVED" "0 \<noteq> mm" using mm by (auto simp: real_mm_def)
  have inj: "a = b" if "a < AC_PROT_MAX" "b < AC_PROT_MAX" "pe_mm (pr_slots s' ! a) = x" "pe_mm (pr_slots s' ! b) = x" "real_mm x" for a b x
  proof (cases "a = i \<or> b = i")
    case True
    then have "x = mm" using that new by (auto simp: at)
    then have "a \<noteq> i \<Longrightarrow> a = i" "b \<noteq> i \<Longrightarrow> b = i" using that by (auto simp: at intro: only)
    then show ?thesis by blast
  next
    case False
    with that wfD(4) [of a b x] show ?thesis by (simp add: at)
  qed
  have mem: "pe_mm (pr_slots s' ! a) \<noteq> AC_PROT_RESERVED" "pe_removing (pr_slots s' ! a) \<Longrightarrow> pe_mm (pr_slots s' ! a) = 0"
    if "a < AC_PROT_MAX" for a
    using that new rem mm0 wfD(2) [of a] wfD(3) [of a] by (cases "a = i"; auto simp: at)+
  show wf': "reg_wf s'"
    unfolding reg_wf_def
  proof (intro conjI allI impI)
    fix a b assume "a < AC_PROT_MAX" "b < AC_PROT_MAX" "real_mm (pe_mm (pr_slots s' ! a))"
      "pe_mm (pr_slots s' ! a) = pe_mm (pr_slots s' ! b)"
    then show "a = b" by (intro inj [of a b "pe_mm (pr_slots s' ! a)"]) simp_all
  next
    show "length (pr_slots s') = AC_PROT_MAX" by (simp add: s' wfD(1))
  qed (fact mem(1), fact mem(2))
  show "reg_abs s' = (reg_abs s)(mm := if pe_mm e = mm then Some (entry_info e) else None)"
  proof (intro ext option_eq_by_Some)
    fix x v
    show "reg_abs s' x = Some v \<longleftrightarrow> ((reg_abs s)(mm := if pe_mm e = mm then Some (entry_info e) else None)) x = Some v"
    proof (cases "x = mm")
      case True
      have "reg_abs s' mm = Some v \<longleftrightarrow> pe_mm e = mm \<and> v = entry_info e"
      proof -
        have "(pe_mm (pr_slots s' ! j) = mm \<and> v = entry_info (pr_slots s' ! j)) \<longleftrightarrow> j = i \<and> pe_mm e = mm \<and> v = entry_info e"
          if "j < AC_PROT_MAX" for j using only [OF that] by (cases "j = i") (auto simp: at)
        with i mm show ?thesis unfolding reg_abs_iff [OF wf'] by auto
      qed
      with True show ?thesis by auto
    next
      case False
      have "reg_abs s' x = Some v \<longleftrightarrow> reg_abs s x = Some v"
      proof -
        have "(pe_mm (pr_slots s' ! j) = x \<and> real_mm x \<and> v = entry_info (pr_slots s' ! j)) \<longleftrightarrow>
            (pe_mm (pr_slots s ! j) = x \<and> real_mm x \<and> v = entry_info (pr_slots s ! j))" if "j < AC_PROT_MAX" for j
          using old new False by (cases "j = i") (auto simp: at)
        then show ?thesis unfolding reg_abs_iff [OF wf'] reg_abs_iff [OF wf] by blast
      qed
      with False show ?thesis by simp
    qed
  qed
qed

lemma reg_abs_None_iff:
  assumes "reg_wf s" and "real_mm mm"
  shows "reg_abs s mm = None \<longleftrightarrow> (\<forall>i < AC_PROT_MAX. pe_mm (pr_slots s ! i) \<noteq> mm)"
  using reg_abs_iff [OF assms(1), of mm] assms(2) by (metis not_Some_eq)

lemma slots_all:
  assumes "reg_wf s"
  shows "(\<forall>e \<in> set (pr_slots s). P e) \<longleftrightarrow> (\<forall>i < AC_PROT_MAX. P (pr_slots s ! i))"
    and "(\<exists>e \<in> set (pr_slots s). P e) \<longleftrightarrow> (\<exists>i < AC_PROT_MAX. P (pr_slots s ! i))"
  using reg_wfD(1) [OF assms] by (auto simp: all_set_conv_all_nth set_conv_nth)

lemma ac_is_protected_mm_abs:
  assumes "reg_wf s"
  shows "ac_is_protected_mm mm s \<longleftrightarrow> reg_abs s mm \<noteq> None"
proof (cases "real_mm mm")
  case True
  then show ?thesis
    using reg_abs_None_iff [OF assms True] real_mm_neq(1) [OF True]
    by (simp add: ac_is_protected_mm_def some_slot_holds_iff slots_all [OF assms])
next
  case False
  then show ?thesis
    using reg_wfD(2) [OF assms]
    by (auto simp: ac_is_protected_mm_def some_slot_holds_iff slots_all [OF assms] real_mm_def reg_abs_def)
qed

lemma no_live_for:
  assumes "reg_wf s" and "real_mm mm" and "i < AC_PROT_MAX" and "\<not> live_for mm (pr_slots s ! i)"
  shows "pe_mm (pr_slots s ! i) \<noteq> mm"
  using assms(4) reg_wfD(3) [OF assms(1,3)] real_mm_neq(1) [OF assms(2)] by (auto simp: live_for_def)

text \<open>The effect of a registration in the two cases that change the table.\<close>

lemma add_already:
  assumes "reg_wf s" and "add_scan mm (pr_slots s) 0 None = Already i"
  shows "i < AC_PROT_MAX" and "pe_mm (pr_slots s ! i) = mm" and "\<not> pe_removing (pr_slots s ! i)"
    and "fst (ac_add_prot_mm mk mm pid comm jit s) = 0"
    and "pr_slots (snd (ac_add_prot_mm mk mm pid comm jit s)) = (pr_slots s)[i := (pr_slots s ! i)\<lparr>pe_jit_allowed := jit\<rparr>]"
  using add_scan_Already [OF assms(2)] reg_wfD(1) [OF assms(1)]
  by (simp_all add: ac_add_prot_mm_def add_claim_def assms(2))

definition claimed_reg :: "nat \<Rightarrow> mm_ptr \<Rightarrow> 'a ac_reg_scheme \<Rightarrow> 'a ac_reg_scheme" where
  "claimed_reg i mm s = upd_slot i (\<lambda>e. e\<lparr>pe_mm := AC_PROT_RESERVED, pe_claiming := mm, pe_cancel := False\<rparr>) s"

definition new_entry :: "mm_ptr \<Rightarrow> pid_t \<Rightarrow> string \<Rightarrow> bool \<Rightarrow> int \<Rightarrow> ac_prot_entry \<Rightarrow> ac_prot_entry" where
  "new_entry mm pid comm jit ret e =
     (if ret = 0 then e\<lparr>pe_mm := mm, pe_claiming := 0, pe_cancel := False, pe_pid := pid, pe_jit_allowed := jit,
        pe_comm := strscpy AC_MAX_COMM comm\<rparr> else e\<lparr>pe_mm := 0, pe_claiming := 0, pe_cancel := False\<rparr>)"

lemma add_finish_claimed:
  assumes "i < length (pr_slots s)"
  shows "fst (add_finish i mm pid comm jit ret (claimed_reg i mm s)) = Some ret"
    and "pr_slots (snd (add_finish i mm pid comm jit ret (claimed_reg i mm s))) =
      (pr_slots s)[i := new_entry mm pid comm jit ret (pr_slots s ! i)]"
  using assms by (cases "pr_slots s ! i"; simp add: add_finish_def claimed_reg_def new_entry_def Let_def)+

lemma add_free:
  assumes mk: "mmu_spec mk" and wf: "reg_wf s" and sc: "add_scan mm (pr_slots s) 0 None = Free_slot i"
  shows "i < AC_PROT_MAX" and "pe_mm (pr_slots s ! i) = 0" and "\<not> pe_removing (pr_slots s ! i)"
    and "\<forall>e \<in> set (pr_slots s). \<not> live_for mm e"
    and "fst (ac_add_prot_mm mk mm pid comm jit s) = fst (mk_register mk i mm (claimed_reg i mm s))"
    and "pr_slots (snd (ac_add_prot_mm mk mm pid comm jit s)) =
      (pr_slots s)[i := new_entry mm pid comm jit (fst (mk_register mk i mm (claimed_reg i mm s))) (pr_slots s ! i)]"
proof -
  show i: "i < AC_PROT_MAX" "pe_mm (pr_slots s ! i) = 0" "\<not> pe_removing (pr_slots s ! i)" "\<forall>e \<in> set (pr_slots s). \<not> live_for mm e"
    using add_scan_Free [OF sc] reg_wfD(1) [OF wf] by auto
  have "snd (mk_register mk i mm (claimed_reg i mm s)) = claimed_reg i mm s" using mk by (simp add: mmu_spec_def)
  then obtain ret where reg: "mk_register mk i mm (claimed_reg i mm s) = (ret, claimed_reg i mm s)" by (metis prod.collapse)
  have len: "i < length (pr_slots s)" using i(1) reg_wfD(1) [OF wf] by simp
  have "add_claim mm jit s = (Inr i, claimed_reg i mm s)" by (simp add: add_claim_def sc claimed_reg_def)
  then have eq: "ac_add_prot_mm mk mm pid comm jit s = (ret, snd (add_finish i mm pid comm jit ret (claimed_reg i mm s)))"
    using add_finish_claimed(1) [OF len, of mm pid comm jit ret] reg
    by (auto simp: ac_add_prot_mm_def split: prod.split option.split)
  show "fst (ac_add_prot_mm mk mm pid comm jit s) = fst (mk_register mk i mm (claimed_reg i mm s))"
    and "pr_slots (snd (ac_add_prot_mm mk mm pid comm jit s)) =
      (pr_slots s)[i := new_entry mm pid comm jit (fst (mk_register mk i mm (claimed_reg i mm s))) (pr_slots s ! i)]"
    by (simp_all add: eq reg add_finish_claimed(2) [OF len])
qed

text \<open>Registering without interference refines an update of the map.\<close>

lemma add_prot_mm_map:
  assumes mk: "mmu_spec mk" and wf: "reg_wf s" and mm: "real_mm mm"
    and call: "ac_add_prot_mm mk mm pid comm jit s = (r, s')"
  shows "reg_wf s' \<and>
    (case reg_abs s mm of
       Some (p, c, j) \<Rightarrow> r = 0 \<and> reg_abs s' = (reg_abs s)(mm \<mapsto> (p, c, jit))
     | None \<Rightarrow>
         if has_free_slot s
         then (\<exists>i s0. r = fst (mk_register mk i mm s0)) \<and>
              reg_abs s' = (if r = 0 then (reg_abs s)(mm \<mapsto> (pid, strscpy AC_MAX_COMM comm, jit)) else reg_abs s)
         else r = - ENOSPC \<and> s' = s)"
proof -
  note wfD = reg_wfD [OF wf]
  have rs: "r = fst (ac_add_prot_mm mk mm pid comm jit s)" "s' = snd (ac_add_prot_mm mk mm pid comm jit s)" using call by simp_all
  show ?thesis
  proof (cases "add_scan mm (pr_slots s) 0 None")
    case (Already i)
    note a = add_already(1-3) [OF wf Already] add_already(4,5) [OF wf Already, where mk = mk and pid = pid and comm = comm and jit = jit, folded rs]
    have only: "\<And>j. j < AC_PROT_MAX \<Longrightarrow> pe_mm (pr_slots s ! j) = mm \<Longrightarrow> j = i" by (rule wfD(4) [OF _ a(1) _ a(2) mm])
    have "reg_abs s mm = Some (entry_info (pr_slots s ! i))" using reg_abs_iff [OF wf] a mm by blast
    moreover have "reg_wf s'" by (rule reg_upd(1) [OF wf a(1) a(5) _ _ mm _ only]) (simp_all add: a(2,3))
    moreover have "reg_abs s' = (reg_abs s)(mm \<mapsto> entry_info ((pr_slots s ! i)\<lparr>pe_jit_allowed := jit\<rparr>))"
      by (rule trans [OF reg_upd(2) [OF wf a(1) a(5) _ _ mm _ only]]) (simp_all add: a(2,3))
    ultimately show ?thesis using a(4) by (simp add: entry_info_def)
  next
    case In_flight
    from add_scan_In_flight [OF this] obtain k where "k < AC_PROT_MAX" "pe_mm (pr_slots s ! k) = AC_PROT_RESERVED"
      unfolding slots_all [OF wf] by blast
    with wfD(2) show ?thesis by blast
  next
    case No_slot
    have "\<forall>i < AC_PROT_MAX. \<not> live_for mm (pr_slots s ! i) \<and> (pe_mm (pr_slots s ! i) = 0 \<longrightarrow> pe_removing (pr_slots s ! i))"
      using add_scan_No_slot [OF No_slot] unfolding slots_all [OF wf] by blast
    then have "reg_abs s mm = None" "\<not> has_free_slot s"
      using no_live_for [OF wf mm] unfolding reg_abs_None_iff [OF wf mm] has_free_slot_def slots_all [OF wf] by blast+
    moreover have "r = - ENOSPC" "s' = s" using call by (simp_all add: ac_add_prot_mm_def add_claim_def No_slot)
    ultimately show ?thesis using wf by simp
  next
    case (Free_slot i)
    note a = add_free(1-4) [OF mk wf Free_slot] add_free(5,6) [OF mk wf Free_slot, where pid = pid and comm = comm and jit = jit, folded rs]
    let ?e = "new_entry mm pid comm jit r (pr_slots s ! i)"
    have none: "\<forall>i < AC_PROT_MAX. pe_mm (pr_slots s ! i) \<noteq> mm"
      using a(4) no_live_for [OF wf mm] unfolding slots_all [OF wf] by blast
    have free: "has_free_slot s" using a(1-3) unfolding has_free_slot_def slots_all [OF wf] by blast
    have e: "pe_mm ?e = (if r = 0 then mm else 0)" "\<not> pe_removing ?e" using a(3) by (simp_all add: new_entry_def)
    have "reg_wf s'" "reg_abs s' = (reg_abs s)(mm := if pe_mm ?e = mm then Some (entry_info ?e) else None)"
      using reg_upd [OF wf a(1) a(6) [folded a(5)], of mm, OF _ _ mm] a(2) e none by auto
    moreover have "reg_abs s mm = None" using none by (simp add: reg_abs_None_iff [OF wf mm])
    ultimately show ?thesis
      using free a(5) real_mm_neq(1) [OF mm] by (auto simp: entry_info_def new_entry_def fun_upd_idem)
  qed
qed

lemma reg_wf_cong: "pr_slots s' = pr_slots s \<Longrightarrow> reg_wf s' \<longleftrightarrow> reg_wf s"
  unfolding reg_wf_def by (erule ssubst) (rule refl)

lemma unregister_marked:
  assumes "mmu_spec mk" and "i < length (pr_slots s)" and "pe_mm (pr_slots s ! i) = mm"
  shows "pr_slots (removing_done i (mk_unregister mk i mm (upd_slot i (\<lambda>e. e\<lparr>pe_removing := True\<rparr>) s))) =
    (pr_slots s)[i := (pr_slots s ! i)\<lparr>pe_mm := 0, pe_removing := False\<rparr>]"
  using assms by (cases "pr_slots s ! i") (simp add: mmu_spec_def ac_mmu_release_def removing_done_def Let_def)

text \<open>Removing an address space without interference deletes it from the map.\<close>

lemma del_prot_mm_map:
  assumes mk: "mmu_spec mk" and wf: "reg_wf s" and mm: "real_mm mm"
  shows "reg_wf (ac_del_prot_mm mk mm s) \<and> reg_abs (ac_del_prot_mm mk mm s) = (reg_abs s)(mm := None)"
proof -
  note wfD = reg_wfD [OF wf]
  show ?thesis
  proof (cases "find_live mm (pr_slots s) 0")
    case (Some i)
    have i: "i < AC_PROT_MAX" "pe_mm (pr_slots s ! i) = mm" using find_live_Some [OF Some] wfD(1) by auto
    have only: "\<And>j. j < AC_PROT_MAX \<Longrightarrow> pe_mm (pr_slots s ! j) = mm \<Longrightarrow> j = i" by (rule wfD(4) [OF _ i(1) _ i(2) mm])
    have sl: "pr_slots (ac_del_prot_mm mk mm s) = (pr_slots s)[i := (pr_slots s ! i)\<lparr>pe_mm := 0, pe_removing := False\<rparr>]"
      using unregister_marked [OF mk _ i(2)] i(1) wfD(1) by (simp add: ac_del_prot_mm_def del_mark_def Some)
    note u = reg_upd [OF wf i(1) sl _ _ mm _ only]
    have "reg_wf (ac_del_prot_mm mk mm s)" by (rule u(1)) (simp_all add: i(2))
    moreover have "reg_abs (ac_del_prot_mm mk mm s) = (reg_abs s)(mm := None)"
      by (rule trans [OF u(2)]) (simp_all add: i(2) real_mm_neq(1) [OF mm, symmetric])
    ultimately show ?thesis by blast
  next
    case None
    have "\<forall>i < AC_PROT_MAX. pe_mm (pr_slots s ! i) = mm \<longrightarrow> pe_removing (pr_slots s ! i)"
      using None unfolding find_live_None slots_all [OF wf] .
    then have none: "reg_abs s mm = None" using wfD(3) real_mm_neq(1) [OF mm] unfolding reg_abs_None_iff [OF wf mm] by blast
    have "map (\<lambda>e. if pe_mm e = AC_PROT_RESERVED \<and> pe_claiming e = mm then e\<lparr>pe_cancel := True\<rparr> else e) (pr_slots s) = pr_slots s"
      using wfD(1,2) by (auto intro!: nth_equalityI)
    then have "ac_del_prot_mm mk mm s = s" by (simp add: ac_del_prot_mm_def del_mark_def None)
    with none wf show ?thesis by (simp add: fun_upd_idem)
  qed
qed

text \<open>Clearing slot by slot.\<close>

lemma clear_slot_effect:
  assumes mk: "mmu_spec mk" and wf: "reg_wf s" and i: "i < AC_PROT_MAX"
  shows "pr_slots (clear_slot mk s i) =
    (if real_mm (pe_mm (pr_slots s ! i)) then (pr_slots s)[i := (pr_slots s ! i)\<lparr>pe_mm := 0, pe_removing := False\<rparr>] else pr_slots s)"
proof (cases "real_mm (pe_mm (pr_slots s ! i))")
  case True
  then have "\<not> pe_removing (pr_slots s ! i)" using reg_wfD(3) [OF wf i] by (auto simp: real_mm_def)
  with True show ?thesis
    using unregister_marked [OF mk, of i s] i reg_wfD(1) [OF wf] by (simp add: clear_slot_def clear_mark_def Let_def real_mm_def)
next
  case False
  then show ?thesis by (auto simp: clear_slot_def clear_mark_def Let_def real_mm_def)
qed

lemma clear_slot_wf:
  assumes mk: "mmu_spec mk" and wf: "reg_wf s" and i: "i < AC_PROT_MAX"
  shows "reg_wf (clear_slot mk s i)"
proof (cases "real_mm (pe_mm (pr_slots s ! i))")
  case True
  have only: "\<And>j. j < AC_PROT_MAX \<Longrightarrow> pe_mm (pr_slots s ! j) = pe_mm (pr_slots s ! i) \<Longrightarrow> j = i"
    by (rule reg_wfD(4) [OF wf _ i _ refl True])
  show ?thesis
    by (rule reg_upd(1) [OF wf i clear_slot_effect [OF mk wf i, unfolded if_P [OF True]] _ _ True _ only]) simp_all
next
  case False
  then have "pr_slots (clear_slot mk s i) = pr_slots s" using clear_slot_effect [OF mk wf i] by simp
  with wf show ?thesis by (blast dest: reg_wf_cong)
qed

lemma clear_prefix:
  assumes mk: "mmu_spec mk" and wf: "reg_wf s"
  shows "n \<le> AC_PROT_MAX \<Longrightarrow> reg_wf (foldl (clear_slot mk) s [0..<n]) \<and>
    (\<forall>i < n. \<not> real_mm (pe_mm (pr_slots (foldl (clear_slot mk) s [0..<n]) ! i)))"
proof (induction n)
  case (Suc n)
  let ?s = "foldl (clear_slot mk) s [0..<n]"
  have IH: "reg_wf ?s" "\<forall>i < n. \<not> real_mm (pe_mm (pr_slots ?s ! i))" and n: "n < AC_PROT_MAX" using Suc by auto
  have "\<not> real_mm (pe_mm (pr_slots (clear_slot mk ?s n) ! i))" if "i < Suc n" for i
    using that IH n clear_slot_effect [OF mk IH(1) n] reg_wfD(1) [OF IH(1)] by (cases "i = n") auto
  then show ?case using clear_slot_wf [OF mk IH(1) n] by simp
qed (simp add: wf)

text \<open>Clearing the registry without interference leaves nothing protected.\<close>

lemma clear_protected_map:
  assumes "mmu_spec mk" and "reg_wf s"
  shows "reg_wf (ac_clear_protected mk s) \<and> reg_abs (ac_clear_protected mk s) = Map.empty"
proof -
  have *: "reg_wf (ac_clear_protected mk s)" "\<forall>i < AC_PROT_MAX. \<not> real_mm (pe_mm (pr_slots (ac_clear_protected mk s) ! i))"
    using clear_prefix [OF assms, of AC_PROT_MAX] by (simp_all add: ac_clear_protected_def)
  have "reg_abs (ac_clear_protected mk s) mm = None" for mm
  proof (cases "real_mm mm")
    case True
    then show ?thesis using *(2) unfolding reg_abs_None_iff [OF *(1) True] by blast
  qed (simp add: reg_abs_def)
  with *(1) show ?thesis by auto
qed

subsection \<open>The contract its callers rely on\<close>

locale protection_registry =
  fixes ok :: "'k \<Rightarrow> bool" and wf :: "'s \<Rightarrow> bool" and key :: "'m \<Rightarrow> bool" and prot :: "'m \<Rightarrow> 's \<Rightarrow> bool"
    and add :: "'k \<Rightarrow> 'm \<Rightarrow> 'p \<Rightarrow> 'c \<Rightarrow> bool \<Rightarrow> 's \<Rightarrow> int \<times> 's" and del :: "'k \<Rightarrow> 'm \<Rightarrow> 's \<Rightarrow> 's"
  assumes add_wf: "ok k \<Longrightarrow> wf s \<Longrightarrow> key mm \<Longrightarrow> wf (snd (add k mm p c j s))"
    and add_prot: "ok k \<Longrightarrow> wf s \<Longrightarrow> key mm \<Longrightarrow>
      prot x (snd (add k mm p c j s)) \<longleftrightarrow> prot x s \<or> x = mm \<and> fst (add k mm p c j s) = 0"
    and del_wf: "ok k \<Longrightarrow> wf s \<Longrightarrow> key mm \<Longrightarrow> wf (del k mm s)"
    and del_prot: "ok k \<Longrightarrow> wf s \<Longrightarrow> key mm \<Longrightarrow> prot x (del k mm s) \<longleftrightarrow> prot x s \<and> x \<noteq> mm"
begin

lemma add_then_del:
  assumes "ok k" and "wf s" and "key mm" and "\<not> prot mm s"
  shows "prot x (del k mm (snd (add k mm p c j s))) \<longleftrightarrow> prot x s"
  using assms by (auto simp: del_prot add_wf add_prot)

lemma del_after_add_fails_closed:
  assumes "ok k" and "wf s" and "key new" and "key old" and "prot old s" and "old \<noteq> new"
    and "add k new p c j s = (r, s')"
  shows "prot old s'" and "r = 0 \<Longrightarrow> prot new (del k old s')"
  using assms add_prot [of k s new old p c j] add_prot [of k s new new p c j] add_wf [of k s new p c j]
  by (auto simp: del_prot)

end

interpretation preg: protection_registry mmu_spec reg_wf real_mm ac_is_protected_mm ac_add_prot_mm ac_del_prot_mm
proof (unfold_locales, goal_cases)
  case (1 k s mm p c j)
  then show ?case using add_prot_mm_map [of k s mm p c j] by (simp add: prod_eq_iff)
next
  case (2 k s mm x p c j)
  note m = add_prot_mm_map [OF 2, of p c j, OF prod.collapse [symmetric]]
  show ?case
    unfolding ac_is_protected_mm_abs [OF conjunct1 [OF m]] ac_is_protected_mm_abs [OF 2(2)]
    using m by (auto split: option.splits if_splits simp: ENOSPC_def)
next
  case (3 k s mm)
  then show ?case by (simp add: del_prot_mm_map)
next
  case (4 k s mm x)
  then show ?case
    using del_prot_mm_map [OF 4] by (simp add: ac_is_protected_mm_abs)
qed

text \<open>C22: Registering without interference refines an update of the map from protected address spaces to what is
  recorded about them: a protected address space only gets its new JIT flag; a new one is added when a slot is
  free and the notifier registers, with the error of the notifier otherwise and \<^verbatim>\<open>-ENOSPC\<close> when the table is
  full; every other entry is untouched.\<close>

theorem ac_add_prot_mm_refines:
  assumes "mmu_spec mk" and "reg_wf s" and "real_mm mm"
    and "ac_add_prot_mm mk mm pid comm jit s = (r, s')"
  shows "reg_wf s' \<and>
    (case reg_abs s mm of
       Some (p, c, j) \<Rightarrow> r = 0 \<and> reg_abs s' = (reg_abs s)(mm \<mapsto> (p, c, jit))
     | None \<Rightarrow>
         if has_free_slot s
         then (\<exists>i s0. r = fst (mk_register mk i mm s0)) \<and>
              reg_abs s' = (if r = 0 then (reg_abs s)(mm \<mapsto> (pid, strscpy AC_MAX_COMM comm, jit)) else reg_abs s)
         else r = - ENOSPC \<and> s' = s)"
  by (rule add_prot_mm_map [OF assms])

text \<open>A notifier interface that always succeeds, and an empty registry.\<close>

definition demo_mk :: "'a ac_reg_scheme mmu_ops" where
  "demo_mk = \<lparr>mk_register = (\<lambda>i mm s. (0, s)), mk_unregister = ac_mmu_release\<rparr>"

lemma demo_mk_spec: "mmu_spec demo_mk"
  by (simp add: demo_mk_def mmu_spec_def)

definition empty_reg :: ac_reg where
  "empty_reg = reg_init (ring_init of_nat)"

lemma empty_reg_wf: "reg_wf empty_reg"
  by (simp add: reg_wf_def empty_reg_def reg_init_def free_entry_def)

lemma empty_reg_abs: "reg_abs empty_reg = Map.empty"
  by (auto simp: reg_abs_def empty_reg_def reg_init_def free_entry_def real_mm_def find_None_iff)

theorem ac_add_prot_mm_refines_witness:
  "\<exists>s'. ac_add_prot_mm demo_mk 4096 7 ''game'' True empty_reg = (0, s') \<and>
     reg_abs s' = [4096 \<mapsto> (7, ''game'', True)]"
proof -
  obtain r s' where c: "ac_add_prot_mm demo_mk 4096 7 ''game'' True empty_reg = (r, s')" by (rule prod.exhaust)
  have mm: "real_mm 4096" by (simp add: real_mm_def AC_PROT_RESERVED_def)
  have free: "has_free_slot empty_reg" by (simp add: has_free_slot_def empty_reg_def reg_init_def free_entry_def AC_PROT_MAX_def)
  have sc: "strscpy AC_MAX_COMM ''game'' = ''game''" by code_simp
  show ?thesis
    using ac_add_prot_mm_refines [OF demo_mk_spec empty_reg_wf mm c] free c
    by (auto simp: empty_reg_abs demo_mk_def sc)
qed

text \<open>C23: Registering an unprotected address space and removing it again leaves the same address spaces
  protected, also when the registration failed; and clearing leaves none.\<close>

theorem ac_add_del_roundtrip:
  assumes "mmu_spec mk" and "reg_wf s" and "real_mm mm" and "\<not> ac_is_protected_mm mm s"
  shows "(ac_is_protected_mm x (ac_del_prot_mm mk mm (snd (ac_add_prot_mm mk mm pid comm jit s))) \<longleftrightarrow> ac_is_protected_mm x s) \<and>
    \<not> ac_is_protected_mm x (ac_clear_protected mk s)"
  using preg.add_then_del [OF assms] clear_protected_map [OF assms(1,2)] by (simp add: ac_is_protected_mm_abs)

theorem ac_add_del_roundtrip_witness:
  "\<not> ac_is_protected_mm 4096 (ac_del_prot_mm demo_mk 4096 (snd (ac_add_prot_mm demo_mk 4096 7 ''game'' True empty_reg)))"
proof -
  have mm: "real_mm 4096" by (simp add: real_mm_def AC_PROT_RESERVED_def)
  have "\<not> ac_is_protected_mm 4096 empty_reg" by (simp add: ac_is_protected_mm_abs [OF empty_reg_wf] empty_reg_abs)
  with ac_add_del_roundtrip [OF demo_mk_spec empty_reg_wf mm this, of 4096 7 "''game''" True] show ?thesis by simp
qed

end
