(* ===== verification/AC_Registry_Steps.thy ===== *)
theory AC_Registry_Steps
  imports AC_Registry "HOL-Library.Multiset"
begin

text \<open>
  The protected-process registry under concurrency.  The critical sections of AC_Registry are the atomic
  steps of a transition system whose state also has the calls in flight between two critical sections and
  the kernel's view of the notifier embedded in each slot.  Calls of \<^verbatim>\<open>ac_add_prot_mm\<close>,
  \<^verbatim>\<open>ac_del_prot_mm\<close>, \<^verbatim>\<open>ac_clear_protected\<close>, the release callback and its worker interleave freely.
  The invariant, proved by rule induction, gives the guarantees the comments of the source claim: a slot's
  notifier is never registered while it is still registered, every slot has at most one teardown in flight,
  the counter is exact, an address space has at most one live entry, and no removal is lost.
\<close>

subsection \<open>Calls in flight and kernel state\<close>

text \<open>
  \<open>Op_add\<close>: claimed, before \<^verbatim>\<open>mmu_notifier_register\<close> returns; \<open>Op_registered\<close>: it succeeded, before the
  second critical section; \<open>Op_unregister\<close>: before \<^verbatim>\<open>mmu_notifier_unregister\<close> has run; \<open>Op_removing\<close>:
  after it; \<open>Op_rel\<close> and \<open>Op_rel_done\<close>: the same two stages of the release worker; \<open>Op_queued\<close>: its work item
  is still queued.
\<close>

datatype reg_op =
    Op_add nat mm_ptr pid_t string bool
  | Op_registered nat mm_ptr pid_t string bool
  | Op_unregister nat mm_ptr
  | Op_removing nat
  | Op_queued nat
  | Op_rel nat mm_ptr
  | Op_rel_done nat

fun op_slot :: "reg_op \<Rightarrow> nat" where
  "op_slot (Op_add i _ _ _ _) = i"
| "op_slot (Op_registered i _ _ _ _) = i"
| "op_slot (Op_unregister i _) = i"
| "op_slot (Op_removing i) = i"
| "op_slot (Op_queued i) = i"
| "op_slot (Op_rel i _) = i"
| "op_slot (Op_rel_done i) = i"

text \<open>Whether the call holds a reference that keeps the address space from exiting.\<close>

fun op_pins :: "mm_ptr \<Rightarrow> reg_op \<Rightarrow> bool" where
  "op_pins mm (Op_add _ x _ _ _) = (x = mm)"
| "op_pins mm (Op_registered _ x _ _ _) = (x = mm)"
| "op_pins mm _ = False"

text \<open>
  \<open>c_note i\<close> is the kernel's state of the notifier in slot \<open>i\<close>: the address space it is registered with and
  whether its \<^verbatim>\<open>->release\<close> has still to run.
\<close>

record cstate =
  c_reg :: ac_reg
  c_ops :: "reg_op multiset"
  c_note :: "nat \<Rightarrow> (mm_ptr \<times> bool) option"

text \<open>\<^verbatim>\<open>mmu_notifier_unregister\<close>: run \<^verbatim>\<open>->release\<close> if it has not run yet.\<close>

definition unregister_reg :: "nat \<Rightarrow> mm_ptr \<Rightarrow> cstate \<Rightarrow> ac_reg" where
  "unregister_reg i mm C =
     (case c_note C i of Some (_, True) \<Rightarrow> ac_mmu_release i mm (c_reg C) | _ \<Rightarrow> c_reg C)"

subsection \<open>The step relation\<close>

inductive reg_step :: "cstate \<Rightarrow> cstate \<Rightarrow> bool" where
  add_returns: "real_mm mm \<Longrightarrow> add_claim mm jit (c_reg C) = (Inl r, s) \<Longrightarrow> reg_step C (C\<lparr>c_reg := s\<rparr>)"
| add_claims: "real_mm mm \<Longrightarrow> add_claim mm jit (c_reg C) = (Inr i, s) \<Longrightarrow>
    reg_step C (C\<lparr>c_reg := s, c_ops := add_mset (Op_add i mm pid comm jit) (c_ops C)\<rparr>)"
| register_fails: "Op_add i mm pid comm jit \<in># c_ops C \<Longrightarrow> ret \<noteq> 0 \<Longrightarrow>
    add_finish i mm pid comm jit ret (c_reg C) = (r, s) \<Longrightarrow>
    reg_step C (C\<lparr>c_reg := s, c_ops := c_ops C - {#Op_add i mm pid comm jit#}\<rparr>)"
| register_succeeds: "Op_add i mm pid comm jit \<in># c_ops C \<Longrightarrow>
    reg_step C (C\<lparr>c_ops := add_mset (Op_registered i mm pid comm jit) (c_ops C - {#Op_add i mm pid comm jit#}),
                  c_note := (c_note C)(i \<mapsto> (mm, True))\<rparr>)"
| finish_publishes: "Op_registered i mm pid comm jit \<in># c_ops C \<Longrightarrow>
    add_finish i mm pid comm jit 0 (c_reg C) = (Some r, s) \<Longrightarrow>
    reg_step C (C\<lparr>c_reg := s, c_ops := c_ops C - {#Op_registered i mm pid comm jit#}\<rparr>)"
| finish_cancels: "Op_registered i mm pid comm jit \<in># c_ops C \<Longrightarrow>
    add_finish i mm pid comm jit 0 (c_reg C) = (None, s) \<Longrightarrow>
    reg_step C (C\<lparr>c_reg := s, c_ops := add_mset (Op_unregister i mm) (c_ops C - {#Op_registered i mm pid comm jit#})\<rparr>)"
| del_marks: "real_mm mm \<Longrightarrow> del_mark mm (c_reg C) = (Some i, s) \<Longrightarrow>
    reg_step C (C\<lparr>c_reg := s, c_ops := add_mset (Op_unregister i mm) (c_ops C)\<rparr>)"
| del_cancels: "real_mm mm \<Longrightarrow> del_mark mm (c_reg C) = (None, s) \<Longrightarrow> reg_step C (C\<lparr>c_reg := s\<rparr>)"
| clear_marks: "i < AC_PROT_MAX \<Longrightarrow> clear_mark i (c_reg C) = (mm, s) \<Longrightarrow> mm \<noteq> 0 \<Longrightarrow>
    reg_step C (C\<lparr>c_reg := s, c_ops := add_mset (Op_unregister i mm) (c_ops C)\<rparr>)"
| mm_exits: "c_note C i = Some (mm, True) \<Longrightarrow> (\<forall>op \<in># c_ops C. \<not> op_pins mm op) \<Longrightarrow>
    reg_step C (C\<lparr>c_reg := ac_mmu_release i mm (c_reg C), c_note := (c_note C)(i \<mapsto> (mm, False))\<rparr>)"
| unregisters: "Op_unregister i mm \<in># c_ops C \<Longrightarrow>
    reg_step C (C\<lparr>c_reg := unregister_reg i mm C, c_note := (c_note C)(i := None),
                  c_ops := add_mset (Op_removing i) (c_ops C - {#Op_unregister i mm#})\<rparr>)"
| removing_ends: "Op_removing i \<in># c_ops C \<Longrightarrow>
    reg_step C (C\<lparr>c_reg := removing_done i (c_reg C), c_ops := c_ops C - {#Op_removing i#}\<rparr>)"
| worker_starts: "i \<in> set (pr_release_q (c_reg C)) \<Longrightarrow>
    reg_step C (C\<lparr>c_reg := (c_reg C)\<lparr>pr_release_q := remove1 i (pr_release_q (c_reg C))\<rparr>,
                  c_ops := add_mset (Op_rel i (pe_release_mm (pr_slots (c_reg C) ! i))) (c_ops C)\<rparr>)"
| worker_unregisters: "Op_rel i mm \<in># c_ops C \<Longrightarrow>
    reg_step C (C\<lparr>c_reg := unregister_reg i mm C, c_note := (c_note C)(i := None),
                  c_ops := add_mset (Op_rel_done i) (c_ops C - {#Op_rel i mm#})\<rparr>)"
| worker_ends: "Op_rel_done i \<in># c_ops C \<Longrightarrow>
    reg_step C (C\<lparr>c_reg := release_done i (c_reg C), c_ops := c_ops C - {#Op_rel_done i#}\<rparr>)"

text \<open>The state at load.\<close>

definition c_init :: "ac_ring_state \<Rightarrow> cstate" where
  "c_init rg = \<lparr>c_reg = reg_init rg, c_ops = {#}, c_note = (\<lambda>_. None)\<rparr>"

definition reachable :: "cstate \<Rightarrow> bool" where
  "reachable C \<longleftrightarrow> (\<exists>rg. reg_step\<^sup>*\<^sup>* (c_init rg) C)"

subsection \<open>The invariant\<close>

definition owners :: "cstate \<Rightarrow> nat \<Rightarrow> reg_op multiset" where
  "owners C i = filter_mset (\<lambda>op. op_slot op = i) (c_ops C + image_mset Op_queued (mset (pr_release_q (c_reg C))))"

text \<open>The phases of a slot: entry, notifier and the calls in flight on it.\<close>

inductive slot_ok :: "nat \<Rightarrow> ac_prot_entry \<Rightarrow> (mm_ptr \<times> bool) option \<Rightarrow> reg_op multiset \<Rightarrow> bool" for i e where
  ok_free: "pe_mm e = 0 \<Longrightarrow> \<not> pe_removing e \<Longrightarrow> slot_ok i e None {#}"
| ok_claimed: "pe_mm e = AC_PROT_RESERVED \<Longrightarrow> \<not> pe_removing e \<Longrightarrow> real_mm x \<Longrightarrow> pe_claiming e = x \<Longrightarrow>
    slot_ok i e None {#Op_add i x p c j#}"
| ok_registered: "pe_mm e = AC_PROT_RESERVED \<Longrightarrow> \<not> pe_removing e \<Longrightarrow> real_mm x \<Longrightarrow> pe_claiming e = x \<Longrightarrow>
    slot_ok i e (Some (x, True)) {#Op_registered i x p c j#}"
| ok_live: "real_mm x \<Longrightarrow> pe_mm e = x \<Longrightarrow> \<not> pe_removing e \<Longrightarrow> slot_ok i e (Some (x, True)) {#}"
| ok_deleting: "real_mm x \<Longrightarrow> pe_mm e = x \<Longrightarrow> pe_removing e \<Longrightarrow> slot_ok i e (Some (x, True)) {#Op_unregister i x#}"
| ok_dead: "pe_mm e = 0 \<Longrightarrow> pe_removing e \<Longrightarrow> real_mm x \<Longrightarrow> slot_ok i e (Some (x, b)) {#Op_unregister i x#}"
| ok_queued: "pe_mm e = 0 \<Longrightarrow> pe_removing e \<Longrightarrow> real_mm x \<Longrightarrow> pe_release_mm e = x \<Longrightarrow>
    slot_ok i e (Some (x, False)) {#Op_queued i#}"
| ok_worker: "pe_mm e = 0 \<Longrightarrow> pe_removing e \<Longrightarrow> real_mm x \<Longrightarrow> slot_ok i e (Some (x, False)) {#Op_rel i x#}"
| ok_removing: "pe_mm e = 0 \<Longrightarrow> pe_removing e \<Longrightarrow> slot_ok i e None {#Op_removing i#}"
| ok_worker_done: "pe_mm e = 0 \<Longrightarrow> pe_removing e \<Longrightarrow> slot_ok i e None {#Op_rel_done i#}"

definition published :: "ac_reg \<Rightarrow> nat set" where
  "published s = {i. i < AC_PROT_MAX \<and> real_mm (pe_mm (pr_slots s ! i))}"

definition reg_inv :: "cstate \<Rightarrow> bool" where
  "reg_inv C \<longleftrightarrow>
     length (pr_slots (c_reg C)) = AC_PROT_MAX \<and>
     (\<forall>i < AC_PROT_MAX. slot_ok i (pr_slots (c_reg C) ! i) (c_note C i) (owners C i)) \<and>
     (\<forall>i \<ge> AC_PROT_MAX. c_note C i = None \<and> owners C i = {#}) \<and>
     pr_count (c_reg C) = of_nat (card (published (c_reg C))) \<and>
     (\<forall>mm i j. real_mm mm \<and> i < AC_PROT_MAX \<and> j < AC_PROT_MAX \<and>
        live_for mm (pr_slots (c_reg C) ! i) \<and> live_for mm (pr_slots (c_reg C) ! j) \<longrightarrow> i = j)"

text \<open>Ownership after a change of the calls in flight.\<close>

definition own :: "reg_op multiset \<Rightarrow> nat list \<Rightarrow> nat \<Rightarrow> reg_op multiset" where
  "own M q i = filter_mset (\<lambda>op. op_slot op = i) (M + image_mset Op_queued (mset q))"

lemma owners_own: "owners C i = own (c_ops C) (pr_release_q (c_reg C)) i"
  by (simp add: owners_def own_def)

lemma own_simps [simp]:
  "own (add_mset op M) q i = (if op_slot op = i then add_mset op (own M q i) else own M q i)"
  "own M (q @ [k]) i = (if k = i then add_mset (Op_queued i) (own M q i) else own M q i)"
  by (auto simp: own_def)

lemma own_diff [simp]:
  "op \<in># M \<Longrightarrow> own (M - {#op#}) q i = (if op_slot op = i then own M q i - {#op#} else own M q i)"
  by (auto simp: own_def dest!: multi_member_split)

lemma own_remove1 [simp]:
  "k \<in> set q \<Longrightarrow> own M (remove1 k q) i = (if k = i then own M q i - {#Op_queued i#} else own M q i)"
proof -
  assume "k \<in> set q"
  then have "mset q = add_mset k (mset (remove1 k q))" by simp
  then show ?thesis by (simp add: own_def del: mset_remove1)
qed

lemma own_memI: "op \<in># M \<Longrightarrow> op \<in># own M q (op_slot op)" "k \<in> set q \<Longrightarrow> Op_queued k \<in># own M q k"
  by (auto simp: own_def)

lemma own_mem_ops: "op \<in># own M q i \<Longrightarrow> op \<noteq> Op_queued i \<Longrightarrow> op \<in># M"
  by (auto simp: own_def)

text \<open>A call in flight determines the phase of its slot.\<close>

lemma slot_ok_op:
  "slot_ok i e n W \<Longrightarrow> Op_add k x p c j \<in># W \<Longrightarrow>
     pe_mm e = AC_PROT_RESERVED \<and> \<not> pe_removing e \<and> real_mm x \<and> pe_claiming e = x \<and> n = None \<and> W = {#Op_add i x p c j#}"
  "slot_ok i e n W \<Longrightarrow> Op_registered k x p c j \<in># W \<Longrightarrow>
     pe_mm e = AC_PROT_RESERVED \<and> \<not> pe_removing e \<and> real_mm x \<and> pe_claiming e = x \<and> n = Some (x, True) \<and>
     W = {#Op_registered i x p c j#}"
  "slot_ok i e n W \<Longrightarrow> Op_unregister k x \<in># W \<Longrightarrow>
     pe_removing e \<and> real_mm x \<and> W = {#Op_unregister i x#} \<and> (\<exists>b. n = Some (x, b) \<and> (pe_mm e = 0 \<or> pe_mm e = x \<and> b))"
  "slot_ok i e n W \<Longrightarrow> Op_removing k \<in># W \<Longrightarrow> pe_mm e = 0 \<and> pe_removing e \<and> n = None \<and> W = {#Op_removing i#}"
  "slot_ok i e n W \<Longrightarrow> Op_queued k \<in># W \<Longrightarrow>
     pe_mm e = 0 \<and> pe_removing e \<and> real_mm (pe_release_mm e) \<and> n = Some (pe_release_mm e, False) \<and> W = {#Op_queued i#}"
  "slot_ok i e n W \<Longrightarrow> Op_rel k x \<in># W \<Longrightarrow>
     pe_mm e = 0 \<and> pe_removing e \<and> real_mm x \<and> n = Some (x, False) \<and> W = {#Op_rel i x#}"
  "slot_ok i e n W \<Longrightarrow> Op_rel_done k \<in># W \<Longrightarrow> pe_mm e = 0 \<and> pe_removing e \<and> n = None \<and> W = {#Op_rel_done i#}"
  by (erule slot_ok.cases; auto)+

lemma slot_ok_live:
  "slot_ok i e n W \<Longrightarrow> real_mm (pe_mm e) \<Longrightarrow> \<not> pe_removing e \<Longrightarrow> n = Some (pe_mm e, True) \<and> W = {#}"
  by (erule slot_ok.cases) auto

lemma slot_ok_free:
  "slot_ok i e n W \<Longrightarrow> pe_mm e = 0 \<Longrightarrow> \<not> pe_removing e \<Longrightarrow> n = None \<and> W = {#}"
  by (erule slot_ok.cases) auto

text \<open>A step that changes one slot.\<close>

lemma card_published_upd:
  assumes "length (pr_slots s) = AC_PROT_MAX" and "i < AC_PROT_MAX" and "pr_slots s' = (pr_slots s)[i := e]"
  shows "(of_nat (card (published s')) :: u32) =
     of_nat (card (published s)) + of_bool (real_mm (pe_mm e)) - of_bool (real_mm (pe_mm (pr_slots s ! i)))"
proof -
  let ?P = "published s - {i}"
  have fin: "finite (published s)" by (simp add: published_def)
  have "real_mm (pe_mm (pr_slots s ! i)) \<longleftrightarrow> i \<in> published s" using assms(2) by (simp add: published_def)
  then have 1: "card (published s) = card ?P + of_bool (real_mm (pe_mm (pr_slots s ! i)))"
    using fin card_Suc_Diff1 [OF fin, of i] by (cases "i \<in> published s") simp_all
  have "published s' = (if real_mm (pe_mm e) then insert i ?P else ?P)"
    using assms by (auto simp: published_def nth_list_update split: if_splits)
  then have 2: "card (published s') = card ?P + of_bool (real_mm (pe_mm e))"
    using fin by (simp del: insert_Diff_single)
  show ?thesis unfolding 1 2 by simp
qed

lemma reg_inv_upd:
  assumes inv: "reg_inv C" and i: "i < AC_PROT_MAX"
    and slots: "pr_slots (c_reg C') = (pr_slots (c_reg C))[i := e]"
    and nt: "c_note C' = (c_note C)(i := n)"
    and own: "\<And>j. j \<noteq> i \<Longrightarrow> owners C' j = owners C j"
    and ok: "slot_ok i e n (owners C' i)"
    and count: "pr_count (c_reg C') = pr_count (c_reg C) + of_bool (real_mm (pe_mm e)) -
      of_bool (real_mm (pe_mm (pr_slots (c_reg C) ! i)))"
    and uniq: "\<And>mm j. real_mm mm \<Longrightarrow> live_for mm e \<Longrightarrow> j < AC_PROT_MAX \<Longrightarrow> j \<noteq> i \<Longrightarrow>
      live_for mm (pr_slots (c_reg C) ! j) \<Longrightarrow> live_for mm (pr_slots (c_reg C) ! i)"
  shows "reg_inv C'"
proof -
  have len: "length (pr_slots (c_reg C)) = AC_PROT_MAX" using inv by (simp add: reg_inv_def)
  have old: "\<And>mm i j. real_mm mm \<Longrightarrow> i < AC_PROT_MAX \<Longrightarrow> j < AC_PROT_MAX \<Longrightarrow>
      live_for mm (pr_slots (c_reg C) ! i) \<Longrightarrow> live_for mm (pr_slots (c_reg C) ! j) \<Longrightarrow> i = j"
    using inv unfolding reg_inv_def by blast
  have "a = b" if "real_mm mm" "a < AC_PROT_MAX" "b < AC_PROT_MAX"
    "live_for mm (pr_slots (c_reg C') ! a)" "live_for mm (pr_slots (c_reg C') ! b)" for mm a b
    using that old [of mm a b] uniq [of mm a] uniq [of mm b] old [of mm a i] old [of mm i b] len i
    by (auto simp: slots nth_list_update split: if_splits)
  moreover have "slot_ok j (pr_slots (c_reg C') ! j) (c_note C' j) (owners C' j)" if "j < AC_PROT_MAX" for j
    using inv that ok own [of j] len i by (cases "j = i") (auto simp: slots nt reg_inv_def)
  moreover have "c_note C' j = None \<and> owners C' j = {#}" if "AC_PROT_MAX \<le> j" for j
    using inv that own [of j] i by (auto simp: nt reg_inv_def)
  moreover have "pr_count (c_reg C') = of_nat (card (published (c_reg C')))"
    using inv card_published_upd [OF len i slots] count by (simp add: reg_inv_def)
  ultimately show ?thesis using len unfolding reg_inv_def by (auto simp: slots)
qed

subsection \<open>Every step keeps the invariant\<close>

lemma inv_bound:
  assumes "reg_inv C"
  shows "c_note C i = Some x \<Longrightarrow> i < AC_PROT_MAX" and "op \<in># owners C i \<Longrightarrow> i < AC_PROT_MAX"
proof -
  have "\<not> i < AC_PROT_MAX \<Longrightarrow> c_note C i = None \<and> owners C i = {#}" using assms by (simp add: reg_inv_def)
  then show "c_note C i = Some x \<Longrightarrow> i < AC_PROT_MAX" and "op \<in># owners C i \<Longrightarrow> i < AC_PROT_MAX" by fastforce+
qed

lemma inv_slot:
  assumes "reg_inv C" and "op \<in># c_ops C"
  shows "op_slot op < AC_PROT_MAX" and "op \<in># owners C (op_slot op)"
    and "slot_ok (op_slot op) (pr_slots (c_reg C) ! op_slot op) (c_note C (op_slot op)) (owners C (op_slot op))"
    and "length (pr_slots (c_reg C)) = AC_PROT_MAX"
proof -
  show mem: "op \<in># owners C (op_slot op)" using own_memI(1) [OF assms(2)] by (simp add: owners_own)
  then show lt: "op_slot op < AC_PROT_MAX" by (rule inv_bound(2) [OF assms(1)])
  show "slot_ok (op_slot op) (pr_slots (c_reg C) ! op_slot op) (c_note C (op_slot op)) (owners C (op_slot op))"
    "length (pr_slots (c_reg C)) = AC_PROT_MAX"
    using assms(1) lt by (auto simp: reg_inv_def)
qed

lemma inv_at:
  assumes "reg_inv C" and "i < AC_PROT_MAX"
  shows "slot_ok i (pr_slots (c_reg C) ! i) (c_note C i) (owners C i)" and "length (pr_slots (c_reg C)) = AC_PROT_MAX"
  using assms by (auto simp: reg_inv_def)

lemma step_add_returns:
  assumes inv: "reg_inv C" and mm: "real_mm mm" and c: "add_claim mm jit (c_reg C) = (Inl r, s)"
  shows "reg_inv (C\<lparr>c_reg := s\<rparr>)"
proof (cases "add_scan mm (pr_slots (c_reg C)) 0 None")
  case (Already i)
  let ?e = "pr_slots (c_reg C) ! i"
  from add_scan_Already [OF Already] have i: "i < AC_PROT_MAX" "pe_mm ?e = mm" "\<not> pe_removing ?e"
    using inv by (auto simp: reg_inv_def)
  have s: "s = upd_slot i (\<lambda>e. e\<lparr>pe_jit_allowed := jit\<rparr>) (c_reg C)" using c by (simp add: add_claim_def Already)
  have ok: "c_note C i = Some (mm, True)" "owners C i = {#}"
    using slot_ok_live [OF inv_at(1) [OF inv i(1)]] i mm by auto
  show ?thesis
    by (rule reg_inv_upd [OF inv i(1), where e = "?e\<lparr>pe_jit_allowed := jit\<rparr>" and n = "c_note C i"])
       (use i mm ok in \<open>auto simp: s owners_own live_for_def intro: slot_ok.intros\<close>)
qed (use inv c in \<open>auto simp: add_claim_def\<close>)

lemma step_add_claims:
  assumes inv: "reg_inv C" and mm: "real_mm mm" and c: "add_claim mm jit (c_reg C) = (Inr i, s)"
  shows "reg_inv (C\<lparr>c_reg := s, c_ops := add_mset (Op_add i mm pid comm jit) (c_ops C)\<rparr>)"
proof -
  let ?e = "pr_slots (c_reg C) ! i"
  have sc: "add_scan mm (pr_slots (c_reg C)) 0 None = Free_slot i"
    and s: "s = upd_slot i (\<lambda>e. e\<lparr>pe_mm := AC_PROT_RESERVED, pe_claiming := mm, pe_cancel := False\<rparr>) (c_reg C)"
    using c by (auto simp: add_claim_def split: add_scan_result.splits)
  from add_scan_Free [OF sc] have i: "i < AC_PROT_MAX" "pe_mm ?e = 0" "\<not> pe_removing ?e"
    and none: "\<forall>e \<in> set (pr_slots (c_reg C)). \<not> live_for mm e" using inv by (auto simp: reg_inv_def)
  have ok: "c_note C i = None" "owners C i = {#}" using slot_ok_free [OF inv_at(1) [OF inv i(1)]] i by auto
  have none': "\<not> live_for mm (pr_slots (c_reg C) ! j)" if "j < AC_PROT_MAX" for j
    using none that inv_at(2) [OF inv that] by (metis nth_mem)
  let ?e' = "?e\<lparr>pe_mm := AC_PROT_RESERVED, pe_claiming := mm, pe_cancel := False\<rparr>"
  have only: "x = mm" if "real_mm x" "live_for x ?e'" for x using that by (auto simp: live_for_def)
  show ?thesis
  proof (rule reg_inv_upd [OF inv i(1), where n = "c_note C i" and e = ?e'])
    show "slot_ok i ?e' (c_note C i)
        (owners (C\<lparr>c_reg := s, c_ops := add_mset (Op_add i mm pid comm jit) (c_ops C)\<rparr>) i)"
      using ok i mm by (auto simp: s owners_own intro: ok_claimed)
  qed (use i only none' in \<open>auto simp: s owners_own\<close>)
qed

lemma live_for_reserved: "pe_mm e = AC_PROT_RESERVED \<Longrightarrow> real_mm x \<Longrightarrow> live_for x e \<longleftrightarrow> pe_claiming e = x \<and> \<not> pe_cancel e"
  by (auto simp: live_for_def)

lemma live_for_null: "pe_mm e = 0 \<Longrightarrow> real_mm x \<Longrightarrow> \<not> live_for x e"
  by (auto simp: live_for_def)

lemma live_for_removing: "pe_removing e \<Longrightarrow> real_mm (pe_mm e) \<Longrightarrow> \<not> live_for x e"
  by (auto simp: live_for_def)

lemma live_for_real: "real_mm (pe_mm e) \<Longrightarrow> live_for x e \<longleftrightarrow> pe_mm e = x \<and> \<not> pe_removing e"
  by (auto simp: live_for_def)

lemmas live_for_simps = live_for_reserved live_for_null live_for_removing live_for_real

lemma step_register_fails:
  assumes inv: "reg_inv C" and op: "Op_add i mm pid comm jit \<in># c_ops C" and ret: "ret \<noteq> 0"
    and f: "add_finish i mm pid comm jit ret (c_reg C) = (r, s)"
  shows "reg_inv (C\<lparr>c_reg := s, c_ops := c_ops C - {#Op_add i mm pid comm jit#}\<rparr>)"
proof -
  let ?e = "pr_slots (c_reg C) ! i" and ?e' = "(pr_slots (c_reg C) ! i)\<lparr>pe_claiming := 0, pe_mm := 0, pe_cancel := False\<rparr>"
  note at = inv_slot [OF inv op, simplified]
  note ok = slot_ok_op(1) [OF at(3) at(2)]
  have s: "pr_slots s = (pr_slots (c_reg C))[i := ?e']" "pr_count s = pr_count (c_reg C)" "pr_release_q s = pr_release_q (c_reg C)"
    using f ret at by (auto simp: add_finish_def)
  show ?thesis
  proof (rule reg_inv_upd [OF inv at(1), where n = "c_note C i" and e = ?e'])
    show "slot_ok i ?e' (c_note C i) (owners (C\<lparr>c_reg := s, c_ops := c_ops C - {#Op_add i mm pid comm jit#}\<rparr>) i)"
      using ok op by (auto simp: s owners_own intro: ok_free)
  qed (use ok op in \<open>auto simp: s owners_own live_for_simps\<close>)
qed

lemma step_register_succeeds:
  assumes inv: "reg_inv C" and op: "Op_add i mm pid comm jit \<in># c_ops C"
  shows "reg_inv (C\<lparr>c_ops := add_mset (Op_registered i mm pid comm jit) (c_ops C - {#Op_add i mm pid comm jit#}),
                    c_note := (c_note C)(i \<mapsto> (mm, True))\<rparr>)" (is "reg_inv ?C")
proof -
  note at = inv_slot [OF inv op, simplified]
  note ok = slot_ok_op(1) [OF at(3) at(2)]
  show ?thesis
  proof (rule reg_inv_upd [OF inv at(1), where n = "Some (mm, True)" and e = "pr_slots (c_reg C) ! i"])
    show "slot_ok i (pr_slots (c_reg C) ! i) (Some (mm, True)) (owners ?C i)"
      using ok op by (auto simp: owners_own intro: ok_registered)
  qed (use ok op in \<open>auto simp: owners_own\<close>)
qed

lemma step_finish_publishes:
  assumes inv: "reg_inv C" and op: "Op_registered i mm pid comm jit \<in># c_ops C"
    and f: "add_finish i mm pid comm jit 0 (c_reg C) = (Some r, s)"
  shows "reg_inv (C\<lparr>c_reg := s, c_ops := c_ops C - {#Op_registered i mm pid comm jit#}\<rparr>)" (is "reg_inv ?C")
proof -
  let ?e = "pr_slots (c_reg C) ! i"
  let ?e' = "?e\<lparr>pe_claiming := 0, pe_mm := mm, pe_pid := pid, pe_jit_allowed := jit, pe_comm := strscpy AC_MAX_COMM comm\<rparr>"
  note at = inv_slot [OF inv op, simplified]
  note ok = slot_ok_op(2) [OF at(3) at(2)]
  have s: "pr_slots s = (pr_slots (c_reg C))[i := ?e']" "pr_count s = pr_count (c_reg C) + 1"
      "pr_release_q s = pr_release_q (c_reg C)" and nc: "\<not> pe_cancel ?e"
    using f at by (auto simp: add_finish_def Let_def split: if_splits)
  show ?thesis
  proof (rule reg_inv_upd [OF inv at(1), where n = "c_note C i" and e = ?e'])
    show "slot_ok i ?e' (c_note C i) (owners ?C i)"
      using ok op by (auto simp: s owners_own intro: ok_live)
  qed (use ok op nc in \<open>auto simp: s owners_own live_for_simps\<close>)
qed

lemma step_finish_cancels:
  assumes inv: "reg_inv C" and op: "Op_registered i mm pid comm jit \<in># c_ops C"
    and f: "add_finish i mm pid comm jit 0 (c_reg C) = (None, s)"
  shows "reg_inv (C\<lparr>c_reg := s, c_ops := add_mset (Op_unregister i mm) (c_ops C - {#Op_registered i mm pid comm jit#})\<rparr>)" (is "reg_inv ?C")
proof -
  let ?e' = "(pr_slots (c_reg C) ! i)\<lparr>pe_claiming := 0, pe_cancel := False, pe_mm := 0, pe_removing := True\<rparr>"
  note at = inv_slot [OF inv op, simplified]
  note ok = slot_ok_op(2) [OF at(3) at(2)]
  have s: "pr_slots s = (pr_slots (c_reg C))[i := ?e']" "pr_count s = pr_count (c_reg C)"
      "pr_release_q s = pr_release_q (c_reg C)"
    using f at by (auto simp: add_finish_def Let_def split: if_splits)
  show ?thesis
  proof (rule reg_inv_upd [OF inv at(1), where n = "c_note C i" and e = ?e'])
    show "slot_ok i ?e' (c_note C i) (owners ?C i)"
      using ok op by (auto simp: s owners_own intro: ok_dead)
  qed (use ok op in \<open>auto simp: s owners_own live_for_simps\<close>)
qed

text \<open>Marking a live entry for removal, by \<^verbatim>\<open>ac_del_prot_mm\<close> or \<^verbatim>\<open>ac_clear_protected\<close>.\<close>

lemma mark_removing_inv:
  assumes inv: "reg_inv C" and i: "i < AC_PROT_MAX" and e: "pe_mm (pr_slots (c_reg C) ! i) = mm" "real_mm mm"
      "\<not> pe_removing (pr_slots (c_reg C) ! i)"
    and s: "s = upd_slot i (\<lambda>e. e\<lparr>pe_removing := True\<rparr>) (c_reg C)"
  shows "reg_inv (C\<lparr>c_reg := s, c_ops := add_mset (Op_unregister i mm) (c_ops C)\<rparr>)" (is "reg_inv ?C")
proof -
  let ?e' = "(pr_slots (c_reg C) ! i)\<lparr>pe_removing := True\<rparr>"
  have ok: "c_note C i = Some (mm, True)" "owners C i = {#}"
    using slot_ok_live [OF inv_at(1) [OF inv i]] e by auto
  show ?thesis
  proof (rule reg_inv_upd [OF inv i, where n = "c_note C i" and e = ?e'])
    show "slot_ok i ?e' (c_note C i) (owners ?C i)"
      using ok e by (auto simp: s owners_own intro: ok_deleting)
  qed (use ok e in \<open>auto simp: s owners_own live_for_simps\<close>)
qed

lemma step_del_marks:
  assumes inv: "reg_inv C" and mm: "real_mm mm" and d: "del_mark mm (c_reg C) = (Some i, s)"
  shows "reg_inv (C\<lparr>c_reg := s, c_ops := add_mset (Op_unregister i mm) (c_ops C)\<rparr>)"
proof -
  have f: "find_live mm (pr_slots (c_reg C)) 0 = Some i" and s: "s = upd_slot i (\<lambda>e. e\<lparr>pe_removing := True\<rparr>) (c_reg C)"
    using d by (auto simp: del_mark_def split: option.splits)
  from find_live_Some [OF f] inv show ?thesis
    by (intro mark_removing_inv [OF inv _ _ mm _ s]) (auto simp: reg_inv_def)
qed

lemma step_clear_marks:
  assumes inv: "reg_inv C" and i: "i < AC_PROT_MAX" and d: "clear_mark i (c_reg C) = (mm, s)" "mm \<noteq> 0"
  shows "reg_inv (C\<lparr>c_reg := s, c_ops := add_mset (Op_unregister i mm) (c_ops C)\<rparr>)"
  by (rule mark_removing_inv [OF inv i])
     (use d in \<open>auto simp: clear_mark_def Let_def real_mm_def split: if_splits\<close>)

text \<open>Cancelling claims touches several slots, but only their cancel flag.\<close>

lemma slot_ok_cancel: "slot_ok i e n W \<Longrightarrow> slot_ok i (e\<lparr>pe_cancel := b\<rparr>) n W"
  by (erule slot_ok.cases) (auto intro: slot_ok.intros)

lemma step_del_cancels:
  assumes inv: "reg_inv C" and mm: "real_mm mm" and d: "del_mark mm (c_reg C) = (None, s)"
  shows "reg_inv (C\<lparr>c_reg := s\<rparr>)"
proof -
  define f :: "ac_prot_entry \<Rightarrow> ac_prot_entry" where "f = (\<lambda>e. if pe_mm e = AC_PROT_RESERVED \<and> pe_claiming e = mm then e\<lparr>pe_cancel := True\<rparr> else e)"
  have s: "s = (c_reg C)\<lparr>pr_slots := map f (pr_slots (c_reg C))\<rparr>"
    using d by (auto simp: del_mark_def f_def split: option.splits)
  have len: "length (pr_slots (c_reg C)) = AC_PROT_MAX" using inv by (simp add: reg_inv_def)
  have fm: "pe_mm (f e) = pe_mm e" for e by (simp add: f_def)
  have fl: "live_for x (f e) \<Longrightarrow> live_for x e" for x e by (auto simp: f_def live_for_def split: if_splits)
  have pub: "published s = published (c_reg C)" using len by (auto simp: published_def s fm)
  have fo: "slot_ok i (f e) n W" if "slot_ok i e n W" for i e n W using slot_ok_cancel [OF that] that by (simp add: f_def)
  have at: "pr_slots s ! i = f (pr_slots (c_reg C) ! i)" if "i < AC_PROT_MAX" for i using that len by (simp add: s)
  have own: "owners (C\<lparr>c_reg := s\<rparr>) i = owners C i" for i by (simp add: owners_def s)
  have "i = j" if "real_mm x" "i < AC_PROT_MAX" "j < AC_PROT_MAX" "live_for x (pr_slots s ! i)" "live_for x (pr_slots s ! j)" for x i j
    using that fl [of x "pr_slots (c_reg C) ! i"] fl [of x "pr_slots (c_reg C) ! j"] inv
    unfolding reg_inv_def at [OF that(2)] at [OF that(3)] by blast
  moreover have "slot_ok i (pr_slots s ! i) (c_note C i) (owners C i)" if "i < AC_PROT_MAX" for i
    unfolding at [OF that] by (rule fo [OF inv_at(1) [OF inv that]])
  moreover have "pr_count s = of_nat (card (published s))" using inv by (simp add: reg_inv_def pub) (simp add: s)
  moreover have "length (pr_slots s) = AC_PROT_MAX" by (simp add: s len)
  moreover have "\<forall>i \<ge> AC_PROT_MAX. c_note C i = None \<and> owners C i = {#}" using inv by (simp add: reg_inv_def)
  ultimately show ?thesis unfolding reg_inv_def by (simp add: own) blast
qed

text \<open>The release callback, run by an exiting address space or from \<^verbatim>\<open>mmu_notifier_unregister\<close>.\<close>

lemma release_noop: "pe_mm (pr_slots s ! i) \<noteq> mm \<Longrightarrow> ac_mmu_release i mm s = s"
  by (simp add: ac_mmu_release_def)

lemma release_removing:
  assumes "pe_mm (pr_slots s ! i) = mm" and "pe_removing (pr_slots s ! i)"
  shows "pr_slots (ac_mmu_release i mm s) = (pr_slots s)[i := (pr_slots s ! i)\<lparr>pe_mm := 0\<rparr>]"
    and "pr_count (ac_mmu_release i mm s) = pr_count s - 1"
    and "pr_release_q (ac_mmu_release i mm s) = pr_release_q s"
  using assms by (cases "pr_slots s ! i"; simp add: ac_mmu_release_def)+

lemma release_organic:
  assumes "pe_mm (pr_slots s ! i) = mm" and "\<not> pe_removing (pr_slots s ! i)" and "i < length (pr_slots s)"
  shows "pr_slots (ac_mmu_release i mm s) =
      (pr_slots s)[i := (pr_slots s ! i)\<lparr>pe_mm := 0, pe_removing := True, pe_release_mm := mm\<rparr>]"
    and "pr_count (ac_mmu_release i mm s) = pr_count s - 1"
    and "pr_release_q (ac_mmu_release i mm s) = pr_release_q s @ [i]"
  using assms by (simp_all add: ac_mmu_release_def Let_def)

lemma step_mm_exits:
  assumes inv: "reg_inv C" and n: "c_note C i = Some (mm, True)" and pin: "\<forall>op \<in># c_ops C. \<not> op_pins mm op"
  shows "reg_inv (C\<lparr>c_reg := ac_mmu_release i mm (c_reg C), c_note := (c_note C)(i \<mapsto> (mm, False))\<rparr>)" (is "reg_inv ?C")
proof -
  let ?e = "pr_slots (c_reg C) ! i"
  have i: "i < AC_PROT_MAX" by (rule inv_bound(1) [OF inv n])
  note at = inv_at [OF inv i]
  from at(1) show ?thesis
  proof cases
    case (ok_registered x p c j)
    then have "Op_registered i x p c j \<in># owners C i" by simp
    then have "Op_registered i x p c j \<in># own (c_ops C) (pr_release_q (c_reg C)) i" by (simp only: owners_own)
    then have "Op_registered i x p c j \<in># c_ops C" by (rule own_mem_ops) simp
    moreover have "op_pins mm (Op_registered i x p c j)" using ok_registered n by simp
    ultimately show ?thesis using pin by blast
  next
    case (ok_live x)
    let ?e' = "?e\<lparr>pe_mm := 0, pe_removing := True, pe_release_mm := mm\<rparr>"
    have x: "pe_mm ?e = mm" "real_mm mm" "\<not> pe_removing ?e" "owners C i = {#}" using ok_live n by simp_all
    note rel = release_organic [OF x(1) x(3), simplified at(2), OF i]
    show ?thesis
    proof (rule reg_inv_upd [OF inv i, where n = "Some (mm, False)" and e = ?e'])
      show "slot_ok i ?e' (Some (mm, False)) (owners ?C i)"
        using x by (simp add: owners_own rel slot_ok.ok_queued)
    qed (use x in \<open>simp_all add: owners_own rel live_for_simps\<close>)
  next
    case (ok_deleting x)
    let ?e' = "?e\<lparr>pe_mm := 0\<rparr>"
    have x: "pe_mm ?e = mm" "real_mm mm" "pe_removing ?e" "owners C i = {#Op_unregister i mm#}" using ok_deleting n by simp_all
    note rel = release_removing [OF x(1) x(3)]
    show ?thesis
    proof (rule reg_inv_upd [OF inv i, where n = "Some (mm, False)" and e = ?e'])
      show "slot_ok i ?e' (Some (mm, False)) (owners ?C i)"
        using x by (simp add: owners_own rel slot_ok.ok_dead)
    qed (use x in \<open>simp_all add: owners_own rel live_for_simps\<close>)
  next
    case (ok_dead x b)
    have x: "pe_mm ?e = 0" "real_mm mm" "pe_removing ?e" "owners C i = {#Op_unregister i mm#}" using ok_dead n by simp_all
    have r: "ac_mmu_release i mm (c_reg C) = c_reg C" using x real_mm_neq(1) [OF x(2)] by (intro release_noop) simp
    show ?thesis
    proof (rule reg_inv_upd [OF inv i, where n = "Some (mm, False)" and e = ?e])
      show "slot_ok i ?e (Some (mm, False)) (owners ?C i)"
        using x by (simp add: owners_own r slot_ok.ok_dead)
    qed (simp_all add: owners_own r)
  qed (use n in simp_all)
qed

lemma step_unregisters:
  assumes inv: "reg_inv C" and op: "Op_unregister i mm \<in># c_ops C"
  shows "reg_inv (C\<lparr>c_reg := unregister_reg i mm C, c_note := (c_note C)(i := None),
                  c_ops := add_mset (Op_removing i) (c_ops C - {#Op_unregister i mm#})\<rparr>)" (is "reg_inv ?C")
proof -
  let ?e = "pr_slots (c_reg C) ! i"
  note at = inv_slot [OF inv op, simplified]
  note ok = slot_ok_op(3) [OF at(3) at(2)]
  show ?thesis
  proof (cases "pe_mm ?e = mm")
    case True
    let ?e' = "?e\<lparr>pe_mm := 0\<rparr>"
    have r: "unregister_reg i mm C = ac_mmu_release i mm (c_reg C)" using ok True by (auto simp: unregister_reg_def real_mm_def)
    show ?thesis
    proof (rule reg_inv_upd [OF inv at(1), where n = None and e = ?e'])
      show "slot_ok i ?e' None (owners ?C i)"
        using ok True op by (auto simp: r owners_own release_removing intro: ok_removing)
    qed (use ok True op in \<open>auto simp: r owners_own release_removing live_for_simps\<close>)
  next
    case False
    have r: "unregister_reg i mm C = c_reg C" using False by (auto simp: unregister_reg_def release_noop split: option.splits bool.splits)
    show ?thesis
    proof (rule reg_inv_upd [OF inv at(1), where n = None and e = ?e])
      show "slot_ok i ?e None (owners ?C i)"
        using ok False op by (auto simp: r owners_own intro: ok_removing)
    qed (use ok op in \<open>auto simp: r owners_own\<close>)
  qed
qed

lemma step_worker_unregisters:
  assumes inv: "reg_inv C" and op: "Op_rel i mm \<in># c_ops C"
  shows "reg_inv (C\<lparr>c_reg := unregister_reg i mm C, c_note := (c_note C)(i := None),
                  c_ops := add_mset (Op_rel_done i) (c_ops C - {#Op_rel i mm#})\<rparr>)" (is "reg_inv ?C")
proof -
  let ?e = "pr_slots (c_reg C) ! i"
  note at = inv_slot [OF inv op, simplified]
  note ok = slot_ok_op(6) [OF at(3) at(2)]
  have r: "unregister_reg i mm C = c_reg C" using ok by (simp add: unregister_reg_def)
  show ?thesis
  proof (rule reg_inv_upd [OF inv at(1), where n = None and e = ?e])
    show "slot_ok i ?e None (owners ?C i)"
      using ok op by (auto simp: r owners_own intro: ok_worker_done)
  qed (use ok op in \<open>auto simp: r owners_own\<close>)
qed

lemma step_removing_ends:
  assumes inv: "reg_inv C" and op: "Op_removing i \<in># c_ops C"
  shows "reg_inv (C\<lparr>c_reg := removing_done i (c_reg C), c_ops := c_ops C - {#Op_removing i#}\<rparr>)" (is "reg_inv ?C")
proof -
  let ?e' = "(pr_slots (c_reg C) ! i)\<lparr>pe_removing := False\<rparr>"
  note at = inv_slot [OF inv op, simplified]
  note ok = slot_ok_op(4) [OF at(3) at(2)]
  show ?thesis
  proof (rule reg_inv_upd [OF inv at(1), where n = "c_note C i" and e = ?e'])
    show "slot_ok i ?e' (c_note C i) (owners ?C i)"
      using ok op by (auto simp: removing_done_def owners_own intro: ok_free)
  qed (use ok op in \<open>auto simp: removing_done_def owners_own live_for_simps\<close>)
qed

lemma step_worker_ends:
  assumes inv: "reg_inv C" and op: "Op_rel_done i \<in># c_ops C"
  shows "reg_inv (C\<lparr>c_reg := release_done i (c_reg C), c_ops := c_ops C - {#Op_rel_done i#}\<rparr>)" (is "reg_inv ?C")
proof -
  let ?e' = "(pr_slots (c_reg C) ! i)\<lparr>pe_release_mm := 0, pe_removing := False\<rparr>"
  note at = inv_slot [OF inv op, simplified]
  note ok = slot_ok_op(7) [OF at(3) at(2)]
  show ?thesis
  proof (rule reg_inv_upd [OF inv at(1), where n = "c_note C i" and e = ?e'])
    show "slot_ok i ?e' (c_note C i) (owners ?C i)"
      using ok op by (auto simp: release_done_def owners_own intro: ok_free)
  qed (use ok op in \<open>auto simp: release_done_def owners_own live_for_simps\<close>)
qed

lemma step_worker_starts:
  assumes inv: "reg_inv C" and q: "i \<in> set (pr_release_q (c_reg C))"
  shows "reg_inv (C\<lparr>c_reg := (c_reg C)\<lparr>pr_release_q := remove1 i (pr_release_q (c_reg C))\<rparr>,
                  c_ops := add_mset (Op_rel i (pe_release_mm (pr_slots (c_reg C) ! i))) (c_ops C)\<rparr>)" (is "reg_inv ?C")
proof -
  let ?e = "pr_slots (c_reg C) ! i"
  have mem: "Op_queued i \<in># owners C i" using own_memI(2) [OF q] by (simp add: owners_own)
  then have i: "i < AC_PROT_MAX" by (rule inv_bound(2) [OF inv])
  note ok = slot_ok_op(5) [OF inv_at(1) [OF inv i] mem]
  show ?thesis
  proof (rule reg_inv_upd [OF inv i, where n = "c_note C i" and e = ?e])
    show "slot_ok i ?e (c_note C i) (owners ?C i)"
      using ok q by (auto simp: owners_own intro: ok_worker)
  qed (use ok q in \<open>auto simp: owners_own\<close>)
qed

lemma published_init: "published (reg_init rg) = {}"
  by (auto simp: published_def reg_init_def free_entry_def)

lemma reg_inv_init: "reg_inv (c_init rg)"
  by (auto simp: reg_inv_def c_init_def published_init)
     (auto simp: reg_init_def owners_def free_entry_def live_for_def intro: ok_free)

lemma reg_step_inv: "reg_step C C' \<Longrightarrow> reg_inv C \<Longrightarrow> reg_inv C'"
proof (induction rule: reg_step.induct)
  case (clear_marks i C mm s)
  then show ?case by (rule step_clear_marks [rotated])
qed (simp_all only: step_add_returns step_add_claims step_register_fails step_register_succeeds
       step_finish_publishes step_finish_cancels step_del_marks step_del_cancels step_mm_exits
       step_unregisters step_removing_ends step_worker_starts step_worker_unregisters step_worker_ends)

lemma reachable_inv: "reachable C \<Longrightarrow> reg_inv C"
proof -
  assume "reachable C"
  then obtain rg where "reg_step\<^sup>*\<^sup>* (c_init rg) C" by (auto simp: reachable_def)
  then show ?thesis by (induction rule: rtranclp_induct) (simp_all add: reg_inv_init reg_step_inv)
qed

subsection \<open>Guarantees\<close>

text \<open>C4: In every reachable state of the registry at most one call is in flight on a slot; a registration in
  flight works on a notifier that is not registered, so no notifier is ever registered twice or reused while an
  unregister for it is pending; and every unregister in flight is for the address space the notifier is
  registered with.\<close>

theorem registry_notifier_safety:
  assumes "reachable C"
  shows "size (owners C i) \<le> 1 \<and>
     (\<forall>mm p c j. Op_add i mm p c j \<in># c_ops C \<longrightarrow> c_note C i = None) \<and>
     (\<forall>mm. Op_unregister i mm \<in># c_ops C \<or> Op_rel i mm \<in># c_ops C \<longrightarrow> (\<exists>b. c_note C i = Some (mm, b)))"
proof -
  have inv: "reg_inv C" by (rule reachable_inv [OF assms])
  have "size (owners C i) \<le> 1"
  proof (cases "i < AC_PROT_MAX")
    case True
    from inv_at(1) [OF inv True] show ?thesis by cases simp_all
  qed (use inv in \<open>simp add: reg_inv_def\<close>)
  moreover have "c_note C i = None" if op: "Op_add i mm p c j \<in># c_ops C" for mm p c j
    using slot_ok_op(1) [OF inv_slot(3) [OF inv op, simplified] inv_slot(2) [OF inv op, simplified]] by simp
  moreover have "\<exists>b. c_note C i = Some (mm, b)" if op: "Op_unregister i mm \<in># c_ops C" for mm
    using slot_ok_op(3) [OF inv_slot(3) [OF inv op, simplified] inv_slot(2) [OF inv op, simplified]] by auto
  moreover have "\<exists>b. c_note C i = Some (mm, b)" if op: "Op_rel i mm \<in># c_ops C" for mm
    using slot_ok_op(6) [OF inv_slot(3) [OF inv op, simplified] inv_slot(2) [OF inv op, simplified]] by auto
  ultimately show ?thesis by blast
qed

text \<open>C5: In every reachable state the counter reported as \<^verbatim>\<open>active_procs\<close> is the number of published
  entries, and an address space has at most one live entry: published and not being removed, or claimed and not
  cancelled.\<close>

theorem registry_count_unique:
  assumes "reachable C"
  shows "unat (pr_count (c_reg C)) = card (published (c_reg C)) \<and> card (published (c_reg C)) \<le> AC_PROT_MAX \<and>
     (real_mm mm \<and> i < AC_PROT_MAX \<and> j < AC_PROT_MAX \<and> live_for mm (pr_slots (c_reg C) ! i) \<and>
      live_for mm (pr_slots (c_reg C) ! j) \<longrightarrow> i = j)"
proof -
  have inv: "reg_inv C" by (rule reachable_inv [OF assms])
  have "published (c_reg C) \<subseteq> {..<AC_PROT_MAX}" by (auto simp: published_def)
  then have le: "card (published (c_reg C)) \<le> AC_PROT_MAX" using card_mono [of "{..<AC_PROT_MAX}"] by simp
  then have "unat (of_nat (card (published (c_reg C))) :: u32) = card (published (c_reg C))"
    by (simp add: unsigned_of_nat take_bit_nat_eq_self AC_PROT_MAX_def)
  with le inv show ?thesis unfolding reg_inv_def by metis
qed

text \<open>A state with no call in flight and no queued work.\<close>

definition quiescent :: "cstate \<Rightarrow> bool" where
  "quiescent C \<longleftrightarrow> c_ops C = {#} \<and> pr_release_q (c_reg C) = []"

text \<open>A slot no call works on: free, with no notifier registered, or a published entry whose notifier is registered
  with exactly its address space and whose release has still to come.  It is neither claimed nor being removed.\<close>

definition settled_slot :: "nat \<Rightarrow> cstate \<Rightarrow> bool" where
  "settled_slot i C \<longleftrightarrow>
     (let e = pr_slots (c_reg C) ! i
      in pe_mm e \<noteq> AC_PROT_RESERVED \<and> \<not> pe_removing e \<and>
         c_note C i = (if pe_mm e = 0 then None else Some (pe_mm e, True)))"

lemma quiescent_settled:
  assumes "reg_inv C" and "quiescent C" and "i < AC_PROT_MAX"
  shows "settled_slot i C"
proof -
  have "owners C i = {#}" using assms(2) by (simp add: quiescent_def owners_def)
  with inv_at(1) [OF assms(1,3)] show ?thesis by cases (auto simp: settled_slot_def real_mm_def)
qed

subsection \<open>Every call in flight can complete\<close>

fun op_weight :: "reg_op \<Rightarrow> nat" where
  "op_weight (Op_add _ _ _ _ _) = 4"
| "op_weight (Op_registered _ _ _ _ _) = 3"
| "op_weight (Op_unregister _ _) = 2"
| "op_weight (Op_removing _) = 1"
| "op_weight (Op_queued _) = 3"
| "op_weight (Op_rel _ _) = 2"
| "op_weight (Op_rel_done _) = 1"

definition work_left :: "cstate \<Rightarrow> nat" where
  "work_left C = sum_mset (image_mset op_weight (c_ops C)) + 3 * length (pr_release_q (c_reg C))"

lemma work_left_eq:
  assumes "op \<in># c_ops C" and "M = c_ops C - {#op#}" and "pr_release_q s = pr_release_q (c_reg C)"
  shows "sum_mset (image_mset op_weight M) + 3 * length (pr_release_q s) + op_weight op = work_left C"
  using assms by (auto simp: work_left_def dest!: multi_member_split)

lemma add_finish_q: "pr_release_q (snd (add_finish i mm p c j ret s)) = pr_release_q s"
  by (simp add: add_finish_def Let_def)

lemma no_queued_op:
  "reg_step C C' \<Longrightarrow> (\<forall>i. Op_queued i \<notin># c_ops C) \<Longrightarrow> (\<forall>i. Op_queued i \<notin># c_ops C')"
  by (induction rule: reg_step.induct) (auto dest: in_diffD)

lemma reachable_no_queued: "reachable C \<Longrightarrow> Op_queued i \<notin># c_ops C"
proof -
  assume "reachable C"
  then obtain rg where "reg_step\<^sup>*\<^sup>* (c_init rg) C" by (auto simp: reachable_def)
  then have "\<forall>i. Op_queued i \<notin># c_ops C"
    by (induction rule: rtranclp_induct) (simp add: c_init_def, metis no_queued_op)
  then show ?thesis by blast
qed

lemma progress:
  assumes reach: "reachable C" and inv: "reg_inv C" and "\<not> quiescent C"
  shows "\<exists>C'. reg_step C C' \<and> work_left C' < work_left C"
proof (cases "pr_release_q (c_reg C)")
  case (Cons i q)
  then have "i \<in> set (pr_release_q (c_reg C))" by simp
  from worker_starts [OF this] show ?thesis
    by (intro exI conjI) (assumption, simp add: work_left_def Cons)
next
  case Nil
  with assms(3) obtain op where op: "op \<in># c_ops C" by (auto simp: quiescent_def)
  note w = work_left_eq [OF op refl]
  show ?thesis
  proof (cases op)
    case (Op_add i mm p c j)
    from w [OF refl] register_succeeds [OF op [unfolded Op_add]] Op_add show ?thesis
      by (intro exI conjI) (assumption, auto simp: work_left_def)
  next
    case (Op_registered i mm p c j)
    obtain r s where f: "add_finish i mm p c j 0 (c_reg C) = (r, s)" by fastforce
    have "pr_release_q s = pr_release_q (c_reg C)" using add_finish_q [of i mm p c j 0 "c_reg C"] f by simp
    note w' = w [OF this]
    show ?thesis
    proof (cases r)
      case None
      from finish_cancels [OF op [unfolded Op_registered] f [unfolded None]] w' Op_registered show ?thesis
        by (intro exI conjI) (assumption, auto simp: work_left_def)
    next
      case (Some v)
      from finish_publishes [OF op [unfolded Op_registered] f [unfolded Some]] w' Op_registered show ?thesis
        by (intro exI conjI) (assumption, auto simp: work_left_def)
    qed
  next
    case (Op_unregister i mm)
    have q: "pr_release_q (unregister_reg i mm C) = pr_release_q (c_reg C)"
      using slot_ok_op(3) [OF inv_slot(3) [OF inv op [unfolded Op_unregister], simplified] inv_slot(2) [OF inv op [unfolded Op_unregister], simplified]]
      by (auto simp: unregister_reg_def release_noop real_mm_def ac_mmu_release_def Let_def split: option.split bool.split)
    from unregisters [OF op [unfolded Op_unregister]] w [OF q] Op_unregister show ?thesis
      by (intro exI conjI) (assumption, auto simp: work_left_def)
  next
    case (Op_removing i)
    have q: "pr_release_q (removing_done i (c_reg C)) = pr_release_q (c_reg C)" by (simp add: removing_done_def)
    from removing_ends [OF op [unfolded Op_removing]] w [OF q] Op_removing show ?thesis
      by (intro exI conjI) (assumption, auto simp: work_left_def)
  next
    case (Op_rel i mm)
    have q: "pr_release_q (unregister_reg i mm C) = pr_release_q (c_reg C)"
      using slot_ok_op(6) [OF inv_slot(3) [OF inv op [unfolded Op_rel], simplified] inv_slot(2) [OF inv op [unfolded Op_rel], simplified]]
      by (auto simp: unregister_reg_def)
    from worker_unregisters [OF op [unfolded Op_rel]] w [OF q] Op_rel show ?thesis
      by (intro exI conjI) (assumption, auto simp: work_left_def)
  next
    case (Op_rel_done i)
    have q: "pr_release_q (release_done i (c_reg C)) = pr_release_q (c_reg C)" by (simp add: release_done_def)
    from worker_ends [OF op [unfolded Op_rel_done]] w [OF q] Op_rel_done show ?thesis
      by (intro exI conjI) (assumption, auto simp: work_left_def)
  next
    case (Op_queued i)
    with reachable_no_queued [OF reach] op show ?thesis by blast
  qed
qed

lemma reachable_step: "reachable C \<Longrightarrow> reg_step C C' \<Longrightarrow> reachable C'"
  unfolding reachable_def by (meson rtranclp.rtrancl_into_rtrancl)

lemma work_left_le: "work_left C \<le> 4 * size (c_ops C) + 3 * length (pr_release_q (c_reg C))"
proof -
  have "sum_mset (image_mset op_weight M) \<le> 4 * size M" for M
  proof (induction M)
    case (add op M)
    then show ?case by (cases op) simp_all
  qed simp
  then show ?thesis by (simp add: work_left_def)
qed

lemma finishes:
  assumes "reachable C"
  shows "\<exists>n C'. n \<le> work_left C \<and> (reg_step ^^ n) C C' \<and> reachable C' \<and> quiescent C'"
  using assms
proof (induction "work_left C" arbitrary: C rule: less_induct)
  case less
  show ?case
  proof (cases "quiescent C")
    case True
    then show ?thesis using less.prems by (intro exI [of _ 0] exI [of _ C]) simp
  next
    case False
    from progress [OF less.prems reachable_inv [OF less.prems] this]
    obtain C1 where C1: "reg_step C C1" "work_left C1 < work_left C" by blast
    from less.hyps [OF C1(2) reachable_step [OF less.prems C1(1)]]
    obtain n C' where "n \<le> work_left C1" "(reg_step ^^ n) C1 C'" "reachable C'" "quiescent C'" by blast
    then show ?thesis using C1 by (intro exI [of _ "Suc n"] exI [of _ C']) (auto simp del: relpowp.simps intro: relpowp_Suc_I2)
  qed
qed

text \<open>C30: No slot stays pinned.  From every reachable state, whatever calls are in flight, at most four steps for
  each call in flight and three for each queued release lead to a state in which no call is in flight, the release
  queue is empty, and every slot is settled: none is left claimed or with its removing flag set, a free slot has no
  notifier registered and a published one has its own.  The counter is then the number of published slots.\<close>

theorem registry_can_finish:
  assumes "reachable C"
  shows "\<exists>n C'. n \<le> 4 * size (c_ops C) + 3 * length (pr_release_q (c_reg C)) \<and> (reg_step ^^ n) C C' \<and>
     c_ops C' = {#} \<and> pr_release_q (c_reg C') = [] \<and> (\<forall>i < AC_PROT_MAX. settled_slot i C') \<and>
     pr_count (c_reg C') = of_nat (card {i. i < AC_PROT_MAX \<and> pe_mm (pr_slots (c_reg C') ! i) \<noteq> 0})"
proof -
  obtain n C' where C': "n \<le> work_left C" "(reg_step ^^ n) C C'" "reachable C'" "quiescent C'" using finishes [OF assms] by blast
  have inv: "reg_inv C'" by (rule reachable_inv [OF C'(3)])
  note st = quiescent_settled [OF inv C'(4)]
  have "published (c_reg C') = {i. i < AC_PROT_MAX \<and> pe_mm (pr_slots (c_reg C') ! i) \<noteq> 0}"
    using st by (auto simp: published_def settled_slot_def real_mm_def Let_def)
  then have "pr_count (c_reg C') = of_nat (card {i. i < AC_PROT_MAX \<and> pe_mm (pr_slots (c_reg C') ! i) \<noteq> 0})"
    using inv by (simp add: reg_inv_def)
  then show ?thesis using C' st work_left_le [of C] by (intro exI [of _ n] exI [of _ C']) (simp add: quiescent_def)
qed

subsection \<open>No removal is lost\<close>

definition no_live :: "mm_ptr \<Rightarrow> cstate \<Rightarrow> bool" where
  "no_live mm C \<longleftrightarrow> (\<forall>i < AC_PROT_MAX. \<not> live_for mm (pr_slots (c_reg C) ! i))"

text \<open>The step claims a slot for \<open>mm\<close>: a new registration has begun.\<close>

definition claims :: "mm_ptr \<Rightarrow> cstate \<Rightarrow> cstate \<Rightarrow> bool" where
  "claims mm C C' \<longleftrightarrow> (\<exists>jit i. add_claim mm jit (c_reg C) = (Inr i, c_reg C'))"

lemma no_live_upd:
  assumes "no_live mm C" and "length (pr_slots (c_reg C)) = AC_PROT_MAX"
    and "pr_slots (c_reg C') = (pr_slots (c_reg C))[i := e]" and "\<not> live_for mm e"
  shows "no_live mm C'"
  unfolding no_live_def
proof (intro allI impI)
  fix k assume "k < AC_PROT_MAX"
  with assms show "\<not> live_for mm (pr_slots (c_reg C') ! k)" by (cases "i = k") (simp_all add: no_live_def)
qed

lemma live_for_release:
  "k < length (pr_slots s) \<Longrightarrow> real_mm mm \<Longrightarrow> live_for mm (pr_slots (ac_mmu_release i x s) ! k) \<Longrightarrow> live_for mm (pr_slots s ! k)"
  by (cases "i = k") (auto simp: ac_mmu_release_def Let_def live_for_def split: if_splits)

lemma no_live_release:
  assumes "no_live mm C" and "length (pr_slots (c_reg C)) = AC_PROT_MAX" and "real_mm mm"
    and "c_reg C' = c_reg C \<or> c_reg C' = ac_mmu_release i x (c_reg C)"
  shows "no_live mm C'"
  using assms live_for_release [of _ "c_reg C" mm i x] by (auto simp: no_live_def)

lemma no_live_step:
  assumes step: "reg_step C C'" and inv: "reg_inv C" and mm: "real_mm mm" and nl: "no_live mm C"
    and nc: "\<not> claims mm C C'"
  shows "no_live mm C'"
proof -
  have len: "length (pr_slots (c_reg C)) = AC_PROT_MAX" using inv by (simp add: reg_inv_def)
  have at: "\<not> live_for mm (pr_slots (c_reg C) ! i)" if "i < AC_PROT_MAX" for i using nl that by (simp add: no_live_def)
  from step show ?thesis
  proof cases
    case (add_returns mm' jit r s)
    show ?thesis
    proof (cases "add_scan mm' (pr_slots (c_reg C)) 0 None")
      case (Already i)
      from add_scan_Already [OF Already] len have "i < AC_PROT_MAX" by simp
      with add_returns Already at [of i] show ?thesis
        by (intro no_live_upd [OF nl len, of _ i "(pr_slots (c_reg C) ! i)\<lparr>pe_jit_allowed := jit\<rparr>"])
           (auto simp: add_claim_def live_for_def)
    qed (use add_returns nl in \<open>auto simp: add_claim_def no_live_def\<close>)
  next
    case (add_claims mm' jit i s pid comm)
    have s: "s = upd_slot i (\<lambda>e. e\<lparr>pe_mm := AC_PROT_RESERVED, pe_claiming := mm', pe_cancel := False\<rparr>) (c_reg C)"
      using add_claims by (auto simp: add_claim_def split: add_scan_result.splits)
    have "mm' \<noteq> mm" using nc add_claims by (auto simp: claims_def)
    with mm show ?thesis
      by (intro no_live_upd [OF nl len, of _ i "(pr_slots (c_reg C) ! i)\<lparr>pe_mm := AC_PROT_RESERVED, pe_claiming := mm', pe_cancel := False\<rparr>"])
         (auto simp: add_claims(1) s live_for_def)
  next
    case (register_fails i mm' pid comm jit ret r s)
    with mm show ?thesis
      by (intro no_live_upd [OF nl len, of _ i "(pr_slots (c_reg C) ! i)\<lparr>pe_claiming := 0, pe_mm := 0, pe_cancel := False\<rparr>"])
         (use len in \<open>auto simp: add_finish_def live_for_null inv_slot(1) [OF inv register_fails(2), simplified]\<close>)
  next
    case (finish_publishes i mm' pid comm jit r s)
    note sl = inv_slot [OF inv finish_publishes(2), simplified]
    note ok = slot_ok_op(2) [OF sl(3) sl(2)]
    have "mm' \<noteq> mm" if "\<not> pe_cancel (pr_slots (c_reg C) ! i)" using at [OF sl(1)] ok that by (auto simp: live_for_def)
    with finish_publishes ok sl(1) len show ?thesis
      by (intro no_live_upd [OF nl len, of _ i "(pr_slots (c_reg C) ! i)\<lparr>pe_claiming := 0, pe_mm := mm', pe_pid := pid,
              pe_jit_allowed := jit, pe_comm := strscpy AC_MAX_COMM comm\<rparr>"])
         (auto simp: add_finish_def Let_def live_for_real split: if_splits)
  next
    case (finish_cancels i mm' pid comm jit s)
    note sl = inv_slot [OF inv finish_cancels(2), simplified]
    from finish_cancels sl(1) len mm show ?thesis
      by (intro no_live_upd [OF nl len, of _ i "(pr_slots (c_reg C) ! i)\<lparr>pe_claiming := 0, pe_cancel := False, pe_mm := 0, pe_removing := True\<rparr>"])
         (auto simp: add_finish_def Let_def live_for_null split: if_splits)
  next
    case (del_marks mm' i s)
    have "i < AC_PROT_MAX" using del_marks len by (auto simp: del_mark_def split: option.splits dest!: find_live_Some)
    with del_marks at [of i] show ?thesis
      by (intro no_live_upd [OF nl len, of _ i "(pr_slots (c_reg C) ! i)\<lparr>pe_removing := True\<rparr>"])
         (auto simp: del_mark_def live_for_def split: option.splits)
  next
    case (del_cancels mm' s)
    then have "pr_slots s = map (\<lambda>e. if pe_mm e = AC_PROT_RESERVED \<and> pe_claiming e = mm' then e\<lparr>pe_cancel := True\<rparr> else e) (pr_slots (c_reg C))"
      by (auto simp: del_mark_def split: option.splits)
    with del_cancels(1) nl len show ?thesis by (auto simp: no_live_def live_for_def)
  next
    case (clear_marks i mm' s)
    with at [of i] show ?thesis
      by (intro no_live_upd [OF nl len, of _ i "(pr_slots (c_reg C) ! i)\<lparr>pe_removing := True\<rparr>"])
         (auto simp: clear_mark_def live_for_def Let_def split: if_splits)
  next
    case (mm_exits i mm')
    then show ?thesis
      by (intro no_live_release [OF nl len mm, of _ i mm']) (auto simp: unregister_reg_def split: option.split bool.split)
  next
    case (unregisters i mm')
    then show ?thesis
      by (intro no_live_release [OF nl len mm, of _ i mm']) (auto simp: unregister_reg_def split: option.split bool.split)
  next
    case (removing_ends i)
    note sl = inv_slot [OF inv removing_ends(2), simplified]
    from slot_ok_op(4) [OF sl(3) sl(2)] removing_ends(1) mm show ?thesis
      by (intro no_live_upd [OF nl len, of _ i "(pr_slots (c_reg C) ! i)\<lparr>pe_removing := False\<rparr>"])
         (auto simp: removing_done_def live_for_null)
  next
    case (worker_unregisters i mm')
    then show ?thesis
      by (intro no_live_release [OF nl len mm, of _ i mm']) (auto simp: unregister_reg_def split: option.split bool.split)
  next
    case (worker_ends i)
    note sl = inv_slot [OF inv worker_ends(2), simplified]
    from slot_ok_op(7) [OF sl(3) sl(2)] worker_ends(1) mm show ?thesis
      by (intro no_live_upd [OF nl len, of _ i "(pr_slots (c_reg C) ! i)\<lparr>pe_release_mm := 0, pe_removing := False\<rparr>"])
         (auto simp: release_done_def live_for_null)
  qed (use nl in \<open>simp_all add: no_live_def\<close>)
qed

lemma del_mark_no_live:
  assumes inv: "reg_inv C" and mm: "real_mm mm" and d: "del_mark mm (c_reg C) = (r, c_reg C')"
  shows "no_live mm C'"
proof -
  have c: "c_reg C' = snd (del_mark mm (c_reg C))" using d by simp
  show ?thesis
  proof (cases "find_live mm (pr_slots (c_reg C)) 0")
  case None
  have s: "pr_slots (c_reg C') = map (\<lambda>e. if pe_mm e = AC_PROT_RESERVED \<and> pe_claiming e = mm then e\<lparr>pe_cancel := True\<rparr> else e) (pr_slots (c_reg C))"
    by (simp add: c del_mark_def None)
  have "\<not> live_for mm (pr_slots (c_reg C') ! i)" if "i < AC_PROT_MAX" for i
    using None that inv mm unfolding find_live_None by (auto simp: s reg_inv_def live_for_def real_mm_def)
  then show ?thesis by (simp add: no_live_def)
next
  case (Some i)
  from find_live_Some [OF Some] inv have i: "i < AC_PROT_MAX" "live_for mm (pr_slots (c_reg C) ! i)" "pe_mm (pr_slots (c_reg C) ! i) = mm"
    by (auto simp: reg_inv_def live_for_def)
  have s: "pr_slots (c_reg C') = (pr_slots (c_reg C))[i := (pr_slots (c_reg C) ! i)\<lparr>pe_removing := True\<rparr>]"
    by (simp add: c del_mark_def Some)
  have "\<not> live_for mm (pr_slots (c_reg C') ! k)" if "k < AC_PROT_MAX" for k
  proof (cases "k = i")
    case True
    then show ?thesis using i mm that inv by (auto simp: s reg_inv_def live_for_def real_mm_def)
  next
    case False
    then have "\<not> live_for mm (pr_slots (c_reg C) ! k)" using inv i mm that unfolding reg_inv_def by blast
    with False show ?thesis by (simp add: s)
  qed
  then show ?thesis by (simp add: no_live_def)
  qed
qed

text \<open>The state after the first critical section of \<^verbatim>\<open>ac_del_prot_mm\<close>.\<close>

definition after_del :: "mm_ptr \<Rightarrow> cstate \<Rightarrow> cstate" where
  "after_del mm C = (case del_mark mm (c_reg C) of
     (Some i, s) \<Rightarrow> C\<lparr>c_reg := s, c_ops := add_mset (Op_unregister i mm) (c_ops C)\<rparr>
   | (None, s) \<Rightarrow> C\<lparr>c_reg := s\<rparr>)"

lemma after_del_step: "real_mm mm \<Longrightarrow> reg_step C (after_del mm C)"
  by (cases "del_mark mm (c_reg C)"; cases "fst (del_mark mm (c_reg C))")
     (auto simp: after_del_def intro: del_marks del_cancels)

text \<open>C3: No removal is lost.  After the critical section of \<^verbatim>\<open>ac_del_prot_mm\<close> there is no live entry for the
  address space, even if a registration for it was in flight; none appears in any further interleaving until a new
  registration for it is begun; and once no call is in flight the address space is not protected.\<close>

theorem registry_no_lost_delete:
  assumes reach: "reachable C" and mm: "real_mm mm"
    and run: "(\<lambda>A B. reg_step A B \<and> \<not> claims mm A B)\<^sup>*\<^sup>* (after_del mm C) C'"
  shows "no_live mm C' \<and> (quiescent C' \<longrightarrow> \<not> ac_is_protected_mm mm (c_reg C'))"
proof -
  have 0: "reachable (after_del mm C)" by (rule reachable_step [OF reach after_del_step [OF mm]])
  have d: "del_mark mm (c_reg C) = (fst (del_mark mm (c_reg C)), c_reg (after_del mm C))"
    by (auto simp: after_del_def split: prod.split option.split)
  have "reachable C' \<and> no_live mm C'"
    using run
  proof (induction rule: rtranclp_induct)
    case base
    show ?case using 0 del_mark_no_live [OF reachable_inv [OF reach] mm d] by simp
  next
    case (step A B)
    then show ?case using no_live_step [OF _ reachable_inv mm] reachable_step by blast
  qed
  then have r: "reachable C'" and nl: "no_live mm C'" by auto
  have "\<not> ac_is_protected_mm mm (c_reg C')" if q: "quiescent C'"
  proof
    assume "ac_is_protected_mm mm (c_reg C')"
    then obtain i where i: "i < length (pr_slots (c_reg C'))" "pe_mm (pr_slots (c_reg C') ! i) = mm"
      by (auto simp: ac_is_protected_mm_def some_slot_holds_iff in_set_conv_nth split: if_splits)
    have "i < AC_PROT_MAX" using i reachable_inv [OF r] by (simp add: reg_inv_def)
    moreover have "owners C' i = {#}" using q by (simp add: quiescent_def owners_def)
    ultimately have "live_for mm (pr_slots (c_reg C') ! i)"
      using inv_at(1) [OF reachable_inv [OF r], of i] i mm by (auto elim!: slot_ok.cases simp: live_for_def)
    with nl \<open>i < AC_PROT_MAX\<close> show False by (simp add: no_live_def)
  qed
  with nl show ?thesis by blast
qed

subsection \<open>A run: removal during registration\<close>

text \<open>A table whose first slot is \<open>e\<close> and whose other slots are free, and the stages of an entry that is
  claimed, cancelled and torn down.\<close>

definition reg1 :: "ac_ring_state \<Rightarrow> ac_prot_entry \<Rightarrow> ac_reg" where
  "reg1 rg e = \<lparr>pr_slots = e # replicate 63 free_entry, pr_count = 0, pr_ring = rg, pr_release_q = []\<rparr>"

abbreviation demo_mm :: mm_ptr where "demo_mm \<equiv> 0x1000"

definition e_claimed :: ac_prot_entry where
  "e_claimed = free_entry\<lparr>pe_mm := AC_PROT_RESERVED, pe_claiming := demo_mm\<rparr>"

lemma replicate64: "replicate AC_PROT_MAX x = x # replicate 63 x"
  by (simp add: AC_PROT_MAX_def numeral_eq_Suc)

lemma demo_mm_real: "real_mm demo_mm" "demo_mm \<noteq> AC_PROT_RESERVED" "AC_PROT_RESERVED \<noteq> demo_mm"
  by (simp_all add: real_mm_def AC_PROT_RESERVED_def)

lemma add_scan_free: "add_scan demo_mm (replicate n free_entry) i (Some k) = Free_slot k"
  by (induction n arbitrary: i) (simp_all add: free_entry_def)

lemma find_live_free: "find_live demo_mm (replicate n free_entry) i = None"
  by (simp add: find_live_None free_entry_def)

lemma reg1_init: "reg_init rg = reg1 rg free_entry"
  by (simp add: reg_init_def reg1_def replicate64)

lemma demo_claim: "add_claim demo_mm False (reg1 rg free_entry) = (Inr 0, reg1 rg e_claimed)"
  by (simp add: add_claim_def reg1_def add_scan_free upd_slot_def)
     (simp add: free_entry_def add_scan_free [unfolded free_entry_def] e_claimed_def)

lemma demo_dedupe: "add_claim demo_mm False (reg1 rg e_claimed) = (Inl 0, reg1 rg e_claimed)"
  by (simp add: add_claim_def reg1_def e_claimed_def free_entry_def demo_mm_real)

lemma demo_cancel: "del_mark demo_mm (reg1 rg e_claimed) = (None, reg1 rg (e_claimed\<lparr>pe_cancel := True\<rparr>))"
  by (simp add: del_mark_def reg1_def find_live_free)
     (simp add: e_claimed_def free_entry_def demo_mm_real find_live_free [unfolded free_entry_def])

lemma demo_register_fails:
  "add_finish 0 demo_mm 7 ''g'' False (- EINTR) (reg1 rg e_claimed) = (Some (- EINTR), reg1 rg free_entry)"
  by (simp add: add_finish_def reg1_def upd_slot_def e_claimed_def free_entry_def EINTR_def)

lemma demo_finish_cancel:
  "add_finish 0 demo_mm 7 ''g'' False 0 (reg1 rg (e_claimed\<lparr>pe_cancel := True\<rparr>)) =
     (None, reg1 rg (free_entry\<lparr>pe_removing := True\<rparr>))"
  by (simp add: add_finish_def reg1_def upd_slot_def e_claimed_def free_entry_def)

definition demo_c1 :: "ac_ring_state \<Rightarrow> cstate" where
  "demo_c1 rg = \<lparr>c_reg = reg1 rg e_claimed, c_ops = {#Op_add 0 demo_mm 7 ''g'' False#}, c_note = (\<lambda>_. None)\<rparr>"

lemma demo_c1_reachable: "reachable (demo_c1 rg)"
proof -
  have "reg_step (c_init rg) (demo_c1 rg)"
    using add_claims [OF demo_mm_real(1), of False "c_init rg" 0 "reg1 rg e_claimed" 7 "''g''"] demo_claim
    by (simp add: c_init_def reg1_init demo_c1_def)
  then show ?thesis unfolding reachable_def by blast
qed

lemma claims_live: "claims mm X Y \<Longrightarrow> \<exists>e \<in> set (pr_slots (c_reg Y)). live_for mm e"
proof -
  assume "claims mm X Y"
  then obtain i where sc: "add_scan mm (pr_slots (c_reg X)) 0 None = Free_slot i"
    and y: "c_reg Y = upd_slot i (\<lambda>e. e\<lparr>pe_mm := AC_PROT_RESERVED, pe_claiming := mm, pe_cancel := False\<rparr>) (c_reg X)"
    by (cases "add_scan mm (pr_slots (c_reg X)) 0 None") (auto simp: claims_def add_claim_def)
  have "i < length (pr_slots (c_reg X))" using add_scan_Free [OF sc] by auto
  then show ?thesis
    by (intro bexI [of _ "pr_slots (c_reg Y) ! i"]) (auto simp: y live_for_def set_update_memI)
qed

lemma demo_run:
  "(\<lambda>A B. reg_step A B \<and> \<not> claims demo_mm A B)\<^sup>*\<^sup>* (after_del demo_mm (demo_c1 rg)) (c_init rg)"
proof -
  let ?e = "e_claimed\<lparr>pe_cancel := True\<rparr>" and ?d = "free_entry\<lparr>pe_removing := True\<rparr>"
  let ?op = "Op_registered 0 demo_mm 7 ''g'' False"
  define A where "A = after_del demo_mm (demo_c1 rg)"
  define B where "B = \<lparr>c_reg = reg1 rg ?e, c_ops = {#?op#}, c_note = (\<lambda>_. None)(0 \<mapsto> (demo_mm, True))\<rparr>"
  define D where "D = \<lparr>c_reg = reg1 rg ?d, c_ops = {#Op_unregister 0 demo_mm#}, c_note = (\<lambda>_. None)(0 \<mapsto> (demo_mm, True))\<rparr>"
  define F where "F = \<lparr>c_reg = reg1 rg ?d, c_ops = {#Op_removing 0#}, c_note = (\<lambda>_. None) :: nat \<Rightarrow> (mm_ptr \<times> bool) option\<rparr>"
  have a: "A = \<lparr>c_reg = reg1 rg ?e, c_ops = {#Op_add 0 demo_mm 7 ''g'' False#}, c_note = (\<lambda>_. None)\<rparr>"
    by (simp add: A_def after_del_def demo_c1_def demo_cancel)
  have 1: "reg_step A B" using register_succeeds [of 0 demo_mm 7 "''g''" False A] by (simp add: a B_def)
  have 2: "reg_step B D" using finish_cancels [of 0 demo_mm 7 "''g''" False B "reg1 rg ?d"] demo_finish_cancel by (simp add: B_def D_def)
  have u: "unregister_reg 0 demo_mm D = reg1 rg ?d"
    by (simp add: unregister_reg_def D_def ac_mmu_release_def reg1_def free_entry_def)
  have 3: "reg_step D F" using unregisters [of 0 demo_mm D] unfolding u by (simp add: D_def F_def)
  have r: "removing_done 0 (reg1 rg ?d) = reg1 rg free_entry"
    by (simp add: removing_done_def upd_slot_def reg1_def free_entry_def)
  have 4: "reg_step F (c_init rg)" using removing_ends [of 0 F] by (simp add: F_def r c_init_def reg1_init)
  have nc: "\<not> claims demo_mm X Y" if "c_reg Y = reg1 rg e" "\<not> live_for demo_mm e" for X Y e
  proof
    assume "claims demo_mm X Y"
    from claims_live [OF this] that show False by (auto simp: reg1_def free_entry_def live_for_def)
  qed
  have n1: "\<not> claims demo_mm A B" by (rule nc [of _ ?e]) (simp_all add: B_def e_claimed_def live_for_def free_entry_def demo_mm_real)
  have n2: "\<not> claims demo_mm B D" by (rule nc [of _ ?d]) (simp_all add: D_def live_for_def free_entry_def)
  have n3: "\<not> claims demo_mm D F" by (rule nc [of _ ?d]) (simp_all add: F_def live_for_def free_entry_def)
  have n4: "\<not> claims demo_mm F (c_init rg)" by (rule nc [of _ free_entry]) (simp_all add: c_init_def reg1_init live_for_def free_entry_def)
  define R where "R = (\<lambda>A B. reg_step A B \<and> \<not> claims demo_mm A B)"
  have "R A B" "R B D" "R D F" "R F (c_init rg)" using 1 2 3 4 n1 n2 n3 n4 by (simp_all add: R_def)
  then have "R\<^sup>*\<^sup>* A (c_init rg)" by (meson converse_rtranclp_into_rtranclp rtranclp.rtrancl_refl)
  then show ?thesis by (simp only: A_def R_def)
qed

theorem registry_no_lost_delete_witness:
  "reachable (demo_c1 (ring_init of_nat)) \<and> Op_add 0 demo_mm 7 ''g'' False \<in># c_ops (demo_c1 (ring_init of_nat)) \<and>
   no_live demo_mm (c_init (ring_init of_nat)) \<and> \<not> ac_is_protected_mm demo_mm (c_reg (c_init (ring_init of_nat)))"
proof -
  have "quiescent (c_init (ring_init of_nat))" by (simp add: quiescent_def c_init_def reg_init_def)
  with registry_no_lost_delete [OF demo_c1_reachable demo_mm_real(1) demo_run [of "ring_init of_nat"]]
  show ?thesis by (simp add: demo_c1_reachable) (simp add: demo_c1_def)
qed

theorem registry_notifier_safety_witness:
  "size (owners (demo_c1 (ring_init of_nat)) 0) \<le> 1 \<and> c_note (demo_c1 (ring_init of_nat)) 0 = None"
  using registry_notifier_safety [OF demo_c1_reachable, of "ring_init of_nat" 0] by (auto simp: demo_c1_def)

theorem registry_count_unique_witness:
  "unat (pr_count (c_reg (demo_c1 (ring_init of_nat)))) = card (published (c_reg (demo_c1 (ring_init of_nat)))) \<and>
   card (published (c_reg (demo_c1 (ring_init of_nat)))) \<le> 64"
  using registry_count_unique [OF demo_c1_reachable, of "ring_init of_nat"] by (simp add: AC_PROT_MAX_def)

lemma c_init_reachable: "reachable (c_init rg)"
  unfolding reachable_def by blast

theorem registry_can_finish_witness:
  "c_ops (demo_c1 (ring_init of_nat)) \<noteq> {#} \<and>
   (\<exists>n C'. n \<le> 4 \<and> (reg_step ^^ n) (demo_c1 (ring_init of_nat)) C' \<and> c_ops C' = {#} \<and> pr_release_q (c_reg C') = [] \<and> (\<forall>i < AC_PROT_MAX. settled_slot i C'))"
proof -
  have "c_ops (demo_c1 (ring_init of_nat)) \<noteq> {#}" "4 * size (c_ops (demo_c1 (ring_init of_nat))) + 3 * length (pr_release_q (c_reg (demo_c1 (ring_init of_nat)))) = 4"
    by (simp_all add: demo_c1_def reg1_def)
  then show ?thesis using registry_can_finish [OF demo_c1_reachable, of "ring_init of_nat"] by auto
qed

text \<open>C31: A call of \<^verbatim>\<open>ac_add_prot_mm\<close> that finds another registration for the same address space in flight
  returns 0 at once.  If that other registration then fails, as \<^verbatim>\<open>mmu_notifier_register\<close> may, the address space
  ends up unprotected although a call reported success and nothing removed it.\<close>

theorem add_success_may_be_unprotected:
  "\<exists>C s C'. reachable C \<and> add_claim demo_mm False (c_reg C) = (Inl 0, s) \<and> reg_step C (C\<lparr>c_reg := s\<rparr>) \<and>
     reg_step (C\<lparr>c_reg := s\<rparr>) C' \<and> quiescent C' \<and> \<not> ac_is_protected_mm demo_mm (c_reg C')"
proof -
  define rg where "rg = ring_init of_nat"
  let ?C = "demo_c1 rg"
  have same: "?C\<lparr>c_reg := reg1 rg e_claimed\<rparr> = ?C" by (simp add: demo_c1_def)
  have d: "add_claim demo_mm False (c_reg ?C) = (Inl 0, reg1 rg e_claimed)" by (simp add: demo_c1_def demo_dedupe)
  have 1: "reg_step ?C ?C" using add_returns [OF demo_mm_real(1) d] by (simp add: same)
  have 2: "reg_step ?C (c_init rg)"
    using register_fails [of 0 demo_mm 7 "''g''" False ?C "- EINTR" _ "reg1 rg free_entry"] demo_register_fails
    by (auto simp: demo_c1_def c_init_def reg1_init EINTR_def)
  have 3: "quiescent (c_init rg)" "\<not> ac_is_protected_mm demo_mm (c_reg (c_init rg))"
    by (simp_all add: quiescent_def c_init_def reg_init_def ac_is_protected_mm_def some_slot_holds_iff free_entry_def)
  from demo_c1_reachable d 1 2 3 show ?thesis
    by (intro exI [of _ ?C] exI [of _ "reg1 rg e_claimed"] exI [of _ "c_init rg"]) (simp add: same)
qed

end
