(* ===== verification/AC_Deferred.thy ===== *)
theory AC_Deferred
  imports AC_Registry "HOL-Library.Multiset"
begin

text \<open>
  Deferred registration in \<^verbatim>\<open>src/src/anticheat_module.c\<close>: the requests that the fork and exec probes
  queue (\<^verbatim>\<open>struct ac_prot_add_req\<close>), the list \<^verbatim>\<open>ac_pending_forks\<close> of fork-inherit requests that an exec may
  claim, the worker that registers them, the pins of execs in flight, and the three kretprobe handlers.

  Requests are objects shared between the probes and the worker, so they live in a heap indexed by their
  address.  The state extends the registry's.  Reference counts (\<^verbatim>\<open>mm_users\<close>) are part of the state; what
  the kernel does when the last one is dropped is a parameter.
\<close>

subsection \<open>State\<close>

definition AC_EXEC_MAXACTIVE :: nat where "AC_EXEC_MAXACTIVE = 64"
definition AC_EXEC_PIN_MAX :: nat where "AC_EXEC_PIN_MAX = 6 * AC_EXEC_MAXACTIVE"

text \<open>The completion \<^verbatim>\<open>handoff_done\<close> is a flag: signalled or not.\<close>

record ac_prot_add_req =
  rq_mm :: mm_ptr
  rq_old_mm :: mm_ptr
  rq_new_pid :: pid_t
  rq_new_comm :: string
  rq_src_pid :: pid_t
  rq_src_comm :: string
  rq_jit_allowed :: bool
  rq_claimed :: bool
  rq_handoff_done :: bool
  rq_post_mm :: mm_ptr
  rq_post_pid :: pid_t
  rq_post_comm :: string
  rq_req_id :: u32

text \<open>
  \<open>df_reqs\<close> holds the allocated requests, \<open>df_pending\<close> is \<^verbatim>\<open>ac_pending_forks\<close>, \<open>df_wq\<close> the requests whose work
  is queued on \<^verbatim>\<open>ac_wq\<close>, \<open>df_seq\<close> is \<^verbatim>\<open>ac_prot_req_seq\<close>, \<open>df_pins\<close> is \<^verbatim>\<open>ac_exec_pins\<close> and \<open>df_users mm\<close> is
  \<^verbatim>\<open>mm->mm_users\<close>.
\<close>

record ac_def = ac_reg +
  df_reqs :: "nat \<Rightarrow> ac_prot_add_req option"
  df_pending :: "nat list"
  df_wq :: "nat list"
  df_seq :: u32
  df_pins :: "mm_ptr list"
  df_users :: "mm_ptr \<Rightarrow> int"

text \<open>
  The kernel services: the notifier calls, the request pool (an address, or nothing when it is exhausted and
  the allocator fails too), the bounded wait for a completion, during which other code runs, and the teardown
  of an address space whose last user is gone, at once (\<^verbatim>\<open>mmput\<close>) or from a kernel work item
  (\<^verbatim>\<open>mmput_async\<close>).
\<close>

record 's def_ops =
  dk_mmu :: "'s mmu_ops"
  dk_mempool_alloc :: "'s \<Rightarrow> nat option"
  dk_wait_handoff :: "nat \<Rightarrow> 's \<Rightarrow> 's"
  dk_exit_mmap :: "mm_ptr \<Rightarrow> 's \<Rightarrow> 's"
  dk_exit_mmap_async :: "mm_ptr \<Rightarrow> 's \<Rightarrow> 's"

definition mmget :: "mm_ptr \<Rightarrow> 'a ac_def_scheme \<Rightarrow> 'a ac_def_scheme" where
  "mmget mm s = s\<lparr>df_users := (df_users s)(mm := df_users s mm + 1)\<rparr>"

definition drop_user :: "mm_ptr \<Rightarrow> 'a ac_def_scheme \<Rightarrow> 'a ac_def_scheme" where
  "drop_user mm s = s\<lparr>df_users := (df_users s)(mm := df_users s mm - 1)\<rparr>"

definition mmput :: "'a ac_def_scheme def_ops \<Rightarrow> mm_ptr \<Rightarrow> 'a ac_def_scheme \<Rightarrow> 'a ac_def_scheme" where
  "mmput k mm s =
     (let s1 = drop_user mm s in if df_users s1 mm = 0 then dk_exit_mmap k mm s1 else s1)"

definition mmput_async :: "'a ac_def_scheme def_ops \<Rightarrow> mm_ptr \<Rightarrow> 'a ac_def_scheme \<Rightarrow> 'a ac_def_scheme" where
  "mmput_async k mm s =
     (let s1 = drop_user mm s in if df_users s1 mm = 0 then dk_exit_mmap_async k mm s1 else s1)"

text \<open>\<^verbatim>\<open>get_task_mm\<close> takes a reference on what it returns.\<close>

definition get_task_mm :: "ktask \<Rightarrow> 'a ac_def_scheme \<Rightarrow> mm_ptr \<times> 'a ac_def_scheme" where
  "get_task_mm t s = (if tk_mm t = 0 then (0, s) else (tk_mm t, mmget (tk_mm t) s))"

text \<open>\<^verbatim>\<open>ac_add_prot_pid\<close>; \<open>comm_out\<close> is the second component of the result.\<close>

definition ac_add_prot_pid ::
  "'a ac_def_scheme def_ops \<Rightarrow> ktasks \<Rightarrow> pid_t \<Rightarrow> pid_t \<Rightarrow> bool \<Rightarrow> 'a ac_def_scheme \<Rightarrow>
     int \<times> string option \<times> 'a ac_def_scheme" where
  "ac_add_prot_pid k q pid ref_pid jit_allowed s =
     (case (if ref_pid > 0 then ac_find_task_in_ns_of q pid ref_pid else ac_find_task q pid) of
        None \<Rightarrow> (- ESRCH, None, s)
      | Some t \<Rightarrow>
          (let comm = strscpy AC_MAX_COMM (tk_comm t)
           in case get_task_mm t s of (mm, s1) \<Rightarrow>
                if mm = 0 then (- ESRCH, Some comm, s1)
                else (case ac_add_prot_mm (dk_mmu k) mm (tk_pid t) comm jit_allowed s1 of
                        (ret, s2) \<Rightarrow> (ret, Some comm, mmput k mm s2))))"

definition the_req :: "'a ac_def_scheme \<Rightarrow> nat \<Rightarrow> ac_prot_add_req" where
  "the_req s a = the (df_reqs s a)"

definition upd_req :: "nat \<Rightarrow> (ac_prot_add_req \<Rightarrow> ac_prot_add_req) \<Rightarrow> 'a ac_def_scheme \<Rightarrow> 'a ac_def_scheme" where
  "upd_req a f s = s\<lparr>df_reqs := (df_reqs s)(a \<mapsto> f (the_req s a))\<rparr>"

definition mempool_free :: "nat \<Rightarrow> 'a ac_def_scheme \<Rightarrow> 'a ac_def_scheme" where
  "mempool_free a s = s\<lparr>df_reqs := (df_reqs s)(a := None)\<rparr>"

definition emit_ev :: "u32 \<Rightarrow> pid_t \<Rightarrow> string \<Rightarrow> string \<Rightarrow> 'a ac_reg_scheme \<Rightarrow> 'a ac_reg_scheme" where
  "emit_ev ty pid comm msg s = s\<lparr>pr_ring := ac_emit ty pid (Some comm) msg (pr_ring s)\<rparr>"

subsection \<open>The worker\<close>

text \<open>
  The critical section that consumes the handoff of a claimed request: the posted address space (0 when none)
  is taken out, its pid and name replace the request's, and the request leaves \<^verbatim>\<open>ac_pending_forks\<close>.
\<close>

definition claimed_take :: "nat \<Rightarrow> 'a ac_def_scheme \<Rightarrow> mm_ptr \<times> 'a ac_def_scheme" where
  "claimed_take a s =
     (let post = rq_post_mm (the_req s a);
          s1 = upd_req a (\<lambda>r. r\<lparr>rq_post_mm := 0\<rparr>) s;
          s2 = (if post \<noteq> 0
                then upd_req a (\<lambda>r. r\<lparr>rq_new_pid := rq_post_pid r,
                                      rq_new_comm := strscpy AC_MAX_COMM (rq_post_comm r)\<rparr>) s1
                else s1)
      in (post, s2\<lparr>df_pending := remove1 a (df_pending s2)\<rparr>))"

text \<open>The branch of \<^verbatim>\<open>ac_prot_add_worker\<close> for a claimed request.\<close>

definition worker_claimed :: "'a ac_def_scheme def_ops \<Rightarrow> nat \<Rightarrow> 'a ac_def_scheme \<Rightarrow> 'a ac_def_scheme" where
  "worker_claimed k a s =
     (case claimed_take a (dk_wait_handoff k a s) of (post, s2) \<Rightarrow>
        let s5 =
          (if post \<noteq> 0 then
             (let s3 = upd_req a (\<lambda>r. r\<lparr>rq_mm := post\<rparr>) (mmput k (rq_mm (the_req s2 a)) s2);
                  r = the_req s3 a
              in case ac_add_prot_mm (dk_mmu k) (rq_mm r) (rq_new_pid r) (rq_new_comm r) (rq_jit_allowed r) s3 of
                   (ret, s4) \<Rightarrow>
                     if ret = 0 then
                       emit_ev AC_EV_FORK (rq_new_pid r) (rq_new_comm r)
                         (''child of protected pid '' @ fmt_d (rq_src_pid r) @ '' ('' @ rq_src_comm r @
                          '') exec'd before fork-inherit landed; protection transferred to the new image'') s4
                     else
                       emit_ev AC_EV_INFO (rq_new_pid r) (rq_new_comm r)
                         (''child of protected pid '' @ fmt_d (rq_src_pid r) @ '' ('' @ rq_src_comm r @
                          '') exec'd before fork-inherit landed but new image NOT protected: '' @ fmt_d ret) s4)
           else
             (let r = the_req s2 a
              in case ac_add_prot_mm (dk_mmu k) (rq_mm r) (rq_new_pid r) (rq_new_comm r) (rq_jit_allowed r) s2 of
                   (ret, s4) \<Rightarrow>
                     emit_ev AC_EV_INFO (rq_new_pid r) (rq_new_comm r)
                       (''child of protected pid '' @ fmt_d (rq_src_pid r) @ '' ('' @ rq_src_comm r @
                        '') exec handoff lost; registered pre-exec image instead (post-exec image may be unprotected): '' @
                        fmt_d ret) s4))
        in mempool_free a (mmput k (rq_mm (the_req s5 a)) s5))"

text \<open>
  The critical section after the worker's own registration: the handoff that arrived meanwhile, if any, is
  taken out and the request leaves the list.
\<close>

definition plain_take :: "nat \<Rightarrow> 'a ac_def_scheme \<Rightarrow> (mm_ptr \<times> pid_t \<times> string) \<times> 'a ac_def_scheme" where
  "plain_take a s =
     (let r = the_req s a;
          s1 = upd_req a (\<lambda>r. r\<lparr>rq_post_mm := 0\<rparr>) s
      in ((rq_post_mm r, rq_post_pid r, strscpy AC_MAX_COMM (rq_post_comm r)),
          s1\<lparr>df_pending := remove1 a (df_pending s1)\<rparr>))"

text \<open>What follows it: a handoff of another address space is registered too.\<close>

definition worker_post :: "'a ac_def_scheme def_ops \<Rightarrow> nat \<Rightarrow> 'a ac_def_scheme \<Rightarrow> 'a ac_def_scheme" where
  "worker_post k a s =
     (case plain_take a s of ((post, post_pid, post_comm), s1) \<Rightarrow>
        if post = 0 then s1
        else if post = rq_mm (the_req s1 a) then mmput k post s1
        else
          (let r = the_req s1 a
           in case ac_add_prot_mm (dk_mmu k) post post_pid post_comm (rq_jit_allowed r) s1 of
                (ret2, s2) \<Rightarrow>
                  mmput k post
                    (if ret2 = 0 then
                       emit_ev AC_EV_FORK post_pid post_comm
                         (''child of protected pid '' @ fmt_d (rq_src_pid r) @ '' ('' @ rq_src_comm r @
                          '') exec'd during fork-inherit registration; protection carried to the new image'') s2
                     else
                       emit_ev AC_EV_INFO post_pid post_comm
                         (''child of protected pid '' @ fmt_d (rq_src_pid r) @ '' ('' @ rq_src_comm r @
                          '') exec'd during fork-inherit registration but new image NOT protected: '' @ fmt_d ret2) s2)))"

text \<open>The end of an exec rekey, given the result of registering the new image.\<close>

definition worker_rekey :: "'a ac_def_scheme def_ops \<Rightarrow> ac_prot_add_req \<Rightarrow> int \<Rightarrow> 'a ac_def_scheme \<Rightarrow> 'a ac_def_scheme" where
  "worker_rekey k r ret s =
     (let still_shared = df_users s (rq_old_mm r) > 1
      in mmput k (rq_old_mm r)
           (if ret = 0 \<and> still_shared then
              emit_ev AC_EV_FORK (rq_new_pid r) (rq_new_comm r)
                (''pid '' @ fmt_d (rq_src_pid r) @
                 '' exec'd out of a protected address space still in use; new image protected, existing entry kept'') s
            else if ret = 0 then
              emit_ev AC_EV_EXEC (rq_new_pid r) (rq_new_comm r)
                (''protected pid '' @ fmt_d (rq_src_pid r) @ '' re-exec'd; protection carried to new image'')
                (ac_del_prot_mm (dk_mmu k) (rq_old_mm r) s)
            else
              emit_ev AC_EV_INFO (rq_src_pid r) (rq_src_comm r)
                (''protected pid '' @ fmt_d (rq_src_pid r) @ '' re-exec'd but NOT re-registered: '' @ fmt_d ret) s))"

text \<open>The report of a plain fork-inherit registration.\<close>

definition worker_report :: "ac_prot_add_req \<Rightarrow> int \<Rightarrow> 'a ac_def_scheme \<Rightarrow> 'a ac_def_scheme" where
  "worker_report r ret s =
     (if ret = 0 then
        emit_ev AC_EV_FORK (rq_new_pid r) (rq_new_comm r)
          (''child of protected pid '' @ fmt_d (rq_src_pid r) @ '' ('' @ rq_src_comm r @ ''); protection inherited'') s
      else
        emit_ev AC_EV_INFO (rq_new_pid r) (rq_new_comm r)
          (''child of protected pid '' @ fmt_d (rq_src_pid r) @ '' ('' @ rq_src_comm r @ '') NOT protected: '' @ fmt_d ret) s)"

definition ac_prot_add_worker :: "'a ac_def_scheme def_ops \<Rightarrow> nat \<Rightarrow> 'a ac_def_scheme \<Rightarrow> 'a ac_def_scheme" where
  "ac_prot_add_worker k a s =
     (let r = the_req s a
      in if rq_old_mm r = 0 \<and> rq_claimed r then worker_claimed k a s
         else
           (case ac_add_prot_mm (dk_mmu k) (rq_mm r) (rq_new_pid r) (rq_new_comm r) (rq_jit_allowed r) s of
              (ret, s1) \<Rightarrow>
                (let s2 = (if rq_old_mm r = 0 then worker_post k a s1 else s1);
                     s3 = (if rq_old_mm r \<noteq> 0 then worker_rekey k r ret s2 else worker_report r ret s2)
                 in mempool_free a (mmput k (rq_mm r) s3))))"

subsection \<open>Queueing a request\<close>

definition ac_schedule_prot_add_req ::
  "'a ac_def_scheme def_ops \<Rightarrow> mm_ptr \<Rightarrow> mm_ptr \<Rightarrow> pid_t \<Rightarrow> string \<Rightarrow> pid_t \<Rightarrow> string \<Rightarrow> bool \<Rightarrow>
     'a ac_def_scheme \<Rightarrow> bool \<times> 'a ac_def_scheme" where
  "ac_schedule_prot_add_req k mm old_mm new_pid new_comm src_pid src_comm jit_allowed s =
     (case dk_mempool_alloc k s of
        None \<Rightarrow>
          (let s1 = mmput_async k mm s
           in (False, if old_mm \<noteq> 0 then mmput_async k old_mm s1 else s1))
      | Some a \<Rightarrow>
          (let r = \<lparr>rq_mm = mm, rq_old_mm = old_mm, rq_new_pid = new_pid,
                    rq_new_comm = strscpy AC_MAX_COMM new_comm, rq_src_pid = src_pid,
                    rq_src_comm = strscpy AC_MAX_COMM src_comm, rq_jit_allowed = jit_allowed,
                    rq_claimed = False, rq_handoff_done = False, rq_post_mm = 0, rq_post_pid = 0,
                    rq_post_comm = [], rq_req_id = 0\<rparr>;
               s1 = (if old_mm = 0
                     then s\<lparr>df_seq := df_seq s + 1,
                            df_reqs := (df_reqs s)(a \<mapsto> r\<lparr>rq_req_id := df_seq s + 1\<rparr>),
                            df_pending := a # df_pending s\<rparr>
                     else s\<lparr>df_reqs := (df_reqs s)(a \<mapsto> r)\<rparr>)
           in (True, s1\<lparr>df_wq := df_wq s1 @ [a]\<rparr>)))"

definition ac_schedule_prot_add ::
  "'a ac_def_scheme def_ops \<Rightarrow> mm_ptr \<Rightarrow> pid_t \<Rightarrow> string \<Rightarrow> pid_t \<Rightarrow> string \<Rightarrow> bool \<Rightarrow>
     'a ac_def_scheme \<Rightarrow> bool \<times> 'a ac_def_scheme" where
  "ac_schedule_prot_add k mm new_pid new_comm parent_pid parent_comm jit_allowed s =
     ac_schedule_prot_add_req k mm 0 new_pid new_comm parent_pid parent_comm jit_allowed s"

definition ac_schedule_prot_rekey ::
  "'a ac_def_scheme def_ops \<Rightarrow> mm_ptr \<Rightarrow> mm_ptr \<Rightarrow> pid_t \<Rightarrow> string \<Rightarrow> bool \<Rightarrow>
     'a ac_def_scheme \<Rightarrow> bool \<times> 'a ac_def_scheme" where
  "ac_schedule_prot_rekey k old_mm new_mm pid comm jit_allowed s =
     ac_schedule_prot_add_req k new_mm old_mm pid comm pid comm jit_allowed s"

subsection \<open>Fork\<close>

text \<open>\<^verbatim>\<open>ac_clone_ret\<close>, given the current task and the return value of \<^verbatim>\<open>kernel_clone\<close> as it is in the register.\<close>

definition to_pid_t :: "u64 \<Rightarrow> pid_t" where
  "to_pid_t x = sint (ucast x :: u32)"

definition ac_clone_ret ::
  "'a ac_def_scheme def_ops \<Rightarrow> ktasks \<Rightarrow> ktask \<Rightarrow> u64 \<Rightarrow> 'a ac_def_scheme \<Rightarrow> 'a ac_def_scheme" where
  "ac_clone_ret k q cur rax s =
     (if sint rax \<le> 0 then s
      else if \<not> ac_is_protected_current cur s then s
      else
        (case ac_find_task q (to_pid_t rax) of
           None \<Rightarrow> s
         | Some child \<Rightarrow>
             (case get_task_mm child s of (child_mm, s1) \<Rightarrow>
                if child_mm = 0 then s1
                else if child_mm = tk_mm cur then mmput_async k child_mm s1
                else
                  (case ac_schedule_prot_add k child_mm (tk_pid child) (strscpy AC_MAX_COMM (tk_comm child)) (tk_pid cur)
                          (strscpy AC_MAX_COMM (tk_comm cur)) (ac_prot_jit_allowed_mm (tk_mm cur) s1) s1 of
                     (True, s2) \<Rightarrow> s2
                   | (False, s2) \<Rightarrow>
                       emit_ev AC_EV_INFO (tk_pid child) (strscpy AC_MAX_COMM (tk_comm child))
                         (''child of protected pid '' @ fmt_d (tk_pid cur) @ '' ('' @ strscpy AC_MAX_COMM (tk_comm cur) @
                          '') NOT protected: registration request dropped (alloc failure)'') s2))))"

subsection \<open>Exec pins\<close>

fun first_free_pin :: "mm_ptr list \<Rightarrow> nat \<Rightarrow> nat option" where
  "first_free_pin [] i = None"
| "first_free_pin (p # ps) i = (if p = 0 then Some i else first_free_pin ps (i + 1))"

definition ac_exec_pin_track :: "mm_ptr \<Rightarrow> 'a ac_def_scheme \<Rightarrow> int \<times> 'a ac_def_scheme" where
  "ac_exec_pin_track mm s =
     (case first_free_pin (df_pins s) 0 of
        Some i \<Rightarrow> (int i, s\<lparr>df_pins := (df_pins s)[i := mm]\<rparr>)
      | None \<Rightarrow> (- 1, s))"

definition ac_exec_pin_untrack :: "int \<Rightarrow> 'a ac_def_scheme \<Rightarrow> 'a ac_def_scheme" where
  "ac_exec_pin_untrack slot s = (if slot < 0 then s else s\<lparr>df_pins := (df_pins s)[nat slot := 0]\<rparr>)"

definition drop_pin :: "'a ac_def_scheme def_ops \<Rightarrow> 'a ac_def_scheme \<Rightarrow> nat \<Rightarrow> 'a ac_def_scheme" where
  "drop_pin k s i =
     (let mm = df_pins s ! i
      in if mm = 0 then s else mmput k mm (s\<lparr>df_pins := (df_pins s)[i := 0]\<rparr>))"

definition ac_exec_pins_drop_all :: "'a ac_def_scheme def_ops \<Rightarrow> 'a ac_def_scheme \<Rightarrow> 'a ac_def_scheme" where
  "ac_exec_pins_drop_all k s = foldl (drop_pin k) s [0..<AC_EXEC_PIN_MAX]"

subsection \<open>Exec\<close>

record ac_exec_entry_data =
  ed_old_mm :: mm_ptr
  ed_pin_slot :: int
  ed_fork_race_inherit :: bool
  ed_pending_req :: "nat option"
  ed_pending_id :: u32
  ed_jit_allowed :: bool
  ed_parent_pid :: pid_t
  ed_parent_comm :: string

definition claims_req :: "ktask \<Rightarrow> ac_prot_add_req \<Rightarrow> bool" where
  "claims_req cur pr \<longleftrightarrow> rq_mm pr = tk_mm cur \<and> rq_new_pid pr = tk_tgid cur \<or>
     rq_claimed pr \<and> rq_post_mm pr = tk_mm cur \<and> rq_post_pid pr = tk_tgid cur"

definition ac_exec_entry :: "ktask \<Rightarrow> 'a ac_def_scheme \<Rightarrow> ac_exec_entry_data \<times> 'a ac_def_scheme" where
  "ac_exec_entry cur s =
     (let d = \<lparr>ed_old_mm = 0, ed_pin_slot = - 1, ed_fork_race_inherit = False, ed_pending_req = None,
               ed_pending_id = 0, ed_jit_allowed = False, ed_parent_pid = 0, ed_parent_comm = []\<rparr>
      in if tk_mm cur \<noteq> 0 \<and> ac_is_protected_mm (tk_mm cur) s then
           (case ac_exec_pin_track (tk_mm cur) (mmget (tk_mm cur) s) of (slot, s1) \<Rightarrow>
              (d\<lparr>ed_old_mm := tk_mm cur, ed_pin_slot := slot\<rparr>,
               emit_ev AC_EV_INFO (tk_pid cur) (strscpy AC_MAX_COMM (tk_comm cur))
                 ''execve() invoked (path is a user pointer, not resolved)'' s1))
         else
           (case List.find (\<lambda>a. claims_req cur (the_req s a)) (df_pending s) of
              None \<Rightarrow> (d, s)
            | Some a \<Rightarrow>
                (let pr = the_req s a
                 in (d\<lparr>ed_fork_race_inherit := True, ed_pending_req := Some a, ed_pending_id := rq_req_id pr,
                       ed_jit_allowed := rq_jit_allowed pr, ed_parent_pid := rq_src_pid pr,
                       ed_parent_comm := strscpy AC_MAX_COMM (rq_src_comm pr)\<rparr>,
                     upd_req a (\<lambda>r. r\<lparr>rq_claimed := True\<rparr>) s))))"

text \<open>The claimed request is still the one on the list: same address and same generation.\<close>

definition claimed_listed :: "ac_exec_entry_data \<Rightarrow> 'a ac_def_scheme \<Rightarrow> nat option" where
  "claimed_listed d s =
     List.find (\<lambda>a. ed_pending_req d = Some a \<and> rq_req_id (the_req s a) = ed_pending_id d) (df_pending s)"

text \<open>The handoff of \<^verbatim>\<open>ac_exec_ret\<close> for an exec that claimed a request.\<close>

definition exec_handoff ::
  "'a ac_def_scheme def_ops \<Rightarrow> ktask \<Rightarrow> ac_exec_entry_data \<Rightarrow> 'a ac_def_scheme \<Rightarrow> 'a ac_def_scheme" where
  "exec_handoff k cur d s =
     (case get_task_mm cur s of (new_mm, s1) \<Rightarrow>
        if new_mm \<noteq> 0 then
          (case claimed_listed d s1 of
             Some a \<Rightarrow>
               (let drop = rq_post_mm (the_req s1 a);
                    s2 = upd_req a (\<lambda>r. r\<lparr>rq_post_mm := new_mm, rq_post_pid := tk_pid cur,
                                          rq_post_comm := strscpy AC_MAX_COMM (tk_comm cur), rq_handoff_done := True\<rparr>) s1
                in if drop \<noteq> 0 then mmput_async k drop s2 else s2)
           | None \<Rightarrow>
               (case ac_schedule_prot_add k new_mm (tk_pid cur) (strscpy AC_MAX_COMM (tk_comm cur)) (ed_parent_pid d)
                       (ed_parent_comm d) (ed_jit_allowed d) s1 of
                  (True, s2) \<Rightarrow> s2
                | (False, s2) \<Rightarrow>
                    emit_ev AC_EV_INFO (tk_pid cur) (strscpy AC_MAX_COMM (tk_comm cur))
                      (''child of protected pid '' @ fmt_d (ed_parent_pid d) @ '' ('' @ ed_parent_comm d @
                       '') exec'd but new image NOT protected: registration request dropped (alloc failure)'') s2))
        else
          (case claimed_listed d s1 of
             Some a \<Rightarrow> upd_req a (\<lambda>r. r\<lparr>rq_handoff_done := True\<rparr>) s1
           | None \<Rightarrow> s1))"

text \<open>The rest of \<^verbatim>\<open>ac_exec_ret\<close>: the exec of a protected address space, \<open>rc\<close> being the result of the system call.\<close>

definition exec_rekey ::
  "'a ac_def_scheme def_ops \<Rightarrow> ktask \<Rightarrow> int \<Rightarrow> ac_exec_entry_data \<Rightarrow> 'a ac_def_scheme \<Rightarrow> 'a ac_def_scheme" where
  "exec_rekey k cur rc d s =
     (if ed_old_mm d = 0 then s
      else
        (let s1 = ac_exec_pin_untrack (ed_pin_slot d) s
         in if rc \<noteq> 0 then mmput_async k (ed_old_mm d) s1
            else
              (case get_task_mm cur s1 of (new_mm, s2) \<Rightarrow>
                 if new_mm = 0 \<or> new_mm = ed_old_mm d then
                   (let s3 = mmput_async k (ed_old_mm d) s2
                    in if new_mm \<noteq> 0 then mmput_async k new_mm s3 else s3)
                 else
                   (case ac_schedule_prot_rekey k (ed_old_mm d) new_mm (tk_pid cur) (strscpy AC_MAX_COMM (tk_comm cur))
                           (ac_prot_jit_allowed_mm (ed_old_mm d) s2) s2 of
                      (True, s3) \<Rightarrow> s3
                    | (False, s3) \<Rightarrow>
                        emit_ev AC_EV_INFO (tk_pid cur) (strscpy AC_MAX_COMM (tk_comm cur))
                          (''protected pid '' @ fmt_d (tk_pid cur) @
                           '' re-exec'd but new image NOT protected: registration request dropped (alloc failure); old entry retained'')
                          s3))))"

definition ac_exec_ret ::
  "'a ac_def_scheme def_ops \<Rightarrow> ktask \<Rightarrow> int \<Rightarrow> ac_exec_entry_data \<Rightarrow> 'a ac_def_scheme \<Rightarrow> 'a ac_def_scheme" where
  "ac_exec_ret k cur rc d s =
     (if ed_fork_race_inherit d then exec_handoff k cur d s else exec_rekey k cur rc d s)"

subsection \<open>Frame of the registry calls\<close>

text \<open>What the kernel services do not touch: the module's own deferral state.\<close>

definition def_same :: "'a ac_def_scheme \<Rightarrow> 'a ac_def_scheme \<Rightarrow> bool" where
  "def_same s s' \<longleftrightarrow> df_reqs s' = df_reqs s \<and> df_pending s' = df_pending s \<and> df_wq s' = df_wq s \<and>
     df_seq s' = df_seq s \<and> df_pins s' = df_pins s \<and> df_users s' = df_users s"

lemma def_same_refl [simp]: "def_same s s"
  by (simp add: def_same_def)

lemma def_same_trans: "def_same s s' \<Longrightarrow> def_same s' s'' \<Longrightarrow> def_same s s''"
  by (simp add: def_same_def)

lemma def_same_reg [simp]:
  "def_same s (upd_slot i f s') = def_same s s'" "def_same s (s'\<lparr>pr_count := n\<rparr>) = def_same s s'"
  "def_same s (s'\<lparr>pr_ring := rg\<rparr>) = def_same s s'" "def_same s (s'\<lparr>pr_release_q := q\<rparr>) = def_same s s'"
  "def_same s (s'\<lparr>pr_slots := es\<rparr>) = def_same s s'" "def_same s (emit_ev ty p c m s') = def_same s s'"
  by (simp_all add: def_same_def upd_slot_def emit_ev_def)

lemma def_same_release [simp]: "def_same s (ac_mmu_release i mm s') = def_same s s'"
  by (simp add: ac_mmu_release_def Let_def)

definition def_spec :: "'a ac_def_scheme def_ops \<Rightarrow> bool" where
  "def_spec k \<longleftrightarrow> mmu_spec (dk_mmu k) \<and>
     (\<forall>s a. dk_mempool_alloc k s = Some a \<longrightarrow> df_reqs s a = None) \<and>
     (\<forall>mm s. def_same s (dk_exit_mmap k mm s)) \<and> (\<forall>mm s. def_same s (dk_exit_mmap_async k mm s))"

lemma def_specD:
  assumes "def_spec k"
  shows "mmu_spec (dk_mmu k)" and "dk_mempool_alloc k s = Some a \<Longrightarrow> df_reqs s a = None"
    and "def_same s (dk_exit_mmap k mm s)" and "def_same s (dk_exit_mmap_async k mm s)"
  using assms by (simp_all add: def_spec_def)

lemma def_same_add:
  assumes "mmu_spec mk"
  shows "def_same s (snd (ac_add_prot_mm mk mm p c j s))"
proof -
  have reg: "mk_register mk i mm s1 = (r, s2) \<Longrightarrow> s2 = s1" for i s1 r s2
    using assms by (metis mmu_spec_def snd_conv)
  have "def_same s (mk_unregister mk i mm s1) = def_same s s1" for i s1
    using assms by (simp add: mmu_spec_def)
  then show ?thesis
    by (auto simp: ac_add_prot_mm_def add_claim_def add_finish_def removing_done_def Let_def dest: reg
        split: add_scan_result.splits prod.splits sum.splits option.splits if_splits)
qed

lemma def_same_del:
  assumes "mmu_spec mk"
  shows "def_same s (ac_del_prot_mm mk mm s)"
proof -
  have "def_same s (mk_unregister mk i mm s1) = def_same s s1" for i s1
    using assms by (simp add: mmu_spec_def)
  then show ?thesis by (auto simp: ac_del_prot_mm_def del_mark_def removing_done_def split: prod.splits option.splits)
qed


lemma def_same_eqs:
  assumes "def_same s s'"
  shows "df_reqs s' = df_reqs s" "df_pending s' = df_pending s" "df_wq s' = df_wq s"
    "df_pins s' = df_pins s" "df_users s' = df_users s" "the_req s' a = the_req s a"
  using assms by (simp_all add: def_same_def the_req_def)

subsection \<open>References\<close>

text \<open>The references on \<open>x\<close> that a request owns, and all requests together.\<close>

definition owned :: "ac_prot_add_req \<Rightarrow> mm_ptr \<Rightarrow> int" where
  "owned r x = of_bool (rq_mm r = x) + of_bool (rq_old_mm r = x) + of_bool (rq_post_mm r = x)"

definition held :: "'a ac_def_scheme \<Rightarrow> mm_ptr \<Rightarrow> int" where
  "held s x = (\<Sum>a \<in> dom (df_reqs s). owned (the_req s a) x)"

definition owned_at :: "'a ac_def_scheme \<Rightarrow> nat \<Rightarrow> mm_ptr \<Rightarrow> int" where
  "owned_at s a x = (case df_reqs s a of None \<Rightarrow> 0 | Some r \<Rightarrow> owned r x)"

lemma held_at:
  assumes "finite (dom (df_reqs s))"
  shows "held s x = (\<Sum>b \<in> dom (df_reqs s) - {a}. owned (the_req s b) x) + owned_at s a x"
proof (cases "a \<in> dom (df_reqs s)")
  case True
  then show ?thesis using sum.remove [OF assms True, of "\<lambda>b. owned (the_req s b) x"]
    by (auto simp: held_def owned_at_def the_req_def)
qed (auto simp: held_def owned_at_def domIff)

lemma held_change:
  assumes fin: "finite (dom (df_reqs s))" and s': "df_reqs s' = (df_reqs s)(a := v)"
  shows "held s' x = held s x - owned_at s a x + owned_at s' a x"
proof -
  have d: "dom (df_reqs s') - {a} = dom (df_reqs s) - {a}" and f: "finite (dom (df_reqs s'))"
    using fin by (auto simp: s' split: if_splits)
  have "(\<Sum>b \<in> dom (df_reqs s') - {a}. owned (the_req s' b) x) = (\<Sum>b \<in> dom (df_reqs s) - {a}. owned (the_req s b) x)"
    unfolding d by (rule sum.cong) (auto simp: the_req_def s')
  then show ?thesis using held_at [OF fin, of x a] held_at [OF f, of x a] by simp
qed

lemma held_cong: "df_reqs s' = df_reqs s \<Longrightarrow> held s' x = held s x"
  by (simp add: held_def the_req_def)

lemma mmput_same:
  assumes "def_spec k"
  shows "def_same (drop_user mm s) (mmput k mm s)" "def_same (drop_user mm s) (mmput_async k mm s)"
  using def_specD(3,4) [OF assms] by (simp_all add: mmput_def mmput_async_def Let_def)

lemma drop_user_fields [simp]:
  "df_users (drop_user mm s) x = df_users s x - of_bool (x = mm)" "df_reqs (drop_user mm s) = df_reqs s"
  "df_pending (drop_user mm s) = df_pending s" "df_pins (drop_user mm s) = df_pins s" "the_req (drop_user mm s) a = the_req s a"
  by (simp_all add: drop_user_def the_req_def)

lemma users_drop:
  assumes "def_spec k"
  shows "df_users (mmput k mm s) x = df_users s x - of_bool (x = mm)"
    and "df_users (mmput_async k mm s) x = df_users s x - of_bool (x = mm)"
    and "df_reqs (mmput k mm s) = df_reqs s" and "df_reqs (mmput_async k mm s) = df_reqs s"
    and "df_pending (mmput k mm s) = df_pending s" and "df_pending (mmput_async k mm s) = df_pending s"
    and "df_pins (mmput k mm s) = df_pins s" and "df_pins (mmput_async k mm s) = df_pins s"
    and "the_req (mmput k mm s) a = the_req s a" and "the_req (mmput_async k mm s) a = the_req s a"
  using def_same_eqs [OF mmput_same(1) [OF assms, of mm s]] def_same_eqs [OF mmput_same(2) [OF assms, of mm s]]
  by simp_all

lemma emit_ev_fields [simp]:
  "df_users (emit_ev ty p c m s) = df_users s" "df_reqs (emit_ev ty p c m s) = df_reqs s"
  "df_pending (emit_ev ty p c m s) = df_pending s" "df_pins (emit_ev ty p c m s) = df_pins s"
  "the_req (emit_ev ty p c m s) a = the_req s a"
  by (simp_all add: emit_ev_def the_req_def)

lemma upd_req_fields [simp]:
  "df_users (upd_req a f s) = df_users s" "df_reqs (upd_req a f s) = (df_reqs s)(a \<mapsto> f (the_req s a))"
  "df_pending (upd_req a f s) = df_pending s" "df_pins (upd_req a f s) = df_pins s"
  "the_req (upd_req a f s) a = f (the_req s a)"
  by (simp_all add: upd_req_def the_req_def)

lemma mempool_free_fields [simp]:
  "df_users (mempool_free a s) = df_users s" "df_reqs (mempool_free a s) = (df_reqs s)(a := None)"
  "df_pending (mempool_free a s) = df_pending s" "df_pins (mempool_free a s) = df_pins s"
  by (simp_all add: mempool_free_def)

lemma the_req_pending [simp]: "the_req (s\<lparr>df_pending := ps\<rparr>) a = the_req s a"
  by (simp add: the_req_def)

lemma reg_fields:
  assumes "def_spec k"
  shows "df_users (snd (ac_add_prot_mm (dk_mmu k) mm p c j s)) = df_users s"
    and "df_reqs (snd (ac_add_prot_mm (dk_mmu k) mm p c j s)) = df_reqs s"
    and "df_pending (snd (ac_add_prot_mm (dk_mmu k) mm p c j s)) = df_pending s"
    and "df_pins (snd (ac_add_prot_mm (dk_mmu k) mm p c j s)) = df_pins s"
    and "the_req (snd (ac_add_prot_mm (dk_mmu k) mm p c j s)) a = the_req s a"
    and "df_users (ac_del_prot_mm (dk_mmu k) mm s) = df_users s" and "df_reqs (ac_del_prot_mm (dk_mmu k) mm s) = df_reqs s"
    and "df_pending (ac_del_prot_mm (dk_mmu k) mm s) = df_pending s" and "df_pins (ac_del_prot_mm (dk_mmu k) mm s) = df_pins s"
  using def_same_eqs [OF def_same_add [OF def_specD(1) [OF assms], of s mm p c j]]
    def_same_eqs [OF def_same_del [OF def_specD(1) [OF assms], of s mm]] by simp_all

text \<open>What a worker does to a request and to the reference counts.\<close>

lemma worker_claimed_effect:
  assumes k: "def_spec k" and x: "x \<noteq> 0" and r: "df_reqs (dk_wait_handoff k a s) a = Some r" and old: "rq_old_mm r = 0"
  shows "df_users (worker_claimed k a s) x = df_users (dk_wait_handoff k a s) x - owned r x"
    and "df_reqs (worker_claimed k a s) = (df_reqs (dk_wait_handoff k a s))(a := None)"
    and "df_pending (worker_claimed k a s) = remove1 a (df_pending (dk_wait_handoff k a s))"
    and "df_pins (worker_claimed k a s) = df_pins (dk_wait_handoff k a s)"
proof -
  have r': "the_req (dk_wait_handoff k a s) a = r" using r by (simp add: the_req_def)
  note defs = worker_claimed_def claimed_take_def Let_def case_prod_beta r' users_drop [OF k] reg_fields [OF k]
  show "df_users (worker_claimed k a s) x = df_users (dk_wait_handoff k a s) x - owned r x"
    using x old by (simp add: defs owned_def if_distrib)
  show "df_reqs (worker_claimed k a s) = (df_reqs (dk_wait_handoff k a s))(a := None)"
    by (simp add: defs)
  show "df_pending (worker_claimed k a s) = remove1 a (df_pending (dk_wait_handoff k a s))"
    by (simp add: defs)
  show "df_pins (worker_claimed k a s) = df_pins (dk_wait_handoff k a s)"
    by (simp add: defs)
qed

lemma worker_plain_effect:
  assumes k: "def_spec k" and x: "x \<noteq> 0" and r: "df_reqs s a = Some r" and old: "rq_old_mm r \<noteq> 0 \<Longrightarrow> rq_post_mm r = 0"
    and plain: "\<not> (rq_old_mm r = 0 \<and> rq_claimed r)"
  shows "df_users (ac_prot_add_worker k a s) x = df_users s x - owned r x"
    and "df_reqs (ac_prot_add_worker k a s) = (df_reqs s)(a := None)"
    and "df_pending (ac_prot_add_worker k a s) = (if rq_old_mm r = 0 then remove1 a (df_pending s) else df_pending s)"
    and "df_pins (ac_prot_add_worker k a s) = df_pins s"
proof -
  have r': "the_req s a = r" using r by (simp add: the_req_def)
  note defs = ac_prot_add_worker_def worker_post_def plain_take_def worker_rekey_def worker_report_def Let_def case_prod_beta r'
    users_drop [OF k] reg_fields [OF k]
  show "df_users (ac_prot_add_worker k a s) x = df_users s x - owned r x"
    using x old plain by (auto simp add: defs owned_def)
  show "df_reqs (ac_prot_add_worker k a s) = (df_reqs s)(a := None)"
    using plain by (auto simp add: defs)
  show "df_pending (ac_prot_add_worker k a s) = (if rq_old_mm r = 0 then remove1 a (df_pending s) else df_pending s)"
    using plain by (auto simp add: defs)
  show "df_pins (ac_prot_add_worker k a s) = df_pins s"
    using plain by (auto simp add: defs)
qed

text \<open>Well-formedness of the deferral state, and the balance of an address space: its users besides those the
  module holds, in requests and in execs in flight.\<close>

definition def_wf :: "'a ac_def_scheme \<Rightarrow> bool" where
  "def_wf s \<longleftrightarrow> finite (dom (df_reqs s)) \<and> distinct (df_pending s) \<and>
     (\<forall>a \<in> set (df_pending s). \<exists>r. df_reqs s a = Some r \<and> rq_old_mm r = 0) \<and>
     (\<forall>a r. df_reqs s a = Some r \<longrightarrow> rq_old_mm r \<noteq> 0 \<longrightarrow> rq_post_mm r = 0)"

definition balance :: "'a ac_def_scheme \<Rightarrow> mm_ptr \<Rightarrow> int" where
  "balance s x = df_users s x - held s x"

definition exec_held :: "ac_exec_entry_data multiset \<Rightarrow> mm_ptr \<Rightarrow> int" where
  "exec_held D x = (\<Sum>d \<in># D. of_bool (ed_old_mm d = x))"

lemma def_wfD:
  assumes "def_wf s"
  shows "finite (dom (df_reqs s))" and "distinct (df_pending s)"
    and "a \<in> set (df_pending s) \<Longrightarrow> \<exists>r. df_reqs s a = Some r \<and> rq_old_mm r = 0"
    and "df_reqs s a = Some r \<Longrightarrow> rq_old_mm r \<noteq> 0 \<Longrightarrow> rq_post_mm r = 0"
  using assms by (simp_all add: def_wf_def)

lemma balance_cong:
  assumes "df_reqs s' = df_reqs s" and "df_pending s' = df_pending s"
  shows "def_wf s' \<longleftrightarrow> def_wf s" and "balance s' x = df_users s' x - held s x"
  using assms held_cong [OF assms(1)] by (simp_all add: def_wf_def balance_def)

lemma free_balance:
  assumes wf: "def_wf s" and r: "df_reqs s a = Some r" and users: "df_users s' x = df_users s x - owned r x"
    and reqs: "df_reqs s' = (df_reqs s)(a := None)"
    and pend: "df_pending s' = (if rq_old_mm r = 0 then remove1 a (df_pending s) else df_pending s)"
  shows "def_wf s'" and "balance s' x = balance s x"
proof -
  have "a \<notin> set (df_pending s')"
    using def_wfD(2,3) [OF wf] r by (force simp: pend set_remove1_eq split: if_splits)
  moreover have "set (df_pending s') \<subseteq> set (df_pending s)" using set_remove1_subset [of a] by (simp add: pend)
  ultimately show "def_wf s'"
    using def_wfD [OF wf] unfolding def_wf_def by (auto simp: reqs pend distinct_remove1)
  show "balance s' x = balance s x"
    using held_change [OF def_wfD(1) [OF wf] reqs, of x] r by (simp add: balance_def users owned_at_def reqs)
qed

lemma upd_balance:
  assumes wf: "def_wf s" and r: "df_reqs s a = Some r" and reqs: "df_reqs s' = (df_reqs s)(a \<mapsto> r')"
    and pend: "df_pending s' = df_pending s" and old: "rq_old_mm r' = rq_old_mm r"
    and post: "rq_old_mm r \<noteq> 0 \<Longrightarrow> rq_post_mm r' = 0"
  shows "def_wf s'" and "balance s' x = balance s x + (df_users s' x - df_users s x) - (owned r' x - owned r x)"
proof -
  have pa: "a \<in> set (df_pending s) \<Longrightarrow> rq_old_mm r = 0" using def_wfD(3) [OF wf, of a] r by auto
  show "def_wf s'"
    unfolding def_wf_def reqs pend
  proof (intro conjI ballI allI impI)
    fix b assume "b \<in> set (df_pending s)"
    then show "\<exists>ra. ((df_reqs s)(a \<mapsto> r')) b = Some ra \<and> rq_old_mm ra = 0"
      using def_wfD(3) [OF wf, of b] pa old by (cases "b = a") auto
  next
    fix b rb assume "((df_reqs s)(a \<mapsto> r')) b = Some rb" "rq_old_mm rb \<noteq> 0"
    then show "rq_post_mm rb = 0" using def_wfD(4) [OF wf, of b rb] post old by (cases "b = a") auto
  qed (use def_wfD(1,2) [OF wf] in simp_all)
  show "balance s' x = balance s x + (df_users s' x - df_users s x) - (owned r' x - owned r x)"
    using held_change [OF def_wfD(1) [OF wf] reqs, of x] r by (simp add: balance_def owned_at_def reqs)
qed

lemma schedule_balance:
  assumes k: "def_spec k" and wf: "def_wf s" and x: "x \<noteq> 0"
  shows "def_wf (snd (ac_schedule_prot_add_req k mm old p c sp sc j s)) \<and>
    balance (snd (ac_schedule_prot_add_req k mm old p c sp sc j s)) x = balance s x - of_bool (mm = x) - of_bool (old = x)"
proof (cases "dk_mempool_alloc k s")
  case None
  let ?s = "snd (ac_schedule_prot_add_req k mm old p c sp sc j s)"
  have f: "df_reqs ?s = df_reqs s" "df_pending ?s = df_pending s"
    "df_users ?s x = df_users s x - of_bool (mm = x) - of_bool (old = x)"
    using x by (auto simp: ac_schedule_prot_add_req_def None Let_def users_drop [OF k])
  show ?thesis using balance_cong(1) [OF f(1,2)] balance_cong(2) [OF f(1,2), of x] wf by (simp add: f(3) balance_def)
next
  case (Some a)
  let ?s = "snd (ac_schedule_prot_add_req k mm old p c sp sc j s)"
  have fresh: "df_reqs s a = None" by (rule def_specD(2) [OF k Some])
  define r where "r = the_req ?s a"
  have reqs: "df_reqs ?s = (df_reqs s)(a \<mapsto> r)" and r: "rq_mm r = mm" "rq_old_mm r = old" "rq_post_mm r = 0"
    unfolding r_def the_req_def by (cases "old = 0"; simp add: ac_schedule_prot_add_req_def Some Let_def)+
  have f: "df_pending ?s = (if old = 0 then a # df_pending s else df_pending s)" "df_users ?s = df_users s"
    by (auto simp: ac_schedule_prot_add_req_def Some Let_def)
  have notin: "a \<notin> set (df_pending s)" using def_wfD(3) [OF wf] fresh by force
  have "def_wf ?s" using def_wfD [OF wf] notin r unfolding def_wf_def by (auto simp: reqs f)
  moreover have "balance ?s x = balance s x - of_bool (mm = x) - of_bool (old = x)"
    using held_change [OF def_wfD(1) [OF wf] reqs, of x] x by (simp add: balance_def f owned_at_def fresh reqs owned_def r)
  ultimately show ?thesis by blast
qed


lemma get_task_mm_fields:
  assumes "x \<noteq> 0"
  shows "fst (get_task_mm t s) = tk_mm t" and "df_users (snd (get_task_mm t s)) x = df_users s x + of_bool (tk_mm t = x)"
    and "df_reqs (snd (get_task_mm t s)) = df_reqs s" and "df_pending (snd (get_task_mm t s)) = df_pending s"
    and "the_req (snd (get_task_mm t s)) a = the_req s a" and "df_pins (snd (get_task_mm t s)) = df_pins s"
  using assms by (auto simp: get_task_mm_def mmget_def the_req_def)

lemma get_task_mm_balance:
  assumes "def_wf s" and "x \<noteq> 0"
  shows "def_wf (snd (get_task_mm t s))" and "balance (snd (get_task_mm t s)) x = balance s x + of_bool (tk_mm t = x)"
  using balance_cong(1) [OF get_task_mm_fields(3,4) [OF assms(2), of t s]]
    balance_cong(2) [OF get_task_mm_fields(3,4) [OF assms(2), of t s], of x]
  by (simp_all add: assms get_task_mm_fields balance_def)

lemma drop_balance:
  assumes "def_spec k" and "def_wf s"
  shows "def_wf (mmput k mm s)" and "def_wf (mmput_async k mm s)"
    and "balance (mmput k mm s) x = balance s x - of_bool (x = mm)" and "balance (mmput_async k mm s) x = balance s x - of_bool (x = mm)"
  using balance_cong(1) [OF users_drop(3,5) [OF assms(1)]] balance_cong(2) [OF users_drop(3,5) [OF assms(1)]]
    balance_cong(1) [OF users_drop(4,6) [OF assms(1)]] balance_cong(2) [OF users_drop(4,6) [OF assms(1)]]
  by (simp_all add: assms users_drop [OF assms(1)] balance_def)

lemma emit_balance [simp]: "def_wf (emit_ev ty p c m s) \<longleftrightarrow> def_wf s" "balance (emit_ev ty p c m s) x = balance s x"
  using balance_cong(1) [of "emit_ev ty p c m s" s] balance_cong(2) [of "emit_ev ty p c m s" s x] by (simp_all add: balance_def)

lemma pins_balance [simp]: "def_wf (s\<lparr>df_pins := ps\<rparr>) \<longleftrightarrow> def_wf s" "balance (s\<lparr>df_pins := ps\<rparr>) x = balance s x"
  "def_wf (s\<lparr>df_wq := ws\<rparr>) \<longleftrightarrow> def_wf s" "balance (s\<lparr>df_wq := ws\<rparr>) x = balance s x"
  using balance_cong(1) [of "s\<lparr>df_pins := ps\<rparr>" s] balance_cong(2) [of "s\<lparr>df_pins := ps\<rparr>" s x]
    balance_cong(1) [of "s\<lparr>df_wq := ws\<rparr>" s] balance_cong(2) [of "s\<lparr>df_wq := ws\<rparr>" s x] by (simp_all add: balance_def)

lemma clone_ret_balance:
  assumes k: "def_spec k" and wf: "def_wf s" and x: "x \<noteq> 0"
  shows "def_wf (ac_clone_ret k q cur rax s)" and "balance (ac_clone_ret k q cur rax s) x = balance s x"
proof -
  have "def_wf (ac_clone_ret k q cur rax s) \<and> balance (ac_clone_ret k q cur rax s) x = balance s x"
  proof (cases "ac_find_task q (to_pid_t rax)")
    case (Some child)
    note g = get_task_mm_balance [OF wf x, of child]
    show ?thesis
      using x by (auto simp add: ac_clone_ret_def ac_schedule_prot_add_def Some case_prod_beta schedule_balance [OF k g(1)]
          drop_balance [OF k g(1)] get_task_mm_balance [OF wf] wf get_task_mm_fields(1) [OF x] split: bool.split)
  qed (use wf in \<open>simp add: ac_clone_ret_def\<close>)
  then show "def_wf (ac_clone_ret k q cur rax s)" and "balance (ac_clone_ret k q cur rax s) x = balance s x" by simp_all
qed

lemma find_pending:
  assumes "def_wf s" and "List.find P (df_pending s) = Some a"
  shows "a \<in> set (df_pending s)" and "df_reqs s a = Some (the_req s a)" and "rq_old_mm (the_req s a) = 0" and "P a"
proof -
  show a: "a \<in> set (df_pending s)" and "P a" using assms(2) by (auto simp: find_Some_iff)
  show "df_reqs s a = Some (the_req s a)" "rq_old_mm (the_req s a) = 0" using def_wfD(3) [OF assms(1) a] by (auto simp: the_req_def)
qed

lemma exec_entry_balance:
  assumes wf: "def_wf s" and x: "x \<noteq> 0"
  shows "def_wf (snd (ac_exec_entry cur s))"
    and "balance (snd (ac_exec_entry cur s)) x = balance s x + of_bool (ed_old_mm (fst (ac_exec_entry cur s)) = x)"
    and "ed_fork_race_inherit (fst (ac_exec_entry cur s)) \<Longrightarrow> ed_old_mm (fst (ac_exec_entry cur s)) = 0"
proof -
  have t: "def_wf (snd (ac_exec_pin_track m s')) = def_wf s'" "balance (snd (ac_exec_pin_track m s')) x = balance s' x" for m and s' :: "'a ac_def_scheme"
    by (simp_all add: ac_exec_pin_track_def split: option.split)
  have g: "def_wf (mmget (tk_mm cur) s)" "balance (mmget (tk_mm cur) s) x = balance s x + of_bool (tk_mm cur = x)" if "tk_mm cur \<noteq> 0"
    using get_task_mm_balance [OF wf x, of cur] that by (simp_all add: get_task_mm_def)
  have "def_wf (snd (ac_exec_entry cur s)) \<and>
    balance (snd (ac_exec_entry cur s)) x = balance s x + of_bool (ed_old_mm (fst (ac_exec_entry cur s)) = x) \<and>
    (ed_fork_race_inherit (fst (ac_exec_entry cur s)) \<longrightarrow> ed_old_mm (fst (ac_exec_entry cur s)) = 0)"
  proof (cases "tk_mm cur \<noteq> 0 \<and> ac_is_protected_mm (tk_mm cur) s")
    case True
    then show ?thesis by (simp add: ac_exec_entry_def Let_def case_prod_beta t g)
  next
    case False
    show ?thesis
    proof (cases "List.find (\<lambda>a. claims_req cur (the_req s a)) (df_pending s)")
      case None
      with False x wf show ?thesis by (auto simp: ac_exec_entry_def Let_def)
    next
      case (Some a)
      note u = upd_balance [OF wf find_pending(2) [OF wf Some], of "upd_req a (\<lambda>r. r\<lparr>rq_claimed := True\<rparr>) s" "(the_req s a)\<lparr>rq_claimed := True\<rparr>"]
      have "def_wf (upd_req a (\<lambda>r. r\<lparr>rq_claimed := True\<rparr>) s)" "balance (upd_req a (\<lambda>r. r\<lparr>rq_claimed := True\<rparr>) s) x = balance s x"
        using u(1) u(2) [of x] find_pending(3) [OF wf Some] by (simp_all add: owned_def)
      with False x Some show ?thesis by (auto simp: ac_exec_entry_def Let_def)
    qed
  qed
  then show "def_wf (snd (ac_exec_entry cur s))"
    and "balance (snd (ac_exec_entry cur s)) x = balance s x + of_bool (ed_old_mm (fst (ac_exec_entry cur s)) = x)"
    and "ed_fork_race_inherit (fst (ac_exec_entry cur s)) \<Longrightarrow> ed_old_mm (fst (ac_exec_entry cur s)) = 0" by simp_all
qed

lemma handoff_balance:
  assumes k: "def_spec k" and wf: "def_wf s" and x: "x \<noteq> 0"
  shows "def_wf (exec_handoff k cur d s) \<and> balance (exec_handoff k cur d s) x = balance s x"
proof -
  let ?s = "snd (get_task_mm cur s)"
  note g = get_task_mm_balance [OF wf x, of cur]
  note m = get_task_mm_fields(1) [OF x, of cur s]
  show ?thesis
  proof (cases "claimed_listed d ?s")
    case None
    show ?thesis
      using x by (auto simp: exec_handoff_def ac_schedule_prot_add_def case_prod_beta None m g schedule_balance [OF k g(1)] split: bool.split)
  next
    case (Some a)
    note fp = find_pending(2,3) [OF g(1) Some [unfolded claimed_listed_def]]
    have hd: "def_wf (upd_req a (\<lambda>r. r\<lparr>rq_handoff_done := True\<rparr>) ?s) \<and> balance (upd_req a (\<lambda>r. r\<lparr>rq_handoff_done := True\<rparr>) ?s) x = balance ?s x"
      using upd_balance(1) [OF g(1) fp(1), of "upd_req a (\<lambda>r. r\<lparr>rq_handoff_done := True\<rparr>) ?s" "(the_req ?s a)\<lparr>rq_handoff_done := True\<rparr>"]
        upd_balance(2) [OF g(1) fp(1), of "upd_req a (\<lambda>r. r\<lparr>rq_handoff_done := True\<rparr>) ?s" "(the_req ?s a)\<lparr>rq_handoff_done := True\<rparr>" x] fp(2)
      by (simp add: owned_def)
    define f where "f = (\<lambda>r. r\<lparr>rq_post_mm := tk_mm cur, rq_post_pid := tk_pid cur,
      rq_post_comm := strscpy AC_MAX_COMM (tk_comm cur), rq_handoff_done := True\<rparr> :: ac_prot_add_req)"
    have po: "def_wf (upd_req a f ?s)" "balance (upd_req a f ?s) x = balance ?s x - of_bool (tk_mm cur = x) + of_bool (rq_post_mm (the_req ?s a) = x)"
      using upd_balance(1) [OF g(1) fp(1), of "upd_req a f ?s" "f (the_req ?s a)"]
        upd_balance(2) [OF g(1) fp(1), of "upd_req a f ?s" "f (the_req ?s a)" x] fp(2)
      by (simp_all add: owned_def f_def)
    show ?thesis
      using x hd by (auto simp: exec_handoff_def case_prod_beta Some m g Let_def f_def [symmetric] po drop_balance [OF k po(1)])
  qed
qed

lemma exec_ret_balance:
  assumes k: "def_spec k" and wf: "def_wf s" and x: "x \<noteq> 0" and d: "ed_fork_race_inherit d \<Longrightarrow> ed_old_mm d = 0"
  shows "def_wf (ac_exec_ret k cur rc d s) \<and> balance (ac_exec_ret k cur rc d s) x = balance s x - of_bool (ed_old_mm d = x)"
proof (cases "ed_fork_race_inherit d")
  case True
  then show ?thesis using handoff_balance [OF k wf x] d x by (simp add: ac_exec_ret_def)
next
  case False
  let ?s = "ac_exec_pin_untrack (ed_pin_slot d) s"
  have u: "def_wf ?s" "balance ?s x = balance s x" using wf by (simp_all add: ac_exec_pin_untrack_def)
  note g = get_task_mm_balance [OF u(1) x, of cur]
  show ?thesis
    using False x wf u g drop_balance(2) [OF k g(1)] drop_balance(4) [OF k g(1)]
    by (auto simp: ac_exec_ret_def exec_rekey_def Let_def case_prod_beta drop_balance [OF k] ac_schedule_prot_rekey_def
        get_task_mm_fields(1) [OF x] schedule_balance [OF k g(1)] split: bool.split)
qed

subsection \<open>Runs of the handlers and the worker\<close>

text \<open>
  Any sequence of fork returns, exec entries, exec returns and workers, together with the execs in flight.  A
  worker that finds its request claimed waits; whatever runs meanwhile is a run too, after which the request
  is still its own.
\<close>

inductive handler_run ::
  "'a ac_def_scheme def_ops \<Rightarrow> 'a ac_def_scheme \<times> ac_exec_entry_data multiset \<Rightarrow>
     'a ac_def_scheme \<times> ac_exec_entry_data multiset \<Rightarrow> bool" for k where
  run_refl: "handler_run k c c"
| run_trans: "handler_run k c c' \<Longrightarrow> handler_run k c' c'' \<Longrightarrow> handler_run k c c''"
| run_clone: "handler_run k (s, D) (ac_clone_ret k q cur rax s, D)"
| run_entry: "ac_exec_entry cur s = (d, s') \<Longrightarrow> handler_run k (s, D) (s', add_mset d D)"
| run_ret: "handler_run k (s, add_mset d D) (ac_exec_ret k cur rc d s, D)"
| run_worker: "a \<in> set (df_wq s) \<Longrightarrow> s1 = s\<lparr>df_wq := remove1 a (df_wq s)\<rparr> \<Longrightarrow> df_reqs s1 a = Some r \<Longrightarrow>
    \<not> (rq_old_mm r = 0 \<and> rq_claimed r) \<Longrightarrow> handler_run k (s, D) (ac_prot_add_worker k a s1, D)"
| run_worker_waits: "a \<in> set (df_wq s) \<Longrightarrow> s1 = s\<lparr>df_wq := remove1 a (df_wq s)\<rparr> \<Longrightarrow> df_reqs s1 a = Some r \<Longrightarrow>
    rq_old_mm r = 0 \<Longrightarrow> rq_claimed r \<Longrightarrow> handler_run k (s1, D) (dk_wait_handoff k a s1, D') \<Longrightarrow>
    df_reqs (dk_wait_handoff k a s1) a = Some r' \<Longrightarrow> rq_old_mm r' = 0 \<Longrightarrow>
    handler_run k (s, D) (ac_prot_add_worker k a s1, D')"

text \<open>The pins record exactly the execs in flight that got a slot.\<close>

definition pins_ok :: "mm_ptr list \<Rightarrow> ac_exec_entry_data multiset \<Rightarrow> bool" where
  "pins_ok ps D \<longleftrightarrow> (\<forall>d \<in># D. ed_pin_slot d < int (length ps) \<and> (ed_old_mm d = 0 \<longrightarrow> ed_pin_slot d = - 1)) \<and>
     (\<forall>i < length ps. image_mset ed_old_mm {#d \<in># D. ed_pin_slot d = int i#} = (if ps ! i = 0 then {#} else {#ps ! i#}))"

definition run_inv :: "'a ac_def_scheme \<times> ac_exec_entry_data multiset \<Rightarrow> bool" where
  "run_inv c \<longleftrightarrow> def_wf (fst c) \<and> length (df_pins (fst c)) = AC_EXEC_PIN_MAX \<and> pins_ok (df_pins (fst c)) (snd c) \<and> (\<forall>d \<in># snd c. ed_fork_race_inherit d \<longrightarrow> ed_old_mm d = 0)"

lemma first_free_pin_Some: "first_free_pin ps i = Some j \<Longrightarrow> i \<le> j \<and> j - i < length ps \<and> ps ! (j - i) = 0"
proof (induction ps arbitrary: i)
  case (Cons p ps)
  then show ?case by (fastforce split: if_splits simp: nth_Cons')
qed simp

lemma pins_ok_track:
  assumes ok: "pins_ok ps D" and j: "j < length ps" "ps ! j = 0" and d: "ed_pin_slot d = int j" "ed_old_mm d \<noteq> 0"
  shows "pins_ok (ps[j := ed_old_mm d]) (add_mset d D)"
proof -
  have "image_mset ed_old_mm {#e \<in># add_mset d D. ed_pin_slot e = int i#} =
      (if ps[j := ed_old_mm d] ! i = 0 then {#} else {#ps[j := ed_old_mm d] ! i#})" if "i < length ps" for i
    using ok j d that by (cases "i = j") (auto simp: pins_ok_def)
  then show ?thesis using ok j d by (auto simp: pins_ok_def)
qed

lemma pins_ok_untracked: "pins_ok ps D \<Longrightarrow> ed_pin_slot d = - 1 \<Longrightarrow> pins_ok ps (add_mset d D)"
  by (auto simp: pins_ok_def)

lemma pins_ok_untrack:
  assumes ok: "pins_ok ps (add_mset d D)"
  shows "pins_ok (if ed_old_mm d = 0 \<or> ed_pin_slot d < 0 then ps else ps[nat (ed_pin_slot d) := 0]) D"
proof (cases "ed_old_mm d = 0 \<or> ed_pin_slot d < 0")
  case True
  then have "ed_pin_slot d < 0" using ok by (auto simp: pins_ok_def)
  with ok True show ?thesis by (auto simp: pins_ok_def)
next
  case False
  then obtain j where j: "ed_pin_slot d = int j" by (metis nonneg_int_cases not_less)
  have ok': "i < length ps \<Longrightarrow> image_mset ed_old_mm {#e \<in># add_mset d D. ed_pin_slot e = int i#} = (if ps ! i = 0 then {#} else {#ps ! i#})" for i
    using ok by (simp add: pins_ok_def)
  have jl: "j < length ps" using ok j by (auto simp: pins_ok_def)
  have "image_mset ed_old_mm {#e \<in># D. ed_pin_slot e = int i#} = (if ps[j := 0] ! i = 0 then {#} else {#ps[j := 0] ! i#})"
    if "i < length ps" for i
    using ok' [OF that] j that by (cases "i = j") (auto split: if_splits)
  then show ?thesis using False ok j by (auto simp: pins_ok_def)
qed

lemma clone_ret_pins: "def_spec k \<Longrightarrow> df_pins (ac_clone_ret k q cur rax s) = df_pins s"
  by (auto simp: ac_clone_ret_def get_task_mm_def mmget_def ac_schedule_prot_add_def ac_schedule_prot_add_req_def
      Let_def users_drop split: option.split prod.splits bool.splits if_splits)

lemma exec_ret_pins:
  assumes "def_spec k"
  shows "df_pins (ac_exec_ret k cur rc d s) =
    (if ed_fork_race_inherit d \<or> ed_old_mm d = 0 \<or> ed_pin_slot d < 0 then df_pins s else (df_pins s)[nat (ed_pin_slot d) := 0])"
  using assms
  by (auto simp: ac_exec_ret_def exec_handoff_def exec_rekey_def get_task_mm_def mmget_def ac_schedule_prot_add_def
      ac_schedule_prot_rekey_def ac_schedule_prot_add_req_def ac_exec_pin_untrack_def
      Let_def users_drop split: option.split prod.splits bool.splits if_splits)

lemma run_inv_balance:
  assumes "handler_run k c c'" and k: "def_spec k" and "run_inv c" and x: "x \<noteq> 0"
  shows "run_inv c' \<and> balance (fst c') x - exec_held (snd c') x = balance (fst c) x - exec_held (snd c) x"
  using assms(1,3)
proof (induction rule: handler_run.induct)
  case (run_clone s D q cur rax)
  then show ?case using clone_ret_balance [OF k _ x] by (simp add: run_inv_def clone_ret_pins [OF k])
next
  case (run_entry cur s d s' D)
  have e: "d = fst (ac_exec_entry cur s)" "s' = snd (ac_exec_entry cur s)" using run_entry(1) by simp_all
  note b = exec_entry_balance [OF _ x, of s cur, folded e]
  have "pins_ok (df_pins s') (add_mset d D) \<and> length (df_pins s') = length (df_pins s)"
  proof (cases "tk_mm cur \<noteq> 0 \<and> ac_is_protected_mm (tk_mm cur) s")
    case True
    then show ?thesis
      using run_entry pins_ok_track [of "df_pins s" D _ d] pins_ok_untracked [of "df_pins s" D d] first_free_pin_Some [of "df_pins s" 0]
      by (auto simp: ac_exec_entry_def ac_exec_pin_track_def Let_def mmget_def run_inv_def split: option.splits)
  next
    case False
    then have "df_pins s' = df_pins s" "ed_pin_slot d = - 1"
      using run_entry(1) by (auto simp: ac_exec_entry_def Let_def split: option.splits)
    with run_entry(2) pins_ok_untracked show ?thesis by (simp add: run_inv_def)
  qed
  with run_entry(2) b show ?case by (simp add: run_inv_def exec_held_def)
next
  case (run_ret s d D cur rc)
  have i: "def_wf s" "pins_ok (df_pins s) (add_mset d D)" "ed_fork_race_inherit d \<longrightarrow> ed_old_mm d = 0"
    "\<forall>d \<in># D. ed_fork_race_inherit d \<longrightarrow> ed_old_mm d = 0" using run_ret by (simp_all add: run_inv_def)
  then have "pins_ok (df_pins (ac_exec_ret k cur rc d s)) D"
    using pins_ok_untrack [OF i(2)] unfolding exec_ret_pins [OF k] by (auto split: if_splits)
  moreover have "length (df_pins (ac_exec_ret k cur rc d s)) = length (df_pins s)" by (simp add: exec_ret_pins [OF k])
  ultimately show ?case using i run_ret exec_ret_balance [OF k i(1) x, of d cur rc] by (simp add: run_inv_def exec_held_def)
next
  case (run_worker a s s1 r D)
  note w = worker_plain_effect [OF k x run_worker(3) _ run_worker(4)]
  have wf: "def_wf s1" using run_worker by (simp add: run_inv_def)
  note f = free_balance [OF wf run_worker(3) w(1,2,3)]
  have "rq_old_mm r \<noteq> 0 \<Longrightarrow> rq_post_mm r = 0" by (rule def_wfD(4) [OF wf run_worker(3)])
  then show ?case using f(1) f(2) w(4) run_worker(2,5) by (simp add: run_inv_def)
next
  case (run_worker_waits a s s1 r D D' r')
  let ?w = "dk_wait_handoff k a s1"
  have IH: "run_inv (?w, D')" "balance ?w x - exec_held D' x = balance s x - exec_held D x"
    using run_worker_waits by (simp_all add: run_inv_def)
  have e: "ac_prot_add_worker k a s1 = worker_claimed k a s1"
    using run_worker_waits(3-5) by (simp add: ac_prot_add_worker_def the_req_def)
  note w = worker_claimed_effect [OF k x run_worker_waits(7,8)]
  have "def_wf ?w" using IH(1) by (simp add: run_inv_def)
  note f = free_balance [OF this run_worker_waits(7) w(1,2)]
  show ?case using f(1) f(2) w(3,4) run_worker_waits(8) IH by (simp add: run_inv_def e)
qed auto

text \<open>Dropping the recorded pins.\<close>

lemma drop_pins_prefix:
  assumes k: "def_spec k" and n: "n \<le> length (df_pins s)" and x: "x \<noteq> 0"
  shows "df_users (foldl (drop_pin k) s [0..<n]) x = df_users s x - (\<Sum>i < n. of_bool (df_pins s ! i = x)) \<and>
    df_pins (foldl (drop_pin k) s [0..<n]) = replicate n 0 @ drop n (df_pins s)"
  using n
proof (induction n)
  case (Suc n)
  let ?s = "foldl (drop_pin k) s [0..<n]"
  have IH: "df_users ?s x = df_users s x - (\<Sum>i < n. of_bool (df_pins s ! i = x))"
    "df_pins ?s = replicate n 0 @ drop n (df_pins s)" using Suc by simp_all
  have at: "df_pins ?s ! n = df_pins s ! n" "(df_pins ?s)[n := 0] = replicate (Suc n) 0 @ drop (Suc n) (df_pins s)"
    using Suc.prems by (simp_all add: IH nth_append list_update_append Cons_nth_drop_Suc [symmetric] replicate_append_same)
  have step: "foldl (drop_pin k) s [0..<Suc n] = drop_pin k ?s n" by simp
  show ?case
  proof (cases "df_pins s ! n = 0")
    case True
    then have "drop_pin k ?s n = ?s" by (simp add: drop_pin_def at(1))
    moreover have "df_pins ?s = replicate (Suc n) 0 @ drop (Suc n) (df_pins s)"
      unfolding at(2) [symmetric] using at(1) True by (metis list_update_id)
    ultimately show ?thesis unfolding step using True x IH(1) by simp
  next
    case False
    then have "df_users (drop_pin k ?s n) x = df_users ?s x - of_bool (df_pins s ! n = x)"
      "df_pins (drop_pin k ?s n) = replicate (Suc n) 0 @ drop (Suc n) (df_pins s)"
      by (auto simp: drop_pin_def Let_def at users_drop [OF k])
    then show ?thesis unfolding step using IH(1) by simp
  qed
qed simp

lemma pins_exec_held:
  assumes "\<forall>d \<in># D. ed_old_mm d = x \<longrightarrow> 0 \<le> ed_pin_slot d \<and> ed_pin_slot d < int n"
  shows "(\<Sum>i < n. int (count (image_mset ed_old_mm {#d \<in># D. ed_pin_slot d = int i#}) x)) = exec_held D x"
  using assms
proof (induction D)
  case (add d D)
  have "(\<Sum>i < n. int (count (image_mset ed_old_mm {#e \<in># add_mset d D. ed_pin_slot e = int i#}) x)) =
      (\<Sum>i < n. of_bool (ed_pin_slot d = int i \<and> ed_old_mm d = x) +
         int (count (image_mset ed_old_mm {#e \<in># D. ed_pin_slot e = int i#}) x))"
    by (rule sum.cong) auto
  also have "\<dots> = (\<Sum>i < n. of_bool (ed_pin_slot d = int i \<and> ed_old_mm d = x)) + exec_held D x"
    using add by (simp add: sum.distrib)
  also have "(\<Sum>i < n. of_bool (ed_pin_slot d = int i \<and> ed_old_mm d = x)) = (of_bool (ed_old_mm d = x) :: int)"
  proof (cases "ed_old_mm d = x")
    case True
    with add.prems obtain j where j: "ed_pin_slot d = int j" "j < n" by (auto elim!: nonneg_int_cases)
    then have "(\<Sum>i < n. of_bool (ed_pin_slot d = int i \<and> ed_old_mm d = x)) = (\<Sum>i < n. if i = j then 1 else (0 :: int))"
      using True by (intro sum.cong) auto
    then show ?thesis using j True by simp
  qed simp
  finally show ?case by (simp add: exec_held_def)
qed (simp add: exec_held_def)

text \<open>C6: References are balanced: whatever forks, execs and workers run, in any order and with any allocation
  failing, the users of an address space besides the references that requests and execs in flight own do not
  change, so the module neither leaks nor drops a reference it does not own.\<close>

theorem mm_references_balanced:
  assumes "def_spec k" and "run_inv (s, D)" and "handler_run k (s, D) (s', D')" and "x \<noteq> 0"
  shows "df_users s' x - held s' x - exec_held D' x = df_users s x - held s x - exec_held D x"
  using run_inv_balance [OF assms(3,1,2,4)] by (simp add: balance_def)

text \<open>C7: Unloading leaks no address space: after any run of the probes from a clean start, once every request is
  resolved, dropping the recorded pins restores the reference counts although execs are still in flight.\<close>

theorem unload_leaks_no_reference:
  assumes k: "def_spec k" and s0: "df_reqs s0 = Map.empty" "df_pending s0 = []" "df_pins s0 = replicate AC_EXEC_PIN_MAX 0"
    and run: "handler_run k (s0, {#}) (s, D)" and resolved: "df_reqs s = Map.empty"
    and pinned: "\<forall>d \<in># D. ed_old_mm d \<noteq> 0 \<longrightarrow> 0 \<le> ed_pin_slot d" and x: "x \<noteq> 0"
  shows "df_users (ac_exec_pins_drop_all k s) x = df_users s0 x"
proof -
  have "run_inv (s0, {#})" by (simp add: run_inv_def def_wf_def pins_ok_def s0)
  note b = run_inv_balance [OF run k this x]
  have ok: "pins_ok (df_pins s) D" and len: "length (df_pins s) = AC_EXEC_PIN_MAX" using b by (simp_all add: run_inv_def)
  have "(\<Sum>i < AC_EXEC_PIN_MAX. of_bool (df_pins s ! i = x)) =
      (\<Sum>i < AC_EXEC_PIN_MAX. int (count (image_mset ed_old_mm {#d \<in># D. ed_pin_slot d = int i#}) x))"
    using ok x by (intro sum.cong) (auto simp: pins_ok_def len)
  also have "\<dots> = exec_held D x"
    using ok pinned x by (intro pins_exec_held) (auto simp: pins_ok_def len)
  finally show ?thesis
    using drop_pins_prefix [OF k, of AC_EXEC_PIN_MAX s x] x b
    by (simp add: len ac_exec_pins_drop_all_def balance_def held_def resolved s0 exec_held_def)
qed

text \<open>A concrete instance: kernel services that succeed, and a state in which one process is protected.\<close>

definition demo_dk :: "ac_def def_ops" where
  "demo_dk = \<lparr>dk_mmu = demo_mk, dk_mempool_alloc = (\<lambda>s. if df_reqs s 0 = None then Some 0 else None),
     dk_wait_handoff = (\<lambda>a s. s), dk_exit_mmap = (\<lambda>mm s. s), dk_exit_mmap_async = (\<lambda>mm s. s)\<rparr>"

definition demo_def :: ac_def where
  "demo_def = \<lparr>pr_slots = free_entry\<lparr>pe_mm := 4096, pe_pid := 7, pe_comm := ''game''\<rparr> # replicate 63 free_entry, pr_count = 1,
     pr_ring = ring_init of_nat, pr_release_q = [], df_reqs = Map.empty, df_pending = [], df_wq = [], df_seq = 0,
     df_pins = replicate AC_EXEC_PIN_MAX 0, df_users = (\<lambda>_. 1)\<rparr>"

definition demo_cur :: ktask where
  "demo_cur = \<lparr>tk_pid = 7, tk_tgid = 7, tk_comm = ''game'', tk_mm = 4096, tk_ns = None\<rparr>"

definition demo_q :: ktasks where
  "demo_q = \<lparr>tq_find_get_pid = (\<lambda>p. if p = 8 then Some 0 else None),
     tq_get_pid_task = (\<lambda>_. Some (demo_cur\<lparr>tk_pid := 8, tk_tgid := 8, tk_mm := 8192\<rparr>)), tq_find_pid_ns = (\<lambda>_ _. None)\<rparr>"

lemma demo_dk_spec: "def_spec demo_dk"
  using demo_mk_spec by (simp add: def_spec_def demo_dk_def)

lemma demo_prot: "ac_is_protected_mm 4096 demo_def"
  by (simp add: ac_is_protected_mm_def demo_def_def)

lemma demo_run_inv: "run_inv (demo_def, {#})"
  by (simp add: run_inv_def def_wf_def pins_ok_def demo_def_def)

theorem mm_references_balanced_witness:
  "let s = ac_clone_ret demo_dk demo_q demo_cur 8 demo_def
   in df_users s 8192 = 2 \<and> df_users s 8192 - held s 8192 = 1"
proof -
  let ?s = "ac_clone_ret demo_dk demo_q demo_cur 8 demo_def"
  have "handler_run demo_dk (demo_def, {#}) (?s, {#})" by (rule run_clone)
  from mm_references_balanced [OF demo_dk_spec demo_run_inv this, of 8192]
  have "df_users ?s 8192 - held ?s 8192 = 1" by (simp add: exec_held_def held_def demo_def_def)
  moreover have "df_users ?s 8192 = 2"
    using demo_prot
    by (simp add: ac_clone_ret_def ac_is_protected_current_def demo_cur_def ac_find_task_def demo_q_def to_pid_t_def
        get_task_mm_def ac_schedule_prot_add_def ac_schedule_prot_add_req_def demo_dk_def mmget_def Let_def)
      (simp add: demo_def_def)
  ultimately show ?thesis by (simp add: Let_def)
qed

theorem unload_leaks_no_reference_witness:
  "let s = snd (ac_exec_entry demo_cur demo_def)
   in df_users s 4096 = 2 \<and> df_users (ac_exec_pins_drop_all demo_dk s) 4096 = 1"
proof -
  obtain d s where e: "ac_exec_entry demo_cur demo_def = (d, s)" by (rule prod.exhaust)
  have "AC_EXEC_PIN_MAX = Suc 383" by (simp add: AC_EXEC_PIN_MAX_def AC_EXEC_MAXACTIVE_def)
  then have "replicate AC_EXEC_PIN_MAX 0 = 0 # replicate 383 (0 :: mm_ptr)" by (metis replicate_Suc)
  then have "first_free_pin (df_pins demo_def) 0 = Some 0" by (simp add: demo_def_def)
  then have f: "ed_pin_slot d = 0" "df_reqs s = Map.empty" "df_users s 4096 = 2"
    using e demo_prot
    by (auto simp: ac_exec_entry_def demo_cur_def ac_exec_pin_track_def mmget_def Let_def)
      (simp_all add: demo_def_def)
  have "handler_run demo_dk (demo_def, {#}) (s, add_mset d {#})" by (rule run_entry [OF e])
  from unload_leaks_no_reference [OF demo_dk_spec _ _ _ this f(2), of 4096] f(1)
  have "df_users (ac_exec_pins_drop_all demo_dk s) 4096 = 1" by (simp add: demo_def_def)
  with f e show ?thesis by simp
qed

end
