(* ===== verification/AC_Probes.thy ===== *)
theory AC_Probes
  imports AC_Deferred
begin

text \<open>
  The probes of \<^verbatim>\<open>src/src/anticheat_module.c\<close>: the handlers that deny \<^verbatim>\<open>ptrace\<close> and \<^verbatim>\<open>process_vm_readv/writev\<close>
  on a protected process, the queue of kills, the poll of missed kretprobe hits, and the registration of the
  probe tables.  A handler runs on the registers at the probe and on the system call's register frame in
  kernel memory, which it reads and writes with the fault-safe accessors.
\<close>

subsection \<open>State\<close>

text \<open>
  The probe state extends the deferral state: the two denial limiters, the pids whose kill is queued on
  \<^verbatim>\<open>ac_wq\<close>, \<^verbatim>\<open>ac_kill_dropped\<close>, the registration flags and counts of the two tables, the last seen miss
  counts, the names of missing essential probes, the symbols that have a probe in the kernel, and the pids
  that were sent \<^verbatim>\<open>SIGKILL\<close>.
\<close>

record ac_probe = ac_def +
  pb_rl_ptrace :: ac_deny_rl
  pb_rl_vm :: ac_deny_rl
  pb_kills :: "pid_t list"
  pb_kill_dropped :: u32
  pb_kp_ok :: "bool list"
  pb_kp_n :: u32
  pb_kretp_ok :: "bool list"
  pb_kretp_n :: u32
  pb_last_nmissed :: "u32 list"
  pb_degraded :: "string list"
  pb_kernel :: "string list"
  pb_killed :: "pid_t list"

text \<open>
  The environment of a handler: the task lookup, the current task, the clock and its rate, the value of
  \<^verbatim>\<open>ac_policy\<close> that it reads, whether the kill pool has an element, and \<^verbatim>\<open>get_pid_task\<close> for the \<^verbatim>\<open>struct pid\<close> of a
  thread, named by its number.
\<close>

record probe_env =
  pv_tasks :: ktasks
  pv_current :: ktask
  pv_jiffies :: u64
  pv_hz :: u64
  pv_policy :: u32
  pv_kill_pool :: bool
  pv_pid_task :: "pid_t \<Rightarrow> ktask option"

text \<open>The registers at the probe, as far as the handlers use them, and kernel memory as the fault-safe accessors
  see it: a word that can be read, and whether it can be written.\<close>

record pt_regs =
  pt_ax :: u64
  pt_ip :: u64
  pt_di :: u64

record kmem =
  km_read :: "addr \<Rightarrow> u64 option"
  km_writable :: "addr \<Rightarrow> bool"

text \<open>Offsets of the fields of \<^verbatim>\<open>struct pt_regs\<close> on x86-64.\<close>

definition off_bx :: addr where "off_bx = 40"
definition off_cx :: addr where "off_cx = 88"
definition off_si :: addr where "off_si = 104"
definition off_di :: addr where "off_di = 112"

definition ac_kread :: "kmem \<Rightarrow> addr \<Rightarrow> u64 option" where
  "ac_kread mem a = km_read mem a"

definition ac_kwrite_long :: "addr \<Rightarrow> u64 \<Rightarrow> kmem \<Rightarrow> int \<times> kmem" where
  "ac_kwrite_long dst val mem =
     (if km_writable mem dst then (0, mem\<lparr>km_read := (km_read mem)(dst \<mapsto> val)\<rparr>) else (- EFAULT, mem))"

text \<open>\<open>stub\<close> is the address of \<^verbatim>\<open>ac_ret_stub\<close>.\<close>

definition ac_skip_syscall :: "addr \<Rightarrow> int \<Rightarrow> pt_regs \<Rightarrow> pt_regs" where
  "ac_skip_syscall stub err regs = regs\<lparr>pt_ax := word_of_int err, pt_ip := stub\<rparr>"

subsection \<open>Kills\<close>

definition ac_schedule_kill :: "probe_env \<Rightarrow> ktask \<Rightarrow> 'a ac_probe_scheme \<Rightarrow> 'a ac_probe_scheme" where
  "ac_schedule_kill ev victim s =
     (if pv_kill_pool ev then s\<lparr>pb_kills := pb_kills s @ [tk_pid victim]\<rparr>
      else s\<lparr>pb_kill_dropped := pb_kill_dropped s + 1\<rparr>)"

definition ac_kill_worker :: "probe_env \<Rightarrow> pid_t \<Rightarrow> 'a ac_probe_scheme \<Rightarrow> 'a ac_probe_scheme" where
  "ac_kill_worker ev pid s =
     (case pv_pid_task ev pid of
        Some t \<Rightarrow> s\<lparr>pb_killed := pb_killed s @ [tk_pid t]\<rparr>
      | None \<Rightarrow> s)"

subsection \<open>Denying ptrace\<close>

text \<open>The probes of \<^verbatim>\<open>ac_kprobes\<close>.\<close>

datatype kprobe_id = Kp_ptrace | Kp_ptrace32 | Kp_ptrace_x32 | Kp_process_vm_readv | Kp_process_vm_readv32
  | Kp_process_vm_writev | Kp_process_vm_writev32

definition PTRACE_TRACEME :: int where "PTRACE_TRACEME = 0"

definition same_thread_group :: "ktask \<Rightarrow> ktask \<Rightarrow> bool" where
  "same_thread_group t u \<longleftrightarrow> tk_tgid t = tk_tgid u"

text \<open>
  The decision of \<^verbatim>\<open>ac_ptrace_pre\<close>, given the request and the target as read from the frame: \<open>None\<close> to let the
  call pass, or the reported target, its name, and whether policy may kill the caller.
\<close>

definition ptrace_decide :: "probe_env \<Rightarrow> int \<Rightarrow> int \<Rightarrow> 'a ac_reg_scheme \<Rightarrow> (int \<times> string \<times> bool) option" where
  "ptrace_decide ev request target s =
     (if request = PTRACE_TRACEME then
        (if ac_is_protected_current (pv_current ev) s
         then Some (tk_pid (pv_current ev), strscpy AC_MAX_COMM (tk_comm (pv_current ev)), False) else None)
      else if target > 0 then
        (case ac_find_task (pv_tasks ev) (to_pid_t (word_of_int target)) of
           None \<Rightarrow> None
         | Some t \<Rightarrow>
             (if \<not> same_thread_group t (pv_current ev) \<and> ac_is_protected_task_mm t s
              then Some (target, strscpy AC_MAX_COMM (tk_comm t), True) else None))
      else None)"

definition emit_denied ::
  "u32 \<Rightarrow> string \<Rightarrow> string \<Rightarrow> pid_t \<Rightarrow> string \<Rightarrow> bool \<times> u32 \<times> ac_deny_rl \<Rightarrow> 'a ac_reg_scheme \<Rightarrow> 'a ac_reg_scheme" where
  "emit_denied ty what msg target tcomm al s =
     (case al of (ok, suppressed, rl) \<Rightarrow>
        if ok then
          emit_ev ty target tcomm msg
            (if suppressed \<noteq> 0
             then emit_ev ty target tcomm
                    (fmt_u (unat suppressed) @ '' further '' @ what @ '' denial(s) not logged (rate limit)'') s
             else s)
        else s)"

text \<open>
  \<^verbatim>\<open>ac_ptrace_pre\<close> for probe \<open>p\<close>: the value it returns to kprobes, the registers, kernel memory and the state
  afterwards.
\<close>

definition ac_ptrace_pre ::
  "addr \<Rightarrow> probe_env \<Rightarrow> kprobe_id \<Rightarrow> pt_regs \<Rightarrow> kmem \<Rightarrow> 'a ac_probe_scheme \<Rightarrow> int \<times> pt_regs \<times> kmem \<times> 'a ac_probe_scheme" where
  "ac_ptrace_pre stub ev p regs mem s =
     (let args = pt_di regs;
          is_compat = (p = Kp_ptrace32);
          cur = pv_current ev
      in case (ac_kread mem (args + (if is_compat then off_bx else off_di)),
               ac_kread mem (args + (if is_compat then off_cx else off_si))) of
           (Some request, Some target) \<Rightarrow>
             (case ptrace_decide ev (sint request) (sint target) s of
                None \<Rightarrow> (0, regs, mem, s)
              | Some (tgt, tcomm, kill) \<Rightarrow>
                  (let ccomm = strscpy AC_MAX_COMM (tk_comm cur);
                       al = ac_deny_event_allowed (pv_hz ev) (pv_jiffies ev) (pb_rl_ptrace s);
                       s1 = emit_denied AC_EV_PTRACE ''ptrace''
                              (''ptrace req '' @ fmt_d (sint request) @ '' by pid '' @ fmt_d (tk_pid cur) @ '' ('' @ ccomm @ '') DENIED'')
                              (to_pid_t (word_of_int tgt)) tcomm al (s\<lparr>pb_rl_ptrace := snd (snd al)\<rparr>);
                       killed = (kill \<and> pv_policy ev AND 1 \<noteq> 0);
                       s2 = (if killed then ac_schedule_kill ev cur s1 else s1)
                   in case ac_kwrite_long (args + (if is_compat then off_bx else off_di)) (- 1) mem of
                        (rc, mem1) \<Rightarrow>
                          if rc \<noteq> 0
                          then (1, ac_skip_syscall stub (- EIO) regs, mem1, if killed then s2 else ac_schedule_kill ev cur s2)
                          else (0, regs, mem1, s2)))
         | _ \<Rightarrow> (0, regs, mem, s))"

subsection \<open>Denying process\_vm\_readv and process\_vm\_writev\<close>

definition process_vm_decide :: "probe_env \<Rightarrow> pid_t \<Rightarrow> 'a ac_reg_scheme \<Rightarrow> string option" where
  "process_vm_decide ev target s =
     (if target \<le> 0 then None
      else
        (case ac_find_task (pv_tasks ev) target of
           None \<Rightarrow> None
         | Some t \<Rightarrow>
             (if same_thread_group t (pv_current ev) then None
              else if ac_is_protected_task_mm t s then Some (strscpy AC_MAX_COMM (tk_comm t)) else None)))"

definition ac_process_vm_pre ::
  "addr \<Rightarrow> probe_env \<Rightarrow> kprobe_id \<Rightarrow> pt_regs \<Rightarrow> kmem \<Rightarrow> 'a ac_probe_scheme \<Rightarrow> int \<times> pt_regs \<times> kmem \<times> 'a ac_probe_scheme" where
  "ac_process_vm_pre stub ev p regs mem s =
     (let args = pt_di regs;
          is_compat = (p = Kp_process_vm_readv32 \<or> p = Kp_process_vm_writev32);
          cur = pv_current ev
      in case ac_kread mem (args + (if is_compat then off_bx else off_di)) of
           None \<Rightarrow> (0, regs, mem, s)
         | Some raw_target \<Rightarrow>
             (let target = to_pid_t raw_target
              in case process_vm_decide ev target s of
                   None \<Rightarrow> (0, regs, mem, s)
                 | Some tcomm \<Rightarrow>
                     (let ccomm = strscpy AC_MAX_COMM (tk_comm cur);
                          al = ac_deny_event_allowed (pv_hz ev) (pv_jiffies ev) (pb_rl_vm s);
                          s1 = emit_denied AC_EV_PROCESS_VM ''process_vm''
                                 (''process_vm_'' @
                                  (if p = Kp_process_vm_readv32 \<or> p = Kp_process_vm_readv then ''readv'' else ''writev'') @
                                  '' by pid '' @ fmt_d (tk_pid cur) @ '' ('' @ ccomm @ '') DENIED'')
                                 target tcomm al (s\<lparr>pb_rl_vm := snd (snd al)\<rparr>);
                          killed = (pv_policy ev AND 1 \<noteq> 0);
                          s2 = (if killed then ac_schedule_kill ev cur s1 else s1)
                      in case ac_kwrite_long (args + (if is_compat then off_bx else off_di)) (- 1) mem of
                           (rc, mem1) \<Rightarrow>
                             if rc \<noteq> 0
                             then (1, ac_skip_syscall stub (- ESRCH) regs, mem1, if killed then s2 else ac_schedule_kill ev cur s2)
                             else (0, regs, mem1, s2))))"

subsection \<open>The probe tables\<close>

record kretprobe_def =
  kr_symbol :: string
  kr_maxactive :: nat
  kr_essential :: bool

record kprobe_def =
  kd_id :: kprobe_id
  kd_symbol :: string
  kd_essential :: bool

text \<open>\<open>x32\<close> is \<^verbatim>\<open>IS_ENABLED(CONFIG_X86_X32_ABI)\<close>.\<close>

definition ac_kretprobes :: "bool \<Rightarrow> kretprobe_def list" where
  "ac_kretprobes x32 =
     [\<lparr>kr_symbol = ''kernel_clone'', kr_maxactive = 128, kr_essential = True\<rparr>,
      \<lparr>kr_symbol = ''__x64_sys_execve'', kr_maxactive = AC_EXEC_MAXACTIVE, kr_essential = True\<rparr>,
      \<lparr>kr_symbol = ''__x64_sys_execveat'', kr_maxactive = AC_EXEC_MAXACTIVE, kr_essential = True\<rparr>,
      \<lparr>kr_symbol = ''__ia32_compat_sys_execve'', kr_maxactive = AC_EXEC_MAXACTIVE, kr_essential = False\<rparr>,
      \<lparr>kr_symbol = ''__ia32_compat_sys_execveat'', kr_maxactive = AC_EXEC_MAXACTIVE, kr_essential = False\<rparr>,
      \<lparr>kr_symbol = ''__x64_compat_sys_execve'', kr_maxactive = AC_EXEC_MAXACTIVE, kr_essential = x32\<rparr>,
      \<lparr>kr_symbol = ''__x64_compat_sys_execveat'', kr_maxactive = AC_EXEC_MAXACTIVE, kr_essential = x32\<rparr>]"

definition ac_kprobes :: "bool \<Rightarrow> kprobe_def list" where
  "ac_kprobes x32 =
     [\<lparr>kd_id = Kp_ptrace, kd_symbol = ''__x64_sys_ptrace'', kd_essential = True\<rparr>,
      \<lparr>kd_id = Kp_ptrace32, kd_symbol = ''__ia32_compat_sys_ptrace'', kd_essential = False\<rparr>,
      \<lparr>kd_id = Kp_ptrace_x32, kd_symbol = ''__x64_compat_sys_ptrace'', kd_essential = x32\<rparr>,
      \<lparr>kd_id = Kp_process_vm_readv, kd_symbol = ''__x64_sys_process_vm_readv'', kd_essential = True\<rparr>,
      \<lparr>kd_id = Kp_process_vm_readv32, kd_symbol = ''__ia32_sys_process_vm_readv'', kd_essential = False\<rparr>,
      \<lparr>kd_id = Kp_process_vm_writev, kd_symbol = ''__x64_sys_process_vm_writev'', kd_essential = True\<rparr>,
      \<lparr>kd_id = Kp_process_vm_writev32, kd_symbol = ''__ia32_sys_process_vm_writev'', kd_essential = False\<rparr>]"

definition missed_msg :: "kretprobe_def \<Rightarrow> u32 \<Rightarrow> string" where
  "missed_msg kr delta =
     ''kretprobe '' @ kr_symbol kr @ '' missed '' @ fmt_u (unat delta) @ '' invocation'' @
     (if delta = 1 then [] else ''s'') @ '' (maxactive='' @ fmt_u (kr_maxactive kr) @
     '' exhausted) -- affected fork/exec was not registered''"

text \<open>One iteration of \<^verbatim>\<open>ac_missed_check_worker\<close>; \<open>missed\<close> is \<^verbatim>\<open>nmissed\<close> of probe \<open>i\<close>.\<close>

definition missed_check ::
  "(nat \<Rightarrow> u32) \<Rightarrow> kretprobe_def list \<Rightarrow> 'a ac_probe_scheme \<Rightarrow> nat \<Rightarrow> 'a ac_probe_scheme" where
  "missed_check nmissed krs s i =
     (if \<not> pb_kretp_ok s ! i then s
      else
        (let missed = nmissed i; last = pb_last_nmissed s ! i
         in if missed = last then s
            else
              (let delta = missed - last;
                   s1 = s\<lparr>pb_last_nmissed := (pb_last_nmissed s)[i := missed]\<rparr>
               in if sint delta < 0 then s1
                  else if delta \<noteq> 0 then
                    emit_ev AC_EV_FORK_DROPPED (- 1) ''?'' (missed_msg (krs ! i) delta) s1
                  else s1)))"

definition ac_missed_check_worker ::
  "(nat \<Rightarrow> u32) \<Rightarrow> kretprobe_def list \<Rightarrow> 'a ac_probe_scheme \<Rightarrow> 'a ac_probe_scheme" where
  "ac_missed_check_worker nmissed krs s = foldl (missed_check nmissed krs) s [0..<length krs]"

text \<open>
  One iteration of each loop of \<^verbatim>\<open>ac_register_kprobes\<close>.  \<open>reg\<close> is \<^verbatim>\<open>register_kprobe\<close> (or \<^verbatim>\<open>register_kretprobe\<close>)
  on a symbol; on 0 the kernel has a probe there.
\<close>

definition register_one_kp ::
  "(string \<Rightarrow> int) \<Rightarrow> kprobe_def list \<Rightarrow> 'a ac_probe_scheme \<Rightarrow> nat \<Rightarrow> 'a ac_probe_scheme" where
  "register_one_kp reg kps s i =
     (let name = kd_symbol (kps ! i);
          ret = reg name;
          s1 = s\<lparr>pb_kp_ok := (pb_kp_ok s)[i := (ret = 0)],
                 pb_kernel := (if ret = 0 then pb_kernel s @ [name] else pb_kernel s)\<rparr>
      in if ret = 0 then s1\<lparr>pb_kp_n := pb_kp_n s1 + 1\<rparr>
         else if \<not> kd_essential (kps ! i) then s1
         else s1\<lparr>pb_degraded := pb_degraded s1 @ [name]\<rparr>)"

definition register_one_kretp ::
  "(string \<Rightarrow> int) \<Rightarrow> kretprobe_def list \<Rightarrow> 'a ac_probe_scheme \<Rightarrow> nat \<Rightarrow> 'a ac_probe_scheme" where
  "register_one_kretp reg krs s i =
     (let name = kr_symbol (krs ! i);
          ret = reg name;
          s1 = s\<lparr>pb_kretp_ok := (pb_kretp_ok s)[i := (ret = 0)],
                 pb_kernel := (if ret = 0 then pb_kernel s @ [name] else pb_kernel s)\<rparr>
      in if ret = 0 then s1\<lparr>pb_kretp_n := pb_kretp_n s1 + 1\<rparr>
         else if \<not> kr_essential (krs ! i) then s1
         else s1\<lparr>pb_degraded := pb_degraded s1 @ [name]\<rparr>)"

definition ac_register_kprobes ::
  "(string \<Rightarrow> int) \<Rightarrow> kprobe_def list \<Rightarrow> kretprobe_def list \<Rightarrow> 'a ac_probe_scheme \<Rightarrow> 'a ac_probe_scheme" where
  "ac_register_kprobes reg kps krs s =
     foldl (register_one_kretp reg krs)
       (foldl (register_one_kp reg kps) (s\<lparr>pb_degraded := []\<rparr>) [0..<length kps]) [0..<length krs]"

text \<open>\<^verbatim>\<open>ac_unregister_kprobes\<close>: the kernel forgets the probes that registered, then the pins left are dropped.\<close>

definition unregister_syms :: "bool list \<Rightarrow> string list \<Rightarrow> string list \<Rightarrow> string list" where
  "unregister_syms oks names ks = foldl (\<lambda>ks (ok, name). if ok then remove1 name ks else ks) ks (zip oks names)"

definition ac_unregister_kprobes ::
  "'a ac_probe_scheme def_ops \<Rightarrow> kprobe_def list \<Rightarrow> kretprobe_def list \<Rightarrow> 'a ac_probe_scheme \<Rightarrow> 'a ac_probe_scheme" where
  "ac_unregister_kprobes k kps krs s =
     (let s1 = s\<lparr>pb_kernel := unregister_syms (pb_kp_ok s) (map kd_symbol kps) (pb_kernel s), pb_kp_n := 0,
                 pb_kp_ok := replicate (length (pb_kp_ok s)) False\<rparr>;
          s2 = s1\<lparr>pb_kernel := unregister_syms (pb_kretp_ok s1) (map kr_symbol krs) (pb_kernel s1), pb_kretp_n := 0,
                  pb_kretp_ok := replicate (length (pb_kretp_ok s1)) False\<rparr>
      in ac_exec_pins_drop_all k s2)"

subsection \<open>What a denying probe promises\<close>

text \<open>
  What the caller of the probed system call gets, given the handler's result and the body of the system call,
  which returns \<open>Inl\<close> an error without any effect or \<open>Inr\<close> its effect: a non-zero handler result makes kprobes
  resume at \<^verbatim>\<open>pt_ip\<close>, which for the \<open>ret\<close> stub means that the body is skipped and \<^verbatim>\<open>pt_ax\<close> returned.
\<close>

definition probed_call :: "addr \<Rightarrow> int \<times> pt_regs \<times> kmem \<times> 's \<Rightarrow> (kmem \<Rightarrow> int + 'e) \<Rightarrow> int + 'e" where
  "probed_call stub res body =
     (case res of (ret, regs, mem, s) \<Rightarrow>
        if ret \<noteq> 0 \<and> pt_ip regs = stub then Inl (sint (pt_ax regs)) else body mem)"

locale denying_probe =
  fixes pre :: "addr \<Rightarrow> probe_env \<Rightarrow> kprobe_id \<Rightarrow> pt_regs \<Rightarrow> kmem \<Rightarrow> 's \<Rightarrow> int \<times> pt_regs \<times> kmem \<times> 's"
    and slot :: "kprobe_id \<Rightarrow> pt_regs \<Rightarrow> addr"
    and err :: int
    and hit :: "probe_env \<Rightarrow> kprobe_id \<Rightarrow> pt_regs \<Rightarrow> kmem \<Rightarrow> 's \<Rightarrow> bool"
  assumes deny: "hit ev p regs mem s \<Longrightarrow>
      (\<exists>s'. pre stub ev p regs mem s = (0, regs, mem\<lparr>km_read := (km_read mem)(slot p regs \<mapsto> - 1)\<rparr>, s')) \<or>
      (\<exists>s'. pre stub ev p regs mem s = (1, regs\<lparr>pt_ax := word_of_int err, pt_ip := stub\<rparr>, mem, s'))"
    and pass: "\<not> hit ev p regs mem s \<Longrightarrow> pre stub ev p regs mem s = (0, regs, mem, s)"
    and err: "sint (word_of_int err :: u64) = err"
begin

lemma blocked:
  assumes "hit ev p regs mem s" and "\<And>m. km_read m (slot p regs) = Some (- 1) \<Longrightarrow> body m = Inl err"
  shows "probed_call stub (pre stub ev p regs mem s) body = Inl err"
  using deny [OF assms(1), of stub] assms(2) by (auto simp: probed_call_def err)

lemma transparent:
  assumes "\<not> hit ev p regs mem s"
  shows "probed_call stub (pre stub ev p regs mem s) body = body mem" and "snd (snd (snd (pre stub ev p regs mem s))) = s"
  by (simp_all add: pass [OF assms] probed_call_def)

end

definition ptrace_slot :: "kprobe_id \<Rightarrow> pt_regs \<Rightarrow> addr" where
  "ptrace_slot p regs = pt_di regs + (if p = Kp_ptrace32 then off_bx else off_di)"

definition ptrace_hit :: "probe_env \<Rightarrow> kprobe_id \<Rightarrow> pt_regs \<Rightarrow> kmem \<Rightarrow> 'a ac_reg_scheme \<Rightarrow> bool" where
  "ptrace_hit ev p regs mem s \<longleftrightarrow>
     (case (km_read mem (ptrace_slot p regs), km_read mem (pt_di regs + (if p = Kp_ptrace32 then off_cx else off_si))) of
        (Some request, Some target) \<Rightarrow> ptrace_decide ev (sint request) (sint target) s \<noteq> None
      | _ \<Rightarrow> False)"

interpretation ptrace_deny: denying_probe ac_ptrace_pre ptrace_slot "- EIO" ptrace_hit
proof (unfold_locales, goal_cases)
  case (1 ev p regs mem s stub)
  then obtain request target d where
    "km_read mem (ptrace_slot p regs) = Some request" "km_read mem (pt_di regs + (if p = Kp_ptrace32 then off_cx else off_si)) = Some target"
    "ptrace_decide ev (sint request) (sint target) s = Some d"
    by (auto simp: ptrace_hit_def split: option.splits)
  then show ?case
    by (cases d) (auto simp: ac_ptrace_pre_def ac_kread_def ptrace_slot_def [symmetric] Let_def ac_kwrite_long_def ac_skip_syscall_def EFAULT_def)
next
  case (2 ev p regs mem s stub)
  then show ?case
    by (auto simp: ptrace_hit_def ac_ptrace_pre_def ac_kread_def ptrace_slot_def Let_def split: option.splits)
next
  case 3
  show ?case by (simp add: EIO_def)
qed

definition process_vm_slot :: "kprobe_id \<Rightarrow> pt_regs \<Rightarrow> addr" where
  "process_vm_slot p regs = pt_di regs + (if p = Kp_process_vm_readv32 \<or> p = Kp_process_vm_writev32 then off_bx else off_di)"

definition process_vm_hit :: "probe_env \<Rightarrow> kprobe_id \<Rightarrow> pt_regs \<Rightarrow> kmem \<Rightarrow> 'a ac_reg_scheme \<Rightarrow> bool" where
  "process_vm_hit ev p regs mem s \<longleftrightarrow>
     (case km_read mem (process_vm_slot p regs) of
        Some raw \<Rightarrow> process_vm_decide ev (to_pid_t raw) s \<noteq> None
      | None \<Rightarrow> False)"

interpretation process_vm_deny: denying_probe ac_process_vm_pre process_vm_slot "- ESRCH" process_vm_hit
proof (unfold_locales, goal_cases)
  case (1 ev p regs mem s stub)
  then obtain raw c where "km_read mem (process_vm_slot p regs) = Some raw" "process_vm_decide ev (to_pid_t raw) s = Some c"
    by (auto simp: process_vm_hit_def split: option.splits)
  then show ?case
    by (auto simp: ac_process_vm_pre_def ac_kread_def process_vm_slot_def [symmetric] Let_def ac_kwrite_long_def ac_skip_syscall_def EFAULT_def)
next
  case (2 ev p regs mem s stub)
  then show ?case
    by (auto simp: process_vm_hit_def ac_process_vm_pre_def ac_kread_def process_vm_slot_def Let_def split: option.splits)
next
  case 3
  show ?case by (simp add: ESRCH_def)
qed

lemma to_pid_t_sint [simp]: "to_pid_t (word_of_int (sint x)) = to_pid_t x"
  by simp

lemma emit_denied_frame [simp]:
  "pb_kills (emit_denied ty w m p c al s) = pb_kills s" "pb_kill_dropped (emit_denied ty w m p c al s) = pb_kill_dropped s"
  "pr_slots (emit_denied ty w m p c al s) = pr_slots s"
  by (simp_all add: emit_denied_def emit_ev_def split: prod.split)

text \<open>The outcome of one kill decision: queued, or counted as dropped when the pool is empty.\<close>

definition kill_accounted :: "bool \<Rightarrow> probe_env \<Rightarrow> 'a ac_probe_scheme \<Rightarrow> 'a ac_probe_scheme \<Rightarrow> bool" where
  "kill_accounted wanted ev s s' \<longleftrightarrow>
     pb_kills s' = (if wanted \<and> pv_kill_pool ev then pb_kills s @ [tk_pid (pv_current ev)] else pb_kills s) \<and>
     pb_kill_dropped s' = (if wanted \<and> \<not> pv_kill_pool ev then pb_kill_dropped s + 1 else pb_kill_dropped s)"


lemma process_vm_kills:
  assumes "km_read mem (process_vm_slot p regs) = Some raw" and "process_vm_decide ev (to_pid_t raw) s = Some c"
  shows "kill_accounted (pv_policy ev AND 1 \<noteq> 0 \<or> \<not> km_writable mem (process_vm_slot p regs)) ev s
    (snd (snd (snd (ac_process_vm_pre stub ev p regs mem s))))"
  using assms
  by (auto simp: kill_accounted_def ac_process_vm_pre_def ac_kread_def process_vm_slot_def [symmetric] Let_def ac_kwrite_long_def
      ac_schedule_kill_def EFAULT_def)


text \<open>C10: \<^verbatim>\<open>process_vm_readv\<close> and \<^verbatim>\<open>process_vm_writev\<close> of another process on a protected one have no effect: the caller
  gets \<^verbatim>\<open>-ESRCH\<close>, given that the system call fails so for pid -1; kills as for \<^verbatim>\<open>ptrace\<close>.\<close>

theorem process_vm_attack_blocked:
  assumes raw: "km_read mem (process_vm_slot p regs) = Some raw" "0 < to_pid_t raw"
    and t: "ac_find_task (pv_tasks ev) (to_pid_t raw) = Some t" "\<not> same_thread_group t (pv_current ev)" "ac_is_protected_task_mm t s"
    and body: "\<And>m. km_read m (process_vm_slot p regs) = Some (- 1) \<Longrightarrow> body m = Inl (- ESRCH)"
  shows "probed_call stub (ac_process_vm_pre stub ev p regs mem s) body = Inl (- ESRCH) \<and>
    kill_accounted (pv_policy ev AND 1 \<noteq> 0 \<or> \<not> km_writable mem (process_vm_slot p regs)) ev s
      (snd (snd (snd (ac_process_vm_pre stub ev p regs mem s))))"
proof -
  have d: "process_vm_decide ev (to_pid_t raw) s = Some (strscpy AC_MAX_COMM (tk_comm t))"
    using raw(2) t by (simp add: process_vm_decide_def)
  then have "process_vm_hit ev p regs mem s" using raw(1) by (simp add: process_vm_hit_def)
  with body process_vm_kills [OF raw(1) d, of stub] show ?thesis by (simp add: process_vm_deny.blocked)
qed

text \<open>C11: Calls that do not attack a protected process pass unchanged.  When the process that the pid argument of the call names
  does not exist, is unprotected or is in the caller's own thread group, the handler leaves registers, frame and state alone,
  whatever other processes are protected; \<^verbatim>\<open>PTRACE_TRACEME\<close> passes when the caller itself is unprotected.\<close>

theorem deny_probes_transparent:
  assumes vm: "\<And>raw t. km_read mem (process_vm_slot p regs) = Some raw \<Longrightarrow> ac_find_task (pv_tasks ev) (to_pid_t raw) = Some t \<Longrightarrow>
      same_thread_group t (pv_current ev) \<or> \<not> ac_is_protected_task_mm t s"
    and pt: "\<And>request target t. km_read mem' (ptrace_slot q regs') = Some request \<Longrightarrow> sint request \<noteq> PTRACE_TRACEME \<Longrightarrow>
      km_read mem' (pt_di regs' + (if q = Kp_ptrace32 then off_cx else off_si)) = Some target \<Longrightarrow>
      ac_find_task (pv_tasks ev) (to_pid_t target) = Some t \<Longrightarrow> same_thread_group t (pv_current ev) \<or> \<not> ac_is_protected_task_mm t s"
    and self: "\<And>request. km_read mem' (ptrace_slot q regs') = Some request \<Longrightarrow> sint request = PTRACE_TRACEME \<Longrightarrow>
      \<not> ac_is_protected_current (pv_current ev) s"
  shows "ac_process_vm_pre stub ev p regs mem s = (0, regs, mem, s) \<and> ac_ptrace_pre stub ev q regs' mem' s = (0, regs', mem', s)"
proof
  have "\<not> process_vm_hit ev p regs mem s"
    using vm by (auto simp: process_vm_hit_def process_vm_decide_def split: option.splits if_splits)
  then show "ac_process_vm_pre stub ev p regs mem s = (0, regs, mem, s)" by (rule process_vm_deny.pass)
  have "\<not> ptrace_hit ev q regs' mem' s"
  proof (cases "km_read mem' (ptrace_slot q regs')"; cases "km_read mem' (pt_di regs' + (if q = Kp_ptrace32 then off_cx else off_si))")
    fix r x
    assume rx: "km_read mem' (ptrace_slot q regs') = Some r" "km_read mem' (pt_di regs' + (if q = Kp_ptrace32 then off_cx else off_si)) = Some x"
    have "ptrace_decide ev (sint r) (sint x) s = None"
      using pt [OF rx(1) _ rx(2)] self [OF rx(1)] by (auto simp: ptrace_decide_def split: option.splits)
    then show ?thesis unfolding ptrace_hit_def rx by (simp only: option.case prod.case not_False_eq_True simp_thms)
  qed (simp_all add: ptrace_hit_def)
  then show "ac_ptrace_pre stub ev q regs' mem' s = (0, regs', mem', s)" by (rule ptrace_deny.pass)
qed

text \<open>Concrete probes: process 7 with address space 4096 is protected, process 9 is the caller.\<close>

definition demo_deny :: "u64 \<Rightarrow> probe_env" where
  "demo_deny jf = \<lparr>pv_tasks = \<lparr>tq_find_get_pid = (\<lambda>p. if p = 7 then Some 0 else None), tq_get_pid_task = (\<lambda>_. Some demo_cur),
       tq_find_pid_ns = (\<lambda>_ _. None)\<rparr>,
     pv_current = \<lparr>tk_pid = 9, tk_tgid = 9, tk_comm = ''cheat'', tk_mm = 12288, tk_ns = None\<rparr>,
     pv_jiffies = jf, pv_hz = 250, pv_policy = 1, pv_kill_pool = True, pv_pid_task = (\<lambda>_. None)\<rparr>"

definition demo_probe :: ac_probe where
  "demo_probe = ac_def.extend demo_def \<lparr>pb_rl_ptrace = deny_rl0, pb_rl_vm = deny_rl0, pb_kills = [], pb_kill_dropped = 0,
     pb_kp_ok = replicate 7 False, pb_kp_n = 0, pb_kretp_ok = replicate 7 False, pb_kretp_n = 0,
     pb_last_nmissed = replicate 7 0, pb_degraded = [], pb_kernel = [], pb_killed = []\<rparr>"

definition demo_regs :: pt_regs where "demo_regs = \<lparr>pt_ax = 0, pt_ip = 100, pt_di = 1000\<rparr>"

text \<open>A frame with the given request and target, not writable.\<close>

definition demo_mem :: "u64 \<Rightarrow> u64 \<Rightarrow> kmem" where
  "demo_mem a b = \<lparr>km_read = [1112 \<mapsto> a, 1104 \<mapsto> b], km_writable = (\<lambda>_. False)\<rparr>"

lemma demo_probe_slots: "pr_slots demo_probe = pr_slots demo_def"
  by (simp add: demo_probe_def demo_def_def ac_def.defs)

lemma demo_target_protected: "ac_is_protected_task_mm demo_cur demo_probe"
  using demo_prot by (simp add: ac_is_protected_task_mm_def demo_cur_def ac_is_protected_mm_def demo_probe_slots)

lemma demo_deny_facts:
  "ac_find_task (pv_tasks (demo_deny j)) 7 = Some demo_cur" "\<not> same_thread_group demo_cur (pv_current (demo_deny j))"
  by (simp_all add: demo_deny_def ac_find_task_def same_thread_group_def demo_cur_def)


theorem process_vm_attack_blocked_witness:
  "probed_call 4 (ac_process_vm_pre 4 (demo_deny 0) Kp_process_vm_writev demo_regs (demo_mem 7 0) demo_probe)
     (\<lambda>m. if km_read m 1112 = Some (- 1) then Inl (- ESRCH) else Inr ()) = Inl (- ESRCH)"
  using process_vm_attack_blocked [of "demo_mem 7 0" Kp_process_vm_writev demo_regs 7 "demo_deny 0" demo_cur demo_probe
      "\<lambda>m. if km_read m 1112 = Some (- 1) then Inl (- ESRCH) else Inr ()" 4]
    demo_deny_facts demo_target_protected
  by (simp add: process_vm_slot_def demo_regs_def demo_mem_def off_di_def to_pid_t_def)

text \<open>Pid 7 is protected; the calls of pid 9 on pid 5 pass.\<close>

theorem deny_probes_transparent_witness:
  "ac_is_protected_task_mm demo_cur demo_probe \<and>
   ac_process_vm_pre 4 (demo_deny 0) Kp_process_vm_readv demo_regs (demo_mem 5 5) demo_probe = (0, demo_regs, demo_mem 5 5, demo_probe) \<and>
   ac_ptrace_pre 4 (demo_deny 0) Kp_ptrace demo_regs (demo_mem 16 5) demo_probe = (0, demo_regs, demo_mem 16 5, demo_probe)"
proof -
  have n: "ac_find_task (pv_tasks (demo_deny 0)) 5 = None" by (simp add: demo_deny_def ac_find_task_def)
  have f: "to_pid_t 5 = 5" by (simp add: to_pid_t_def)
  have m: "km_read (demo_mem a b) (process_vm_slot Kp_process_vm_readv demo_regs) = Some a" "km_read (demo_mem a b) (ptrace_slot Kp_ptrace demo_regs) = Some a"
    "km_read (demo_mem a b) (pt_di demo_regs + off_si) = Some b" for a b
    by (simp_all add: demo_mem_def process_vm_slot_def ptrace_slot_def demo_regs_def off_di_def off_si_def)
  show ?thesis
    using deny_probes_transparent [of "demo_mem 5 5" Kp_process_vm_readv demo_regs "demo_deny 0" demo_probe "demo_mem 16 5" Kp_ptrace demo_regs 4]
      demo_target_protected n f m by (simp add: PTRACE_TRACEME_def)
qed

text \<open>C32: The two handlers disagree on a target register whose upper half is not clear: \<^verbatim>\<open>ac_process_vm_pre\<close> casts it
  to \<^verbatim>\<open>pid_t\<close> first, as the system calls do, and denies; \<^verbatim>\<open>ac_ptrace_pre\<close> tests the whole 64-bit value for being
  positive and lets \<^verbatim>\<open>PTRACE_ATTACH\<close> (16) on the same protected process pass.\<close>

theorem ptrace_high_bits_not_denied:
  "\<exists>(raw :: u64) ev regs stub (s :: ac_probe) t.
     to_pid_t raw = 7 \<and> ac_find_task (pv_tasks ev) (to_pid_t raw) = Some t \<and> ac_is_protected_task_mm t s \<and>
     \<not> same_thread_group t (pv_current ev) \<and>
     ac_ptrace_pre stub ev Kp_ptrace regs (demo_mem 16 raw) s = (0, regs, demo_mem 16 raw, s) \<and>
     fst (ac_process_vm_pre stub ev Kp_process_vm_readv regs (demo_mem raw 0) s) = 1"
proof (rule exI [of _ "0x8000000000000007"], rule exI [of _ "demo_deny 0"], rule exI [of _ demo_regs], rule exI [of _ 4],
    rule exI [of _ demo_probe], rule exI [of _ demo_cur], intro conjI)
  have p: "to_pid_t 0x8000000000000007 = 7" by (simp add: to_pid_t_def)
  show "to_pid_t 0x8000000000000007 = 7" "ac_is_protected_task_mm demo_cur demo_probe" "\<not> same_thread_group demo_cur (pv_current (demo_deny 0))"
    "ac_find_task (pv_tasks (demo_deny 0)) (to_pid_t 0x8000000000000007) = Some demo_cur"
    using p demo_target_protected demo_deny_facts by simp_all
  show "ac_ptrace_pre 4 (demo_deny 0) Kp_ptrace demo_regs (demo_mem 16 0x8000000000000007) demo_probe =
      (0, demo_regs, demo_mem 16 0x8000000000000007, demo_probe)"
    by (simp add: PTRACE_TRACEME_def ac_ptrace_pre_def ac_kread_def demo_regs_def demo_mem_def off_di_def off_si_def ptrace_decide_def Let_def)
  have "process_vm_decide (demo_deny 0) 7 demo_probe = Some (strscpy AC_MAX_COMM ''game'')"
    using demo_target_protected demo_deny_facts by (simp add: process_vm_decide_def) (simp add: demo_cur_def)
  then show "fst (ac_process_vm_pre 4 (demo_deny 0) Kp_process_vm_readv demo_regs (demo_mem 0x8000000000000007 0) demo_probe) = 1"
    using p by (simp add: ac_process_vm_pre_def ac_kread_def demo_regs_def demo_mem_def off_di_def Let_def ac_kwrite_long_def EFAULT_def)
qed

subsection \<open>Missed hits\<close>

lemma missed_check_fields:
  "pr_ring (missed_check nm krs s i) =
    (if pb_kretp_ok s ! i \<and> 0 < sint (nm i - pb_last_nmissed s ! i)
     then ac_emit AC_EV_FORK_DROPPED (- 1) (Some ''?'') (missed_msg (krs ! i) (nm i - pb_last_nmissed s ! i)) (pr_ring s) else pr_ring s)"
  "pb_last_nmissed (missed_check nm krs s i) = (if pb_kretp_ok s ! i then (pb_last_nmissed s)[i := nm i] else pb_last_nmissed s)"
  "pb_kretp_ok (missed_check nm krs s i) = pb_kretp_ok s"
proof -
  have *: "nm i = pb_last_nmissed s ! i \<longleftrightarrow> sint (nm i - pb_last_nmissed s ! i) = 0" by (simp add: signed_eq_0_iff)
  show "pr_ring (missed_check nm krs s i) =
    (if pb_kretp_ok s ! i \<and> 0 < sint (nm i - pb_last_nmissed s ! i)
     then ac_emit AC_EV_FORK_DROPPED (- 1) (Some ''?'') (missed_msg (krs ! i) (nm i - pb_last_nmissed s ! i)) (pr_ring s) else pr_ring s)"
    using * by (auto simp: missed_check_def Let_def emit_ev_def)
  show "pb_last_nmissed (missed_check nm krs s i) = (if pb_kretp_ok s ! i then (pb_last_nmissed s)[i := nm i] else pb_last_nmissed s)"
    "pb_kretp_ok (missed_check nm krs s i) = pb_kretp_ok s"
    by (auto simp: missed_check_def Let_def emit_ev_def)
qed

lemma missed_prefix:
  assumes "n \<le> length (pb_last_nmissed s)"
  shows "pb_last_nmissed (foldl (missed_check nm krs) s [0..<n]) =
      map (\<lambda>i. if pb_kretp_ok s ! i then nm i else pb_last_nmissed s ! i) [0..<n] @ drop n (pb_last_nmissed s) \<and>
    pr_ring (foldl (missed_check nm krs) s [0..<n]) =
      foldl (\<lambda>rg i. ac_emit AC_EV_FORK_DROPPED (- 1) (Some ''?'') (missed_msg (krs ! i) (nm i - pb_last_nmissed s ! i)) rg) (pr_ring s)
        (filter (\<lambda>i. pb_kretp_ok s ! i \<and> 0 < sint (nm i - pb_last_nmissed s ! i)) [0..<n]) \<and>
    pb_kretp_ok (foldl (missed_check nm krs) s [0..<n]) = pb_kretp_ok s"
  using assms
proof (induction n)
  case (Suc n)
  let ?s = "foldl (missed_check nm krs) s [0..<n]"
  have n: "n < length (pb_last_nmissed s)" using Suc.prems by simp
  have IH: "pb_last_nmissed ?s = map (\<lambda>i. if pb_kretp_ok s ! i then nm i else pb_last_nmissed s ! i) [0..<n] @ drop n (pb_last_nmissed s)"
    "pr_ring ?s = foldl (\<lambda>rg i. ac_emit AC_EV_FORK_DROPPED (- 1) (Some ''?'') (missed_msg (krs ! i) (nm i - pb_last_nmissed s ! i)) rg) (pr_ring s)
        (filter (\<lambda>i. pb_kretp_ok s ! i \<and> 0 < sint (nm i - pb_last_nmissed s ! i)) [0..<n])"
    "pb_kretp_ok ?s = pb_kretp_ok s" using Suc by simp_all
  have at: "pb_last_nmissed ?s ! n = pb_last_nmissed s ! n" using n by (simp add: IH nth_append)
  have upd: "(pb_last_nmissed ?s)[n := x] = map (\<lambda>i. if pb_kretp_ok s ! i then nm i else pb_last_nmissed s ! i) [0..<n] @ x # drop (Suc n) (pb_last_nmissed s)" for x
    using n by (simp add: IH(1) list_update_append Cons_nth_drop_Suc [symmetric])
  have st: "foldl (missed_check nm krs) s [0..<Suc n] = missed_check nm krs ?s n" by simp
  show ?case
    unfolding st missed_check_fields at IH(3)
  proof (intro conjI)
    show "(if pb_kretp_ok s ! n then (pb_last_nmissed ?s)[n := nm n] else pb_last_nmissed ?s) =
        map (\<lambda>i. if pb_kretp_ok s ! i then nm i else pb_last_nmissed s ! i) [0..<Suc n] @ drop (Suc n) (pb_last_nmissed s)"
      using upd [of "nm n"] n by (simp add: IH(1) Cons_nth_drop_Suc [symmetric])
  qed (simp_all add: IH(2))
qed simp

lemma small_step_u32:
  fixes a :: u32
  assumes "0 < n" and "n < 2 ^ 31"
  shows "unat (a + of_nat n - a) = n" and "0 < sint (a + of_nat n - a)"
proof -
  have u: "unat (of_nat n :: u32) = n" using assms by (simp add: unat_of_nat take_bit_nat_eq_self)
  then show "unat (a + of_nat n - a) = n" by simp
  have "sint (of_nat n :: u32) = int n" using assms by (simp add: signed_of_nat signed_take_bit_int_eq_self)
  then show "0 < sint (a + of_nat n - a)" using assms by simp
qed

text \<open>The poll of missed kretprobe hits reports every forward step: each registered probe's baseline becomes its
  current count, and exactly the probes whose 32-bit counter moved forward by less than \<open>2^31\<close>, across a wrap
  too, are reported with the number of misses; a counter that went back is only rebased.\<close>

theorem missed_hits_reported:
  assumes len: "length (pb_last_nmissed s) = length krs"
  shows "pb_last_nmissed (ac_missed_check_worker nm krs s) =
      map (\<lambda>i. if pb_kretp_ok s ! i then nm i else pb_last_nmissed s ! i) [0..<length krs] \<and>
    pr_ring (ac_missed_check_worker nm krs s) =
      foldl (\<lambda>rg i. ac_emit AC_EV_FORK_DROPPED (- 1) (Some ''?'') (missed_msg (krs ! i) (nm i - pb_last_nmissed s ! i)) rg) (pr_ring s)
        (filter (\<lambda>i. pb_kretp_ok s ! i \<and> 0 < sint (nm i - pb_last_nmissed s ! i)) [0..<length krs]) \<and>
    (\<forall>i n. 0 < n \<longrightarrow> n < 2 ^ 31 \<longrightarrow> nm i = pb_last_nmissed s ! i + of_nat n \<longrightarrow>
       unat (nm i - pb_last_nmissed s ! i) = n \<and> 0 < sint (nm i - pb_last_nmissed s ! i))"
proof (intro conjI allI impI)
  note p = missed_prefix [of "length krs" s nm krs]
  show "pb_last_nmissed (ac_missed_check_worker nm krs s) =
      map (\<lambda>i. if pb_kretp_ok s ! i then nm i else pb_last_nmissed s ! i) [0..<length krs]"
    using p len by (simp add: ac_missed_check_worker_def)
  show "pr_ring (ac_missed_check_worker nm krs s) =
      foldl (\<lambda>rg i. ac_emit AC_EV_FORK_DROPPED (- 1) (Some ''?'') (missed_msg (krs ! i) (nm i - pb_last_nmissed s ! i)) rg) (pr_ring s)
        (filter (\<lambda>i. pb_kretp_ok s ! i \<and> 0 < sint (nm i - pb_last_nmissed s ! i)) [0..<length krs])"
    using p len by (simp add: ac_missed_check_worker_def)
  fix i n assume n: "0 < n" "n < (2 :: nat) ^ 31" and eq: "nm i = pb_last_nmissed s ! i + of_nat n"
  show "unat (nm i - pb_last_nmissed s ! i) = n" "0 < sint (nm i - pb_last_nmissed s ! i)"
    unfolding eq by (rule small_step_u32 [OF n])+
qed

subsection \<open>Registration of the tables\<close>

lemma register_kp_prefix:
  fixes reg :: "string \<Rightarrow> int"
  assumes "n \<le> length kps" and "n \<le> length (pb_kp_ok s)"
  defines "ok \<equiv> \<lambda>p. reg (kd_symbol p) = 0"
  shows "pb_kp_ok (foldl (register_one_kp reg kps) s [0..<n]) = map ok (take n kps) @ drop n (pb_kp_ok s) \<and>
    pb_kernel (foldl (register_one_kp reg kps) s [0..<n]) = pb_kernel s @ map kd_symbol (filter ok (take n kps)) \<and>
    pb_degraded (foldl (register_one_kp reg kps) s [0..<n]) =
      pb_degraded s @ map kd_symbol (filter (\<lambda>p. kd_essential p \<and> \<not> ok p) (take n kps)) \<and>
    pb_kretp_ok (foldl (register_one_kp reg kps) s [0..<n]) = pb_kretp_ok s"
  using assms(1,2)
proof (induction n)
  case (Suc n)
  then have "n < length kps" "n < length (pb_kp_ok s)" by simp_all
  with Suc show ?case
    by (auto simp: register_one_kp_def Let_def ok_def list_update_append take_Suc_conv_app_nth Cons_nth_drop_Suc [symmetric])
qed simp

lemma register_kretp_prefix:
  fixes reg :: "string \<Rightarrow> int"
  assumes "n \<le> length krs" and "n \<le> length (pb_kretp_ok s)"
  defines "ok \<equiv> \<lambda>p. reg (kr_symbol p) = 0"
  shows "pb_kretp_ok (foldl (register_one_kretp reg krs) s [0..<n]) = map ok (take n krs) @ drop n (pb_kretp_ok s) \<and>
    pb_kernel (foldl (register_one_kretp reg krs) s [0..<n]) = pb_kernel s @ map kr_symbol (filter ok (take n krs)) \<and>
    pb_degraded (foldl (register_one_kretp reg krs) s [0..<n]) =
      pb_degraded s @ map kr_symbol (filter (\<lambda>p. kr_essential p \<and> \<not> ok p) (take n krs)) \<and>
    pb_kp_ok (foldl (register_one_kretp reg krs) s [0..<n]) = pb_kp_ok s"
  using assms(1,2)
proof (induction n)
  case (Suc n)
  then have "n < length krs" "n < length (pb_kretp_ok s)" by simp_all
  with Suc show ?case
    by (auto simp: register_one_kretp_def Let_def ok_def list_update_append take_Suc_conv_app_nth Cons_nth_drop_Suc [symmetric])
qed simp

lemma unregister_registered: "unregister_syms (map P xs) (map f xs) (map f (filter P xs) @ ys) = ys"
  unfolding unregister_syms_def by (induction xs) auto

lemma registered_state:
  assumes len: "length (pb_kp_ok s) = length kps" "length (pb_kretp_ok s) = length krs"
  shows "pb_kp_ok (ac_register_kprobes reg kps krs s) = map (\<lambda>p. reg (kd_symbol p) = 0) kps"
    and "pb_kretp_ok (ac_register_kprobes reg kps krs s) = map (\<lambda>p. reg (kr_symbol p) = 0) krs"
    and "pb_kernel (ac_register_kprobes reg kps krs s) = pb_kernel s @ map kd_symbol (filter (\<lambda>p. reg (kd_symbol p) = 0) kps) @
        map kr_symbol (filter (\<lambda>p. reg (kr_symbol p) = 0) krs)"
    and "pb_degraded (ac_register_kprobes reg kps krs s) =
        map kd_symbol (filter (\<lambda>p. kd_essential p \<and> reg (kd_symbol p) \<noteq> 0) kps) @
        map kr_symbol (filter (\<lambda>p. kr_essential p \<and> reg (kr_symbol p) \<noteq> 0) krs)"
proof -
  let ?s1 = "foldl (register_one_kp reg kps) (s\<lparr>pb_degraded := []\<rparr>) [0..<length kps]"
  note a = register_kp_prefix [of "length kps" kps "s\<lparr>pb_degraded := []\<rparr>" reg]
  note b = register_kretp_prefix [of "length krs" krs ?s1 reg]
  show "pb_kp_ok (ac_register_kprobes reg kps krs s) = map (\<lambda>p. reg (kd_symbol p) = 0) kps"
    "pb_kretp_ok (ac_register_kprobes reg kps krs s) = map (\<lambda>p. reg (kr_symbol p) = 0) krs"
    "pb_kernel (ac_register_kprobes reg kps krs s) = pb_kernel s @ map kd_symbol (filter (\<lambda>p. reg (kd_symbol p) = 0) kps) @
        map kr_symbol (filter (\<lambda>p. reg (kr_symbol p) = 0) krs)"
    "pb_degraded (ac_register_kprobes reg kps krs s) =
        map kd_symbol (filter (\<lambda>p. kd_essential p \<and> reg (kd_symbol p) \<noteq> 0) kps) @
        map kr_symbol (filter (\<lambda>p. kr_essential p \<and> reg (kr_symbol p) \<noteq> 0) krs)"
    using a b len by (simp_all add: ac_register_kprobes_def)
qed

theorem missed_hits_reported_witness:
  "pb_last_nmissed (ac_missed_check_worker (\<lambda>i. 3) (ac_kretprobes True) (demo_probe\<lparr>pb_kretp_ok := True # replicate 6 False\<rparr>)) =
     [3, 0, 0, 0, 0, 0, 0]"
  using missed_hits_reported [of "demo_probe\<lparr>pb_kretp_ok := True # replicate 6 False\<rparr>" "ac_kretprobes True" "\<lambda>i. 3"]
  by (simp add: demo_probe_def ac_def.defs ac_kretprobes_def upt_conv_Cons)

lemma drop_pins_kernel:
  assumes "\<And>mm s. pb_kernel (dk_exit_mmap k mm s) = pb_kernel s"
  shows "pb_kernel (ac_exec_pins_drop_all k s) = pb_kernel s"
proof -
  have "pb_kernel (foldl (drop_pin k) s is) = pb_kernel s" for "is"
    using assms by (induction "is" arbitrary: s) (simp_all add: drop_pin_def mmput_def drop_user_def Let_def)
  then show ?thesis by (simp add: ac_exec_pins_drop_all_def)
qed

text \<open>Loading attaches what the kernel offers and reports exactly what is missing: a probe is marked registered
  if and only if the kernel took it, the names reported as degraded are the essential probes it refused, in
  table order, and unloading removes every probe that was attached and no other.\<close>

theorem probes_registered_and_removed:
  assumes len: "length (pb_kp_ok s) = length (ac_kprobes x32)" "length (pb_kretp_ok s) = length (ac_kretprobes x32)"
    and ker: "pb_kernel s = []" and ex: "\<And>mm s. pb_kernel (dk_exit_mmap k mm s) = pb_kernel s"
    and s1: "s1 = ac_register_kprobes reg (ac_kprobes x32) (ac_kretprobes x32) s"
  shows "pb_kp_ok s1 = map (\<lambda>p. reg (kd_symbol p) = 0) (ac_kprobes x32) \<and>
    pb_kretp_ok s1 = map (\<lambda>p. reg (kr_symbol p) = 0) (ac_kretprobes x32) \<and>
    set (pb_kernel s1) = {n \<in> set (map kd_symbol (ac_kprobes x32)) \<union> set (map kr_symbol (ac_kretprobes x32)). reg n = 0} \<and>
    pb_degraded s1 = map kd_symbol (filter (\<lambda>p. kd_essential p \<and> reg (kd_symbol p) \<noteq> 0) (ac_kprobes x32)) @
      map kr_symbol (filter (\<lambda>p. kr_essential p \<and> reg (kr_symbol p) \<noteq> 0) (ac_kretprobes x32)) \<and>
    pb_kernel (ac_unregister_kprobes k (ac_kprobes x32) (ac_kretprobes x32) s1) = []"
proof (intro conjI)
  note r = registered_state [OF len, of reg, folded s1]
  show "pb_kernel (ac_unregister_kprobes k (ac_kprobes x32) (ac_kretprobes x32) s1) = []"
    using unregister_registered [of "\<lambda>p. reg (kr_symbol p) = 0" "ac_kretprobes x32" kr_symbol "[]"]
    by (simp add: ac_unregister_kprobes_def Let_def drop_pins_kernel [OF ex] r ker unregister_registered)
  show "set (pb_kernel s1) = {n \<in> set (map kd_symbol (ac_kprobes x32)) \<union> set (map kr_symbol (ac_kretprobes x32)). reg n = 0}"
    by (auto simp: r(3) ker)
qed (fact registered_state [OF len, of reg, folded s1])+

definition demo_pk :: "ac_probe def_ops" where
  "demo_pk = \<lparr>dk_mmu = demo_mk, dk_mempool_alloc = (\<lambda>s. None), dk_wait_handoff = (\<lambda>a s. s),
     dk_exit_mmap = (\<lambda>mm s. s), dk_exit_mmap_async = (\<lambda>mm s. s)\<rparr>"

theorem probes_registered_and_removed_witness:
  "pb_degraded (ac_register_kprobes (\<lambda>n. if n = ''__x64_sys_ptrace'' \<or> n = ''__ia32_compat_sys_execve'' then - 2 else 0)
     (ac_kprobes False) (ac_kretprobes False) demo_probe) = [''__x64_sys_ptrace'']"
  using probes_registered_and_removed [of demo_probe False demo_pk _ "\<lambda>n. if n = ''__x64_sys_ptrace'' \<or> n = ''__ia32_compat_sys_execve'' then - 2 else 0", OF _ _ _ _ refl]
  by (simp add: demo_pk_def demo_probe_def ac_def.defs ac_kprobes_def ac_kretprobes_def)

end
