(* ===== verification/AC_Scan.thy ===== *)
theory AC_Scan
  imports AC_Text AC_Deferred
begin

text \<open>
  The snapshots behind the scan ioctls of \<^verbatim>\<open>src/src/anticheat_module.c\<close>: the per-file state
  (\<^verbatim>\<open>struct ac_fd_state\<close>), the walk over a process's mappings and the walk over the module list.
\<close>

subsection \<open>State\<close>

text \<open>
  A snapshot array of the C code (allocated with room for \<^verbatim>\<open>AC_MAX_VMAS\<close> or \<^verbatim>\<open>AC_MAX_MODS\<close> entries) is the list
  of the entries written so far; \<open>None\<close> is \<^verbatim>\<open>NULL\<close>.
\<close>

record ac_fd_state =
  fs_vmas :: "ac_vma_info list option"
  fs_resolved_pid :: pid_t
  fs_n_vmas :: nat
  fs_rwx_count :: nat
  fs_exec_count :: nat
  fs_anon_exec_count :: nat
  fs_truncated :: nat
  fs_mods :: "ac_mod_info list option"
  fs_n_mods :: nat

definition fd_state_zero :: ac_fd_state where
  "fd_state_zero = \<lparr>fs_vmas = None, fs_resolved_pid = 0, fs_n_vmas = 0, fs_rwx_count = 0, fs_exec_count = 0,
     fs_anon_exec_count = 0, fs_truncated = 0, fs_mods = None, fs_n_mods = 0\<rparr>"

text \<open>\<^verbatim>\<open>ac_get_fd_state\<close> on \<^verbatim>\<open>file->private_data\<close>; \<open>alloc\<close> says whether \<^verbatim>\<open>kzalloc\<close> succeeds.\<close>

definition ac_get_fd_state :: "bool \<Rightarrow> ac_fd_state option \<Rightarrow> ac_fd_state option" where
  "ac_get_fd_state alloc pd =
     (case pd of
        Some st \<Rightarrow> Some st
      | None \<Rightarrow> if alloc then Some fd_state_zero else None)"

definition ac_module_size :: "ac_kernel \<Rightarrow> kmodule \<Rightarrow> u64" where
  "ac_module_size k m = foldl (\<lambda>sz t. sz + snd (km_mem m t)) 0 (k_core_types k)"

subsection \<open>Mappings\<close>

text \<open>A mapping of the target and its file: the inode number if there is an inode, and what \<^verbatim>\<open>d_path\<close> yields (\<open>None\<close>
  is an error).\<close>

record kfile =
  kf_inode :: "u64 option"
  kf_d_path :: "string option"

record kvma =
  vm_start :: u64
  vm_end :: u64
  vm_pgoff :: u64
  vm_flags :: u64
  vm_file :: "kfile option"

definition is_rwx :: "u64 \<Rightarrow> bool" where
  "is_rwx flags \<longleftrightarrow> flags AND (AC_VM_EXEC OR AC_VM_WRITE) = AC_VM_EXEC OR AC_VM_WRITE"

definition is_exec :: "u64 \<Rightarrow> bool" where
  "is_exec flags \<longleftrightarrow> flags AND AC_VM_EXEC \<noteq> 0"

text \<open>The entry for one mapping; \<open>pathbuf\<close> says whether the path buffer could be allocated.  \<^verbatim>\<open>PAGE_SHIFT\<close> is 12.\<close>

definition vma_entry :: "bool \<Rightarrow> kvma \<Rightarrow> ac_vma_info" where
  "vma_entry pathbuf vma =
     (let vi = \<lparr>vi_start = vm_start vma, vi_end = vm_end vma, vi_offset = push_bit 12 (vm_pgoff vma), vi_inode = 0,
                vi_flags = vm_flags vma, vi_is_file = 0, vi_path = []\<rparr>
      in case vm_file vma of
           None \<Rightarrow> vi
         | Some f \<Rightarrow>
             (let vi1 = vi\<lparr>vi_is_file := 1\<rparr>;
                  vi2 = (case kf_inode f of Some ino \<Rightarrow> vi1\<lparr>vi_inode := ino\<rparr> | None \<Rightarrow> vi1)
              in if pathbuf
                 then (case kf_d_path f of Some p \<Rightarrow> vi2\<lparr>vi_path := strscpy AC_VMA_PATH p\<rparr> | None \<Rightarrow> vi2)
                 else vi2))"

text \<open>The loop over the mappings, with the entries so far.\<close>

fun vma_loop :: "bool \<Rightarrow> kvma list \<Rightarrow> ac_vma_info list \<Rightarrow> ac_fd_state \<Rightarrow> ac_vma_info list \<times> ac_fd_state" where
  "vma_loop pathbuf [] vs st = (vs, st)"
| "vma_loop pathbuf (vma # vmas) vs st =
     (if length vs \<ge> AC_MAX_VMAS then (vs, st\<lparr>fs_truncated := 1\<rparr>)
      else
        (let vi = vma_entry pathbuf vma;
             st1 = (if is_rwx (vm_flags vma) then st\<lparr>fs_rwx_count := fs_rwx_count st + 1\<rparr> else st);
             st2 = (if vi_is_file vi = 0 \<and> is_exec (vm_flags vma) then st1\<lparr>fs_anon_exec_count := fs_anon_exec_count st1 + 1\<rparr> else st1);
             st3 = (if is_exec (vm_flags vma) then st2\<lparr>fs_exec_count := fs_exec_count st2 + 1\<rparr> else st2)
         in vma_loop pathbuf vmas (vs @ [vi]) st3))"

text \<open>The deferred events of one entry.\<close>

definition emit_vma :: "pid_t \<Rightarrow> string \<Rightarrow> ac_vma_info \<Rightarrow> 'a ac_reg_scheme \<Rightarrow> 'a ac_reg_scheme" where
  "emit_vma pid tcomm e s =
     (let s1 = (if is_rwx (vi_flags e)
                then emit_ev AC_EV_RWX pid tcomm
                       (''RWX mapping [0x'' @ fmt_lx (vi_start e) @ ''-0x'' @ fmt_lx (vi_end e) @ ''] '' @
                        (if vi_path e \<noteq> [] then vi_path e else ''(anonymous)'')) s
                else s)
      in if vi_is_file e = 0 \<and> is_exec (vi_flags e)
         then emit_ev AC_EV_ANON_EXEC pid tcomm
                (''anonymous executable mapping [0x'' @ fmt_lx (vi_start e) @ ''-0x'' @ fmt_lx (vi_end e) @ '']'') s1
         else s1)"

text \<open>
  \<^verbatim>\<open>ac_build_vma_snapshot\<close>.  \<open>vmas\<close> gives the mappings of an address space, \<open>alloc\<close> and \<open>pathbuf\<close> the outcome of the
  two allocations.
\<close>

definition ac_build_vma_snapshot ::
  "'a ac_def_scheme def_ops \<Rightarrow> ktasks \<Rightarrow> (mm_ptr \<Rightarrow> kvma list) \<Rightarrow> bool \<Rightarrow> bool \<Rightarrow> pid_t \<Rightarrow> pid_t \<Rightarrow> int \<Rightarrow>
     ac_fd_state \<Rightarrow> 'a ac_def_scheme \<Rightarrow> int \<times> ac_fd_state \<times> 'a ac_def_scheme" where
  "ac_build_vma_snapshot k q vmas alloc pathbuf pid ref_pid emit_events st s =
     (let st0 = st\<lparr>fs_vmas := None, fs_n_vmas := 0, fs_rwx_count := 0, fs_exec_count := 0, fs_anon_exec_count := 0,
                   fs_truncated := 0, fs_resolved_pid := 0\<rparr>
      in case (if ref_pid > 0 then ac_find_task_in_ns_of q pid ref_pid else ac_find_task q pid) of
           None \<Rightarrow> (- ESRCH, st0, s)
         | Some t \<Rightarrow>
             (let st1 = st0\<lparr>fs_resolved_pid := tk_pid t\<rparr>;
                  tcomm = strscpy AC_MAX_COMM (tk_comm t)
              in case get_task_mm t s of (mm, s1) \<Rightarrow>
                   if mm = 0 then (- ESRCH, st1, s1)
                   else if \<not> alloc then (- ENOMEM, st1, mmput k mm s1)
                   else
                     (case vma_loop pathbuf (vmas mm) [] st1 of (vs, st2) \<Rightarrow>
                        let s2 = mmput k mm s1;
                            st3 = st2\<lparr>fs_vmas := Some vs, fs_n_vmas := length vs\<rparr>
                        in (0, st3, if emit_events \<noteq> 0 then fold (emit_vma (fs_resolved_pid st3) tcomm) vs s2 else s2))))"

subsection \<open>Modules\<close>

definition mod_entry :: "ac_kernel \<Rightarrow> kmodule \<Rightarrow> ac_mod_info" where
  "mod_entry k m = \<lparr>mi_name = strscpy AC_MOD_NAME_LEN (km_name m), mi_size = ac_module_size k m, mi_state = km_state m\<rparr>"

definition ac_build_mod_snapshot :: "ac_kernel \<Rightarrow> bool \<Rightarrow> ac_fd_state \<Rightarrow> int \<times> ac_fd_state" where
  "ac_build_mod_snapshot k alloc st =
     (let st0 = st\<lparr>fs_mods := None, fs_n_mods := 0\<rparr>
      in if \<not> alloc then (- ENOMEM, st0)
         else
           (let mods = ac_for_each_module_rcu (k_modules k)
                  (\<lambda>m ms. if \<not> ac_module_sane k m then (False, ms)
                          else if length ms \<ge> AC_MAX_MODS then (True, ms)
                          else (False, ms @ [mod_entry k m]))
                  0 []
            in (0, st0\<lparr>fs_mods := Some mods, fs_n_mods := length mods\<rparr>)))"

subsection \<open>Well-formed file states\<close>

text \<open>The counters agree with the arrays, so an index below the counter is inside the array.\<close>

definition fd_wf :: "ac_fd_state \<Rightarrow> bool" where
  "fd_wf st \<longleftrightarrow>
     (case fs_vmas st of Some vs \<Rightarrow> fs_n_vmas st = length vs \<and> length vs \<le> AC_MAX_VMAS | None \<Rightarrow> fs_n_vmas st = 0) \<and>
     (case fs_mods st of Some ms \<Rightarrow> fs_n_mods st = length ms \<and> length ms \<le> AC_MAX_MODS | None \<Rightarrow> fs_n_mods st = 0)"

lemma vma_loop_eq:
  assumes "length vs \<le> AC_MAX_VMAS"
  shows "vma_loop pb vmas vs st =
    (let new = take (AC_MAX_VMAS - length vs) vmas
     in (vs @ map (vma_entry pb) new,
         st\<lparr>fs_rwx_count := fs_rwx_count st + length (filter (\<lambda>v. is_rwx (vm_flags v)) new),
            fs_exec_count := fs_exec_count st + length (filter (\<lambda>v. is_exec (vm_flags v)) new),
            fs_anon_exec_count := fs_anon_exec_count st + length (filter (\<lambda>v. vm_file v = None \<and> is_exec (vm_flags v)) new),
            fs_truncated := (if AC_MAX_VMAS < length vs + length vmas then 1 else fs_truncated st)\<rparr>))"
  using assms
proof (induction vmas arbitrary: vs st)
  case (Cons vma vmas)
  have anon: "vi_is_file (vma_entry pb vma) = 0 \<longleftrightarrow> vm_file vma = None"
    by (simp add: vma_entry_def Let_def split: option.split)
  show ?case
  proof (cases "length vs = AC_MAX_VMAS")
    case False
    then have lt: "length vs < AC_MAX_VMAS" using Cons.prems by simp
    then have "AC_MAX_VMAS - length vs = Suc (AC_MAX_VMAS - Suc (length vs))" by simp
    with lt Cons.IH [of "vs @ [vma_entry pb vma]"] show ?thesis by (simp add: Let_def anon)
  qed simp
qed simp

lemma list_walk_collect:
  "length acc \<le> n \<Longrightarrow> list_walk (\<lambda>m ms. if \<not> P m then (False, ms) else if n \<le> length ms then (True, ms) else (False, ms @ [f m])) xs acc =
     acc @ map f (take (n - length acc) (filter P xs))"
proof (induction xs arbitrary: acc)
  case (Cons x xs)
  show ?case
  proof (cases "P x \<and> length acc < n")
    case True
    then have "n - length acc = Suc (n - Suc (length acc))" by arith
    with True Cons.IH [of "acc @ [f x]"] show ?thesis by simp
  next
    case False
    with Cons show ?thesis by auto
  qed
qed simp

text \<open>A snapshot without the walk's loop: which mappings it keeps and what it counts.\<close>

definition scan_state :: "bool \<Rightarrow> pid_t \<Rightarrow> kvma list \<Rightarrow> ac_fd_state \<Rightarrow> ac_fd_state" where
  "scan_state pb pid vmas st =
     (let kept = take AC_MAX_VMAS vmas
      in st\<lparr>fs_vmas := Some (map (vma_entry pb) kept), fs_resolved_pid := pid, fs_n_vmas := length kept,
            fs_rwx_count := length (filter (\<lambda>v. is_rwx (vm_flags v)) kept),
            fs_exec_count := length (filter (\<lambda>v. is_exec (vm_flags v)) kept),
            fs_anon_exec_count := length (filter (\<lambda>v. vm_file v = None \<and> is_exec (vm_flags v)) kept),
            fs_truncated := of_bool (AC_MAX_VMAS < length vmas)\<rparr>)"

definition scan_reset :: "pid_t \<Rightarrow> ac_fd_state \<Rightarrow> ac_fd_state" where
  "scan_reset pid st = st\<lparr>fs_vmas := None, fs_n_vmas := 0, fs_rwx_count := 0, fs_exec_count := 0, fs_anon_exec_count := 0,
     fs_truncated := 0, fs_resolved_pid := pid\<rparr>"

lemma vma_snapshot_cases:
  "ac_build_vma_snapshot k q vmas alloc pb pid ref_pid emit st s =
     (case (if ref_pid > 0 then ac_find_task_in_ns_of q pid ref_pid else ac_find_task q pid) of
        None \<Rightarrow> (- ESRCH, scan_reset 0 st, s)
      | Some t \<Rightarrow>
          if tk_mm t = 0 then (- ESRCH, scan_reset (tk_pid t) st, s)
          else if \<not> alloc then (- ENOMEM, scan_reset (tk_pid t) st, mmput k (tk_mm t) (mmget (tk_mm t) s))
          else (0, scan_state pb (tk_pid t) (vmas (tk_mm t)) st,
                let s1 = mmput k (tk_mm t) (mmget (tk_mm t) s)
                in if emit = 0 then s1
                   else fold (emit_vma (tk_pid t) (strscpy AC_MAX_COMM (tk_comm t)))
                          (map (vma_entry pb) (take AC_MAX_VMAS (vmas (tk_mm t)))) s1))"
  by (cases st) (auto simp: ac_build_vma_snapshot_def get_task_mm_def vma_loop_eq scan_state_def scan_reset_def Let_def split: option.split)

lemma mod_snapshot_eq:
  "ac_build_mod_snapshot k alloc st =
     (let mods = map (mod_entry k) (take AC_MAX_MODS (filter (ac_module_sane k) (k_modules k)))
      in if alloc then (0, st\<lparr>fs_mods := Some mods, fs_n_mods := length mods\<rparr>)
         else (- ENOMEM, st\<lparr>fs_mods := None, fs_n_mods := 0\<rparr>))"
  by (simp add: ac_build_mod_snapshot_def for_each_walk list_walk_collect [where acc = "[]", simplified] Let_def)

lemma fd_wf_scan [simp]: "fd_wf st \<Longrightarrow> fd_wf (scan_state pb pid vmas st)" "fd_wf st \<Longrightarrow> fd_wf (scan_reset pid st)"
  by (cases "fs_mods st"; simp add: fd_wf_def scan_state_def scan_reset_def Let_def)+

lemma fd_wf_zero [simp]: "fd_wf fd_state_zero"
  by (simp add: fd_wf_def fd_state_zero_def)

lemma fd_wf_mods:
  assumes "fd_wf st"
  shows "fd_wf (snd (ac_build_mod_snapshot k alloc st))"
  using assms by (cases "fs_vmas st") (simp_all add: mod_snapshot_eq fd_wf_def Let_def)

lemma def_same_emit_vma: "def_same s (emit_vma p c e s') = def_same s s'"
  by (simp add: emit_vma_def Let_def)

lemma def_same_emit_fold: "def_same s (fold (emit_vma p c) es s') = def_same s s'"
  by (induction es arbitrary: s') (simp_all add: def_same_emit_vma)

lemma put_after_get_same:
  assumes "def_spec k" and "def_same (mmget mm s) s'"
  shows "def_same s (mmput k mm s')"
proof -
  have "def_same s (drop_user mm s')" using assms(2) by (simp add: def_same_def drop_user_def mmget_def)
  then show ?thesis by (simp add: mmput_def Let_def def_same_trans [OF _ def_specD(3) [OF assms(1)]])
qed

lemma vma_snapshot_balanced:
  assumes "def_spec k"
  shows "def_same s (snd (snd (ac_build_vma_snapshot k q vmas alloc pb pid ref_pid emit st s)))"
  using put_after_get_same [OF assms def_same_refl] by (simp add: vma_snapshot_cases def_same_emit_fold Let_def split: option.split)

end
