(* ===== verification/AC_Device.thy ===== *)
theory AC_Device
  imports AC_Syscalls AC_Probes AC_Scan
begin

text \<open>
  The character device of \<^verbatim>\<open>src/src/anticheat_module.c\<close>: open, release and every request of \<^verbatim>\<open>ac_ioctl\<close>, one
  definition per case of its switch.
\<close>

subsection \<open>State\<close>

text \<open>
  The module's remaining globals: the syscall-table state, the text bounds, \<^verbatim>\<open>ac_lock_count\<close>,
  \<^verbatim>\<open>ac_last_hook_count\<close>, and the references that the module holds on itself.
\<close>

record ac_dev = ac_probe +
  dv_sys :: ac_sys_state
  dv_text :: ac_text
  dv_lock_count :: int
  dv_last_hook_count :: u32
  dv_module_refs :: int

text \<open>
  The caller's memory at \<^verbatim>\<open>arg\<close>: what it reads as, for each structure that a request copies in (\<open>None\<close>: the copy
  faults), and whether it can be written.
\<close>

record ac_user =
  ub_proc :: "ac_proc_id option"
  ub_scan_begin :: "ac_scan_begin option"
  ub_scan_get :: "ac_scan_get option"
  ub_mod_get :: "ac_mod_get option"
  ub_events :: "ac_event_list option"
  ub_writable :: bool

text \<open>What a request copies out.\<close>

datatype ac_reply =
    R_none
  | R_status ac_status
  | R_scan_begin ac_scan_begin
  | R_scan_get ac_scan_get
  | R_syscalls ac_syscall_check
  | R_mod_count nat
  | R_mod_get ac_mod_get
  | R_events ac_event_list
  | R_prots ac_prot_list

text \<open>
  What a call finds: the caller's capability and ABI, the kernel's lookups, the outcome of each allocation and of
  \<^verbatim>\<open>try_module_get\<close>, an uninitialised hash context, the interruptible wait, and the copy of a batch of events
  to the caller; during the last two other code runs.
\<close>

record 's dev_env =
  de_capable :: bool
  de_compat :: bool
  de_tasks :: ktasks
  de_vmas :: "mm_ptr \<Rightarrow> kvma list"
  de_kernel :: ac_kernel
  de_alloc_fd :: bool
  de_alloc_snapshot :: bool
  de_alloc_path :: bool
  de_alloc_ranges :: bool
  de_alloc_events :: bool
  de_module_get :: bool
  de_ctx :: ac_sha256_ctx
  de_wait :: "nat \<Rightarrow> 's \<Rightarrow> int \<times> 's"
  de_copy_events :: "ac_event_list \<Rightarrow> 's \<Rightarrow> bool \<times> 's"

definition AC_LOCK_MAX :: int where "AC_LOCK_MAX = 16"

definition copy_out :: "ac_user \<Rightarrow> ac_reply \<Rightarrow> int \<times> ac_reply" where
  "copy_out ub r = (if ub_writable ub then (0, r) else (- EFAULT, R_none))"

subsection \<open>Requests on the whole module\<close>

definition ioctl_status :: "ac_user \<Rightarrow> 'a ac_dev_scheme \<Rightarrow> int \<times> ac_reply" where
  "ioctl_status ub s =
     copy_out ub (R_status
       \<lparr>st_version = AC_IOCTL_VERSION, st_syscall_table_addr = sy_table (dv_sys s), st_active_procs = ac_protected_count s,
        st_events_dropped = rg_dropped (pr_ring s), st_locked = (if dv_lock_count s > 0 then 1 else 0),
        st_syscall_hook_count = dv_last_hook_count s, st_kill_dropped = pb_kill_dropped s\<rparr>)"

definition ioctl_add_proc ::
  "'a ac_dev_scheme def_ops \<Rightarrow> 'a ac_dev_scheme dev_env \<Rightarrow> ac_user \<Rightarrow> 'a ac_dev_scheme \<Rightarrow> int \<times> 'a ac_dev_scheme" where
  "ioctl_add_proc k ev ub s =
     (case ub_proc ub of
        None \<Rightarrow> (- EFAULT, s)
      | Some a \<Rightarrow>
          (case ac_add_prot_pid k (de_tasks ev) (pi_pid a) (pi_ref_pid a) (pi_jit_allowed a \<noteq> 0) s of (ret, _, s1) \<Rightarrow> (ret, s1)))"

definition ioctl_del_proc ::
  "'a ac_dev_scheme def_ops \<Rightarrow> 'a ac_dev_scheme dev_env \<Rightarrow> ac_user \<Rightarrow> 'a ac_dev_scheme \<Rightarrow> int \<times> 'a ac_dev_scheme" where
  "ioctl_del_proc k ev ub s =
     (case ub_proc ub of
        None \<Rightarrow> (- EFAULT, s)
      | Some d \<Rightarrow>
          (case (if pi_ref_pid d > 0 then ac_find_task_in_ns_of (de_tasks ev) (pi_pid d) (pi_ref_pid d)
                 else ac_find_task (de_tasks ev) (pi_pid d)) of
             None \<Rightarrow> (- ESRCH, s)
           | Some t \<Rightarrow>
               (case get_task_mm t s of (mm, s1) \<Rightarrow>
                  if mm = 0 then (- ESRCH, s1) else (0, mmput k mm (ac_del_prot_mm (dk_mmu k) mm s1)))))"

definition ioctl_check_syscalls ::
  "'a ac_dev_scheme dev_env \<Rightarrow> ac_user \<Rightarrow> 'a ac_dev_scheme \<Rightarrow> (int \<times> ac_reply \<times> 'a ac_dev_scheme) option" where
  "ioctl_check_syscalls ev ub s =
     (case ac_check_syscalls (de_kernel ev) (de_alloc_ranges ev) (dv_text s) (de_ctx ev) (dv_sys s) (pr_ring s) of
        None \<Rightarrow> None
      | Some (ret, c, sy, rg) \<Rightarrow>
          (let s1 = s\<lparr>dv_sys := sy, pr_ring := rg\<rparr>
           in if ret \<noteq> 0 then Some (ret, R_none, s1)
              else case copy_out ub (R_syscalls c) of (ret', r) \<Rightarrow>
                     Some (ret', r, s1\<lparr>dv_last_hook_count := of_nat (sc_hooked c)\<rparr>)))"

text \<open>
  \<^verbatim>\<open>AC_IOCTL_GET_EVENTS\<close>: the wait, then peek, copy and commit.  A batch that could not be copied stays in the
  ring.
\<close>

definition get_events_take ::
  "'a ac_dev_scheme dev_env \<Rightarrow> ac_event_list \<Rightarrow> 'a ac_dev_scheme \<Rightarrow> int \<times> ac_reply \<times> 'a ac_dev_scheme" where
  "get_events_take ev el s =
     (case ac_peek_events el (pr_ring s) of (el1, removed_before) \<Rightarrow>
      case de_copy_events ev el1 s of (copied, s1) \<Rightarrow>
        if \<not> copied then (- EFAULT, R_none, s1)
        else (0, R_events el1, s1\<lparr>pr_ring := ac_commit_events (el_count el1) removed_before (pr_ring s1)\<rparr>))"

definition ioctl_get_events ::
  "'a ac_dev_scheme dev_env \<Rightarrow> ac_user \<Rightarrow> 'a ac_dev_scheme \<Rightarrow> int \<times> ac_reply \<times> 'a ac_dev_scheme" where
  "ioctl_get_events ev ub s =
     (if \<not> de_alloc_events ev then (- ENOMEM, R_none, s)
      else case ub_events ub of
        None \<Rightarrow> (- EFAULT, R_none, s)
      | Some el \<Rightarrow>
          (let block_ms = (if el_block_ms el > AC_GET_EVENTS_MAX_BLOCK_MS then AC_GET_EVENTS_MAX_BLOCK_MS else el_block_ms el)
           in if block_ms \<noteq> 0
              then (case de_wait ev block_ms s of (wret, s1) \<Rightarrow>
                      if wret < 0 then (wret, R_none, s1) else get_events_take ev el s1)
              else get_events_take ev el s))"

definition ioctl_flush_events :: "'a ac_dev_scheme \<Rightarrow> int \<times> 'a ac_dev_scheme" where
  "ioctl_flush_events s = (0, s\<lparr>pr_ring := snd (ac_drain_events None (pr_ring s))\<rparr>)"

definition ioctl_list_protected :: "ac_user \<Rightarrow> 'a ac_dev_scheme \<Rightarrow> int \<times> ac_reply" where
  "ioctl_list_protected ub s = copy_out ub (R_prots (ac_list_protected s))"

subsection \<open>The module pin\<close>

text \<open>
  One round of the compare-and-exchange loop of \<^verbatim>\<open>AC_IOCTL_LOCK\<close>: \<open>prev\<close> is the caller's copy, \<open>cur\<close> the value that
  the exchange finds.  A failed exchange leaves \<open>cur\<close> in \<open>prev\<close>.
\<close>

datatype lock_round = Lock_full | Lock_taken int | Lock_retry int

definition lock_round :: "int \<Rightarrow> int \<Rightarrow> lock_round" where
  "lock_round prev cur =
     (if prev \<ge> AC_LOCK_MAX then Lock_full
      else if cur = prev then Lock_taken (prev + 1)
      else Lock_retry cur)"

text \<open>The loop when nothing else touches the counter.\<close>

function lock_loop :: "int \<Rightarrow> 'a ac_dev_scheme \<Rightarrow> int \<times> 'a ac_dev_scheme" where
  "lock_loop prev s =
     (case lock_round prev (dv_lock_count s) of
        Lock_full \<Rightarrow> (- EBUSY, s\<lparr>dv_module_refs := dv_module_refs s - 1\<rparr>)
      | Lock_taken n \<Rightarrow> (0, s\<lparr>dv_lock_count := n\<rparr>)
      | Lock_retry p \<Rightarrow> lock_loop p s)"
  by pat_completeness auto
termination
  by (relation "measure (\<lambda>(prev, s). if prev = dv_lock_count s then 0 else 1)")
     (auto simp: lock_round_def split: if_splits)

declare lock_loop.simps [simp del]

definition ioctl_lock :: "'a ac_dev_scheme dev_env \<Rightarrow> 'a ac_dev_scheme \<Rightarrow> int \<times> 'a ac_dev_scheme" where
  "ioctl_lock ev s =
     (if \<not> de_module_get ev then (- EBUSY, s)
      else lock_loop (dv_lock_count s) (s\<lparr>dv_module_refs := dv_module_refs s + 1\<rparr>))"

text \<open>\<^verbatim>\<open>atomic_dec_if_positive\<close>: the old value minus one, stored unless it is negative.\<close>

definition atomic_dec_if_positive :: "int \<Rightarrow> int \<times> int" where
  "atomic_dec_if_positive v = (v - 1, if v - 1 \<ge> 0 then v - 1 else v)"

definition ioctl_unlock :: "'a ac_dev_scheme \<Rightarrow> int \<times> 'a ac_dev_scheme" where
  "ioctl_unlock s =
     (case atomic_dec_if_positive (dv_lock_count s) of (r, v) \<Rightarrow>
        let s1 = s\<lparr>dv_lock_count := v\<rparr>
        in (0, if r \<ge> 0 then s1\<lparr>dv_module_refs := dv_module_refs s1 - 1\<rparr> else s1))"

subsection \<open>Requests on the open file\<close>

text \<open>\<open>pd\<close> is \<^verbatim>\<open>file->private_data\<close>.\<close>

definition ioctl_scan_begin ::
  "'a ac_dev_scheme def_ops \<Rightarrow> 'a ac_dev_scheme dev_env \<Rightarrow> ac_user \<Rightarrow> ac_fd_state option \<Rightarrow> 'a ac_dev_scheme \<Rightarrow>
     int \<times> ac_reply \<times> ac_fd_state option \<times> 'a ac_dev_scheme" where
  "ioctl_scan_begin k ev ub pd s =
     (case ub_scan_begin ub of
        None \<Rightarrow> (- EFAULT, R_none, pd, s)
      | Some b \<Rightarrow>
          (case ac_get_fd_state (de_alloc_fd ev) pd of
             None \<Rightarrow> (- ENOMEM, R_none, pd, s)
           | Some st \<Rightarrow>
               (case ac_build_vma_snapshot k (de_tasks ev) (de_vmas ev) (de_alloc_snapshot ev) (de_alloc_path ev)
                       (sb_pid b) (sb_ref_pid b) (sb_emit_events b) st s of (ret, st1, s1) \<Rightarrow>
                  if ret \<noteq> 0 then (ret, R_none, Some st1, s1)
                  else
                    (let b1 = b\<lparr>sb_resolved_pid := fs_resolved_pid st1, sb_n_vmas := fs_n_vmas st1,
                                sb_rwx_count := fs_rwx_count st1, sb_exec_count := fs_exec_count st1,
                                sb_anon_exec_count := fs_anon_exec_count st1, sb_truncated := fs_truncated st1\<rparr>
                     in case copy_out ub (R_scan_begin b1) of (ret', r) \<Rightarrow> (ret', r, Some st1, s1)))))"

definition ioctl_scan_get :: "ac_user \<Rightarrow> ac_fd_state option \<Rightarrow> int \<times> ac_reply" where
  "ioctl_scan_get ub pd =
     (case ub_scan_get ub of
        None \<Rightarrow> (- EFAULT, R_none)
      | Some g \<Rightarrow>
          (case pd of
             None \<Rightarrow> (- EINVAL, R_none)
           | Some st \<Rightarrow>
               if unat (sg_index g) \<ge> fs_n_vmas st then (- EINVAL, R_none)
               else copy_out ub (R_scan_get (g\<lparr>sg_vma := the (fs_vmas st) ! unat (sg_index g)\<rparr>))))"

definition ioctl_scan_end :: "ac_fd_state option \<Rightarrow> ac_fd_state option" where
  "ioctl_scan_end pd =
     map_option (\<lambda>st. st\<lparr>fs_vmas := None, fs_n_vmas := 0, fs_rwx_count := 0, fs_exec_count := 0,
                         fs_anon_exec_count := 0, fs_truncated := 0, fs_resolved_pid := 0\<rparr>) pd"

definition ioctl_mods_begin ::
  "'s dev_env \<Rightarrow> ac_user \<Rightarrow> ac_fd_state option \<Rightarrow> int \<times> ac_reply \<times> ac_fd_state option" where
  "ioctl_mods_begin ev ub pd =
     (case ac_get_fd_state (de_alloc_fd ev) pd of
        None \<Rightarrow> (- ENOMEM, R_none, pd)
      | Some st \<Rightarrow>
          (case ac_build_mod_snapshot (de_kernel ev) (de_alloc_snapshot ev) st of (ret, st1) \<Rightarrow>
             if ret \<noteq> 0 then (ret, R_none, Some st1)
             else case copy_out ub (R_mod_count (fs_n_mods st1)) of (ret', r) \<Rightarrow> (ret', r, Some st1)))"

definition ioctl_mods_get :: "ac_user \<Rightarrow> ac_fd_state option \<Rightarrow> int \<times> ac_reply" where
  "ioctl_mods_get ub pd =
     (case ub_mod_get ub of
        None \<Rightarrow> (- EFAULT, R_none)
      | Some g \<Rightarrow>
          (case pd of
             None \<Rightarrow> (- EINVAL, R_none)
           | Some st \<Rightarrow>
               if unat (mg_index g) \<ge> fs_n_mods st then (- EINVAL, R_none)
               else copy_out ub (R_mod_get (g\<lparr>mg_mod := the (fs_mods st) ! unat (mg_index g)\<rparr>))))"

definition ioctl_mods_end :: "ac_fd_state option \<Rightarrow> ac_fd_state option" where
  "ioctl_mods_end pd = map_option (\<lambda>st. st\<lparr>fs_mods := None, fs_n_mods := 0\<rparr>) pd"

subsection \<open>Dispatch\<close>

definition ac_ioctl ::
  "'a ac_dev_scheme def_ops \<Rightarrow> 'a ac_dev_scheme dev_env \<Rightarrow> ac_cmd \<Rightarrow> ac_user \<Rightarrow> ac_fd_state option \<Rightarrow> 'a ac_dev_scheme \<Rightarrow>
     (int \<times> ac_reply \<times> ac_fd_state option \<times> 'a ac_dev_scheme) option" where
  "ac_ioctl k ev cmd ub pd s =
     (if \<not> de_capable ev then Some (- EPERM, R_none, pd, s)
      else if de_compat ev then Some (- ENOTTY, R_none, pd, s)
      else case cmd of
        AC_IOCTL_STATUS \<Rightarrow> (case ioctl_status ub s of (ret, r) \<Rightarrow> Some (ret, r, pd, s))
      | AC_IOCTL_ADD_PROC \<Rightarrow> (case ioctl_add_proc k ev ub s of (ret, s1) \<Rightarrow> Some (ret, R_none, pd, s1))
      | AC_IOCTL_DEL_PROC \<Rightarrow> (case ioctl_del_proc k ev ub s of (ret, s1) \<Rightarrow> Some (ret, R_none, pd, s1))
      | AC_IOCTL_SCAN_BEGIN \<Rightarrow> Some (ioctl_scan_begin k ev ub pd s)
      | AC_IOCTL_SCAN_GET \<Rightarrow> (case ioctl_scan_get ub pd of (ret, r) \<Rightarrow> Some (ret, r, pd, s))
      | AC_IOCTL_SCAN_END \<Rightarrow> Some (0, R_none, ioctl_scan_end pd, s)
      | AC_IOCTL_CHECK_SYSCALLS \<Rightarrow> map_option (\<lambda>(ret, r, s1). (ret, r, pd, s1)) (ioctl_check_syscalls ev ub s)
      | AC_IOCTL_MODS_BEGIN \<Rightarrow> (case ioctl_mods_begin ev ub pd of (ret, r, pd1) \<Rightarrow> Some (ret, r, pd1, s))
      | AC_IOCTL_MODS_GET \<Rightarrow> (case ioctl_mods_get ub pd of (ret, r) \<Rightarrow> Some (ret, r, pd, s))
      | AC_IOCTL_MODS_END \<Rightarrow> Some (0, R_none, ioctl_mods_end pd, s)
      | AC_IOCTL_GET_EVENTS \<Rightarrow> (case ioctl_get_events ev ub s of (ret, r, s1) \<Rightarrow> Some (ret, r, pd, s1))
      | AC_IOCTL_FLUSH_EVENTS \<Rightarrow> (case ioctl_flush_events s of (ret, s1) \<Rightarrow> Some (ret, R_none, pd, s1))
      | AC_IOCTL_LIST_PROTECTED \<Rightarrow> (case ioctl_list_protected ub s of (ret, r) \<Rightarrow> Some (ret, r, pd, s))
      | AC_IOCTL_LOCK \<Rightarrow> (case ioctl_lock ev s of (ret, s1) \<Rightarrow> Some (ret, R_none, pd, s1))
      | AC_IOCTL_UNLOCK \<Rightarrow> (case ioctl_unlock s of (ret, s1) \<Rightarrow> Some (ret, R_none, pd, s1))
      | AC_IOCTL_OTHER n \<Rightarrow> Some (- ENOTTY, R_none, pd, s))"

text \<open>\<^verbatim>\<open>ac_open\<close> and \<^verbatim>\<open>ac_release\<close> on \<^verbatim>\<open>private_data\<close>.\<close>

definition ac_open :: "bool \<Rightarrow> ac_fd_state option \<Rightarrow> int \<times> ac_fd_state option" where
  "ac_open capable pd = (if \<not> capable then (- EPERM, pd) else (0, None))"

definition ac_release :: "ac_fd_state option \<Rightarrow> int \<times> ac_fd_state option" where
  "ac_release pd = (0, None)"

definition ac_compat_ioctl :: "ac_cmd \<Rightarrow> ac_fd_state option \<Rightarrow> int" where
  "ac_compat_ioctl cmd pd = - ENOTTY"

subsection \<open>Types of the file state\<close>

definition pd_wf :: "ac_fd_state option \<Rightarrow> bool" where
  "pd_wf pd \<longleftrightarrow> (case pd of None \<Rightarrow> True | Some st \<Rightarrow> fd_wf st)"

lemma pd_wf_simps [simp]: "pd_wf None" "pd_wf (Some st) = fd_wf st"
  by (simp_all add: pd_wf_def)

lemma get_fd_state_wf: "pd_wf pd \<Longrightarrow> ac_get_fd_state a pd = Some st \<Longrightarrow> fd_wf st"
  by (auto simp: ac_get_fd_state_def split: option.splits if_splits)

lemma scan_end_wf: "pd_wf pd \<Longrightarrow> pd_wf (ioctl_scan_end pd)"
  by (cases pd) (auto simp: ioctl_scan_end_def fd_wf_def split: option.splits)

lemma mods_end_wf: "pd_wf pd \<Longrightarrow> pd_wf (ioctl_mods_end pd)"
  by (cases pd) (auto simp: ioctl_mods_end_def fd_wf_def split: option.splits)

lemma scan_begin_wf: "pd_wf pd \<Longrightarrow> pd_wf (fst (snd (snd (ioctl_scan_begin k ev ub pd s))))"
  using get_fd_state_wf [of pd "de_alloc_fd ev"]
  by (simp add: ioctl_scan_begin_def vma_snapshot_cases copy_out_def Let_def split: option.split prod.split)

lemma mods_begin_wf: "pd_wf pd \<Longrightarrow> pd_wf (snd (snd (ioctl_mods_begin ev ub pd)))"
  using get_fd_state_wf [of pd "de_alloc_fd ev"] fd_wf_mods [of _ "de_kernel ev" "de_alloc_snapshot ev"]
  by (simp add: ioctl_mods_begin_def copy_out_def case_prod_beta split: option.split)

text \<open>Only a successful call copies out, and only its own structure.\<close>

primrec reply_for :: "ac_cmd \<Rightarrow> ac_reply \<Rightarrow> bool" where
  "reply_for cmd R_none \<longleftrightarrow> True"
| "reply_for cmd (R_status st) \<longleftrightarrow> cmd = AC_IOCTL_STATUS"
| "reply_for cmd (R_scan_begin b) \<longleftrightarrow> cmd = AC_IOCTL_SCAN_BEGIN"
| "reply_for cmd (R_scan_get g) \<longleftrightarrow> cmd = AC_IOCTL_SCAN_GET"
| "reply_for cmd (R_syscalls c) \<longleftrightarrow> cmd = AC_IOCTL_CHECK_SYSCALLS"
| "reply_for cmd (R_mod_count n) \<longleftrightarrow> cmd = AC_IOCTL_MODS_BEGIN"
| "reply_for cmd (R_mod_get g) \<longleftrightarrow> cmd = AC_IOCTL_MODS_GET"
| "reply_for cmd (R_events el) \<longleftrightarrow> cmd = AC_IOCTL_GET_EVENTS"
| "reply_for cmd (R_prots pl) \<longleftrightarrow> cmd = AC_IOCTL_LIST_PROTECTED"

lemma copy_out_reply: "copy_out ub r = (ret, r') \<Longrightarrow> r' = R_none \<or> ret = 0 \<and> r' = r"
  by (simp add: copy_out_def split: if_splits)

lemma status_reply: "ioctl_status ub s = (ret, r) \<Longrightarrow> r = R_none \<or> ret = 0 \<and> reply_for AC_IOCTL_STATUS r"
  by (auto simp: ioctl_status_def dest: copy_out_reply)

lemma scan_begin_reply: "ioctl_scan_begin k ev ub pd s = (ret, r, x) \<Longrightarrow> r = R_none \<or> ret = 0 \<and> reply_for AC_IOCTL_SCAN_BEGIN r"
  by (auto simp: ioctl_scan_begin_def Let_def split: option.splits prod.splits if_splits dest: copy_out_reply)

lemma scan_get_reply: "ioctl_scan_get ub pd = (ret, r) \<Longrightarrow> r = R_none \<or> ret = 0 \<and> reply_for AC_IOCTL_SCAN_GET r"
  by (auto simp: ioctl_scan_get_def split: option.splits if_splits dest: copy_out_reply)

lemma check_syscalls_reply: "ioctl_check_syscalls ev ub s = Some (ret, r, s') \<Longrightarrow> r = R_none \<or> ret = 0 \<and> reply_for AC_IOCTL_CHECK_SYSCALLS r"
  by (auto simp: ioctl_check_syscalls_def Let_def split: option.splits prod.splits if_splits dest: copy_out_reply)

lemma mods_begin_reply: "ioctl_mods_begin ev ub pd = (ret, r, x) \<Longrightarrow> r = R_none \<or> ret = 0 \<and> reply_for AC_IOCTL_MODS_BEGIN r"
  by (auto simp: ioctl_mods_begin_def split: option.splits prod.splits if_splits dest: copy_out_reply)

lemma mods_get_reply: "ioctl_mods_get ub pd = (ret, r) \<Longrightarrow> r = R_none \<or> ret = 0 \<and> reply_for AC_IOCTL_MODS_GET r"
  by (auto simp: ioctl_mods_get_def split: option.splits if_splits dest: copy_out_reply)

lemma get_events_reply: "ioctl_get_events ev ub s = (ret, r, s') \<Longrightarrow> r = R_none \<or> ret = 0 \<and> reply_for AC_IOCTL_GET_EVENTS r"
  by (auto simp: ioctl_get_events_def get_events_take_def Let_def split: option.splits prod.splits if_splits)

lemma list_reply: "ioctl_list_protected ub s = (ret, r) \<Longrightarrow> r = R_none \<or> ret = 0 \<and> reply_for AC_IOCTL_LIST_PROTECTED r"
  by (auto simp: ioctl_list_protected_def dest: copy_out_reply)

lemmas op_replies = status_reply scan_begin_reply scan_get_reply check_syscalls_reply mods_begin_reply mods_get_reply get_events_reply list_reply

lemma ioctl_reply:
  assumes "ac_ioctl k ev cmd ub pd s = Some (ret, r, pd', s')"
  shows "r = R_none \<or> ret = 0 \<and> reply_for cmd r"
  using assms unfolding ac_ioctl_def by (cases cmd) (auto split: if_splits prod.splits dest: op_replies)

text \<open>C17: The file state is well typed at every call: from open to release its counters equal the lengths of its
  arrays, which never exceed the capacities, so the entry that a get request copies out lies inside the array
  that was filled; an index outside is refused.\<close>

theorem ac_ioctl_fd_typed:
  assumes "pd_wf pd" and "ac_ioctl k ev cmd ub pd s = Some (ret, r, pd', s')"
  shows "pd_wf pd' \<and> pd_wf (snd (ac_open c pd)) \<and> pd_wf (snd (ac_release pd)) \<and>
    (\<forall>g. r = R_scan_get g \<longrightarrow> (\<exists>st vs. pd = Some st \<and> fs_vmas st = Some vs \<and> unat (sg_index g) < length vs \<and> sg_vma g = vs ! unat (sg_index g))) \<and>
    (\<forall>g. r = R_mod_get g \<longrightarrow> (\<exists>st ms. pd = Some st \<and> fs_mods st = Some ms \<and> unat (mg_index g) < length ms \<and> mg_mod g = ms ! unat (mg_index g)))"
proof (intro conjI)
  note d = ac_ioctl_def
  show "pd_wf pd'"
    using assms scan_begin_wf [OF assms(1), of k ev ub s] mods_begin_wf [OF assms(1), of ev ub] scan_end_wf [OF assms(1)] mods_end_wf [OF assms(1)]
    by (auto simp: d split: if_splits ac_cmd.splits prod.splits)
  show "pd_wf (snd (ac_open c pd))" "pd_wf (snd (ac_release pd))"
    using assms(1) by (simp_all add: ac_open_def ac_release_def)
qed (use assms ioctl_reply [OF assms(2)] in \<open>auto simp: ac_ioctl_def fd_wf_def copy_out_def ioctl_scan_get_def ioctl_mods_get_def
      split: if_splits prod.splits option.splits\<close>)

subsection \<open>References\<close>

lemma def_same_dev [simp]:
  "def_same s (s'\<lparr>dv_sys := x1\<rparr>) = def_same s s'" "def_same s (s'\<lparr>dv_last_hook_count := x2\<rparr>) = def_same s s'"
  "def_same s (s'\<lparr>dv_lock_count := x3\<rparr>) = def_same s s'" "def_same s (s'\<lparr>dv_module_refs := x4\<rparr>) = def_same s s'"
  by (simp_all add: def_same_def)

lemma add_proc_same:
  assumes "def_spec k"
  shows "def_same s (snd (ioctl_add_proc k ev ub s))"
  using put_after_get_same [OF assms def_same_add [OF def_specD(1) [OF assms]]]
  by (simp add: ioctl_add_proc_def ac_add_prot_pid_def get_task_mm_def Let_def case_prod_beta split: option.split)

lemma del_proc_same:
  assumes "def_spec k"
  shows "def_same s (snd (ioctl_del_proc k ev ub s))"
  using put_after_get_same [OF assms def_same_del [OF def_specD(1) [OF assms]]]
  by (simp add: ioctl_del_proc_def get_task_mm_def Let_def case_prod_beta split: option.split)

lemma scan_begin_same:
  assumes "def_spec k"
  shows "def_same s (snd (snd (snd (ioctl_scan_begin k ev ub pd s))))"
  using vma_snapshot_balanced [OF assms] by (simp add: ioctl_scan_begin_def Let_def case_prod_beta split: option.split)

lemma lock_loop_eq:
  "lock_loop (dv_lock_count s) s =
     (if dv_lock_count s \<ge> AC_LOCK_MAX then (- EBUSY, s\<lparr>dv_module_refs := dv_module_refs s - 1\<rparr>)
      else (0, s\<lparr>dv_lock_count := dv_lock_count s + 1\<rparr>))"
  by (subst lock_loop.simps) (simp add: lock_round_def)

lemma ioctl_lock_eq:
  "ioctl_lock ev s =
     (if \<not> de_module_get ev then (- EBUSY, s)
      else if dv_lock_count s \<ge> AC_LOCK_MAX then (- EBUSY, s)
      else (0, s\<lparr>dv_lock_count := dv_lock_count s + 1, dv_module_refs := dv_module_refs s + 1\<rparr>))"
  using lock_loop_eq [of "s\<lparr>dv_module_refs := dv_module_refs s + 1\<rparr>"] by (cases s) (simp add: ioctl_lock_def)

text \<open>C14: No request leaks or steals a reference: apart from what other code does while \<^verbatim>\<open>AC_IOCTL_GET_EVENTS\<close> sleeps or
  copies, a call of \<^verbatim>\<open>ac_ioctl\<close> returns with every address-space reference count, every queued request and every
  exec pin as it found them, on all error paths too.\<close>

theorem ac_ioctl_references_balanced:
  assumes "def_spec k" and "cmd \<noteq> AC_IOCTL_GET_EVENTS" and "ac_ioctl k ev cmd ub pd s = Some (ret, r, pd', s')"
  shows "def_same s s'"
proof -
  have c: "def_same s s1" if "ioctl_check_syscalls ev ub s = Some (x, y, s1)" for x y s1
    using that by (auto simp: ioctl_check_syscalls_def Let_def split: option.splits prod.splits if_splits)
  have u: "def_same s (snd (ioctl_unlock s))" "def_same s (snd (ioctl_lock ev s))" "def_same s (snd (ioctl_flush_events s))"
    by (simp_all add: ioctl_unlock_def ioctl_lock_eq ioctl_flush_events_def case_prod_beta Let_def)
  show ?thesis
    using assms(2,3) c u add_proc_same [OF assms(1), of s ev ub] del_proc_same [OF assms(1), of s ev ub] scan_begin_same [OF assms(1), of s ev ub pd]
    by (cases cmd) (auto simp: ac_ioctl_def split: if_splits prod.splits)
qed

subsection \<open>Results\<close>

text \<open>C18: Every call returns, an unprivileged or 32-bit caller changes nothing and learns nothing, and data is copied
  out only by a call that succeeds, and only the structure that belongs to its request.\<close>

theorem ac_ioctl_total:
  assumes "sys_inv (k_NR_syscalls (de_kernel ev)) (dv_sys s)" and "length (ctx_buf (de_ctx ev)) = 64"
  shows "\<exists>ret r pd' s'. ac_ioctl k ev cmd ub pd s = Some (ret, r, pd', s') \<and>
    (r = R_none \<or> ret = 0 \<and> reply_for cmd r) \<and>
    (de_capable ev \<or> (ret, r, pd', s') = (- EPERM, R_none, pd, s)) \<and>
    (\<not> de_capable ev \<or> \<not> de_compat ev \<or> (ret, r, pd', s') = (- ENOTTY, R_none, pd, s))"
proof -
  have "ac_check_syscalls (de_kernel ev) (de_alloc_ranges ev) (dv_text s) (de_ctx ev) (dv_sys s) (pr_ring s) \<noteq> None"
    using ac_check_syscalls_eq [OF assms(1) _ assms(2)] by (cases "sy_table (dv_sys s) = 0") (simp_all add: ac_check_syscalls_def)
  then have "ioctl_check_syscalls ev ub s \<noteq> None"
    by (auto simp: ioctl_check_syscalls_def Let_def split: option.split prod.split)
  then have "ac_ioctl k ev cmd ub pd s \<noteq> None"
    by (cases cmd; cases "ioctl_scan_begin k ev ub pd s") (simp_all add: ac_ioctl_def case_prod_beta)
  then obtain ret r pd' s' where e: "ac_ioctl k ev cmd ub pd s = Some (ret, r, pd', s')" by (metis not_None_eq prod_cases4)
  with ioctl_reply [OF e] show ?thesis by (auto simp: ac_ioctl_def)
qed

subsection \<open>Snapshots across calls\<close>

text \<open>C16: What a scan returns is what the walk saw: after a successful \<^verbatim>\<open>AC_IOCTL_SCAN_BEGIN\<close> the reply counts the first
  \<^verbatim>\<open>AC_MAX_VMAS\<close> mappings of the process it names and says whether there were more, a later \<^verbatim>\<open>AC_IOCTL_SCAN_GET\<close> on the
  file returns the entry of the mapping at its index or \<^verbatim>\<open>-EINVAL\<close> from the count on, and after
  \<^verbatim>\<open>AC_IOCTL_SCAN_END\<close> every index is refused.\<close>

theorem scan_begin_get_roundtrip:
  assumes b: "ac_ioctl k ev AC_IOCTL_SCAN_BEGIN ub pd s = Some (0, R_scan_begin b', pd1, s1)" "ub_scan_begin ub = Some b"
    and ev2: "de_capable ev2" "\<not> de_compat ev2"
    and g: "ub_scan_get ub2 = Some g" "ub_writable ub2"
  shows "\<exists>t kept. (if sb_ref_pid b > 0 then ac_find_task_in_ns_of (de_tasks ev) (sb_pid b) (sb_ref_pid b)
                   else ac_find_task (de_tasks ev) (sb_pid b)) = Some t \<and>
    kept = take AC_MAX_VMAS (de_vmas ev (tk_mm t)) \<and>
    b' = b\<lparr>sb_resolved_pid := tk_pid t, sb_n_vmas := length kept,
           sb_rwx_count := length (filter (\<lambda>v. is_rwx (vm_flags v)) kept),
           sb_exec_count := length (filter (\<lambda>v. is_exec (vm_flags v)) kept),
           sb_anon_exec_count := length (filter (\<lambda>v. vm_file v = None \<and> is_exec (vm_flags v)) kept),
           sb_truncated := of_bool (AC_MAX_VMAS < length (de_vmas ev (tk_mm t)))\<rparr> \<and>
    ac_ioctl k ev2 AC_IOCTL_SCAN_GET ub2 pd1 s2 =
      Some (if unat (sg_index g) < length kept
            then (0, R_scan_get (g\<lparr>sg_vma := vma_entry (de_alloc_path ev) (kept ! unat (sg_index g))\<rparr>), pd1, s2)
            else (- EINVAL, R_none, pd1, s2)) \<and>
    ac_ioctl k ev2 AC_IOCTL_SCAN_GET ub2 (ioctl_scan_end pd1) s2 = Some (- EINVAL, R_none, ioctl_scan_end pd1, s2)"
proof -
  from b obtain st t where st: "ac_get_fd_state (de_alloc_fd ev) pd = Some st"
    and t: "(if sb_ref_pid b > 0 then ac_find_task_in_ns_of (de_tasks ev) (sb_pid b) (sb_ref_pid b)
             else ac_find_task (de_tasks ev) (sb_pid b)) = Some t"
    and pd1: "pd1 = Some (scan_state (de_alloc_path ev) (tk_pid t) (de_vmas ev (tk_mm t)) st)"
    and b': "b' = b\<lparr>sb_resolved_pid := fs_resolved_pid (the pd1), sb_n_vmas := fs_n_vmas (the pd1),
        sb_rwx_count := fs_rwx_count (the pd1), sb_exec_count := fs_exec_count (the pd1),
        sb_anon_exec_count := fs_anon_exec_count (the pd1), sb_truncated := fs_truncated (the pd1)\<rparr>"
    by (auto simp: ac_ioctl_def ioctl_scan_begin_def vma_snapshot_cases copy_out_def Let_def ESRCH_def ENOMEM_def
        split: if_splits option.splits)
  then show ?thesis
    using ev2 g by (auto simp: ac_ioctl_def ioctl_scan_get_def ioctl_scan_end_def scan_state_def copy_out_def Let_def)
qed

subsection \<open>The pin under concurrent callers\<close>

text \<open>
  A caller inside \<^verbatim>\<open>AC_IOCTL_LOCK\<close> that has its module reference and reads the counter next, or goes round the loop
  with its copy; a caller inside \<^verbatim>\<open>AC_IOCTL_UNLOCK\<close> that has lowered the counter and calls \<^verbatim>\<open>module_put\<close> next.
\<close>

datatype pin_pc = Pin_read | Pin_round int | Pin_put

definition drop_at :: "nat \<Rightarrow> 'b list \<Rightarrow> 'b list" where
  "drop_at i xs = take i xs @ drop (Suc i) xs"

inductive pin_step :: "'a ac_dev_scheme \<times> pin_pc list \<Rightarrow> 'a ac_dev_scheme \<times> pin_pc list \<Rightarrow> bool" where
  Lock_get: "pin_step (s, ps) (s\<lparr>dv_module_refs := dv_module_refs s + 1\<rparr>, ps @ [Pin_read])"
| Lock_read: "i < length ps \<Longrightarrow> ps ! i = Pin_read \<Longrightarrow> pin_step (s, ps) (s, ps[i := Pin_round (dv_lock_count s)])"
| Lock_refused: "i < length ps \<Longrightarrow> ps ! i = Pin_round prev \<Longrightarrow> lock_round prev (dv_lock_count s) = Lock_full \<Longrightarrow>
    pin_step (s, ps) (s\<lparr>dv_module_refs := dv_module_refs s - 1\<rparr>, drop_at i ps)"
| Lock_done: "i < length ps \<Longrightarrow> ps ! i = Pin_round prev \<Longrightarrow> lock_round prev (dv_lock_count s) = Lock_taken n \<Longrightarrow>
    pin_step (s, ps) (s\<lparr>dv_lock_count := n\<rparr>, drop_at i ps)"
| Lock_again: "i < length ps \<Longrightarrow> ps ! i = Pin_round prev \<Longrightarrow> lock_round prev (dv_lock_count s) = Lock_retry p \<Longrightarrow>
    pin_step (s, ps) (s, ps[i := Pin_round p])"
| Unlock_dec: "atomic_dec_if_positive (dv_lock_count s) = (r, v) \<Longrightarrow> r \<ge> 0 \<Longrightarrow>
    pin_step (s, ps) (s\<lparr>dv_lock_count := v\<rparr>, ps @ [Pin_put])"
| Unlock_put: "i < length ps \<Longrightarrow> ps ! i = Pin_put \<Longrightarrow>
    pin_step (s, ps) (s\<lparr>dv_module_refs := dv_module_refs s - 1\<rparr>, drop_at i ps)"

definition pin_inv :: "'a ac_dev_scheme \<times> pin_pc list \<Rightarrow> bool" where
  "pin_inv = (\<lambda>(s, ps). dv_module_refs s = dv_lock_count s + int (length ps) \<and> 0 \<le> dv_lock_count s \<and> dv_lock_count s \<le> AC_LOCK_MAX)"

lemma length_drop_at: "i < length xs \<Longrightarrow> Suc (length (drop_at i xs)) = length xs"
  by (simp add: drop_at_def)

lemma pin_inv_step: "pin_step x y \<Longrightarrow> pin_inv x \<Longrightarrow> pin_inv y"
  by (induction rule: pin_step.induct)
     (auto simp: pin_inv_def lock_round_def atomic_dec_if_positive_def dest!: length_drop_at split: if_splits)

lemma lock_run: "pin_step\<^sup>*\<^sup>* (s, []) (snd (ioctl_lock ev s), [])"
proof -
  let ?s1 = "s\<lparr>dv_module_refs := dv_module_refs s + 1\<rparr>"
  have a: "pin_step (s, []) (?s1, [Pin_read])" using Lock_get [of s "[]"] by simp
  have b: "pin_step (?s1, [Pin_read]) (?s1, [Pin_round (dv_lock_count s)])" using Lock_read [of 0 "[Pin_read]" ?s1] by simp
  have c: "pin_step (?s1, [Pin_round (dv_lock_count s)]) (snd (ioctl_lock ev s), [])" if "de_module_get ev"
    using Lock_refused [of 0 "[Pin_round (dv_lock_count s)]" "dv_lock_count s" ?s1]
      Lock_done [of 0 "[Pin_round (dv_lock_count s)]" "dv_lock_count s" ?s1 "dv_lock_count s + 1"] that
    by (cases s) (auto simp: ioctl_lock_eq lock_round_def drop_at_def split: if_splits)
  show ?thesis
  proof (cases "de_module_get ev")
    case True
    then show ?thesis using a b c by (meson converse_rtranclp_into_rtranclp rtranclp.rtrancl_refl)
  qed (simp add: ioctl_lock_def)
qed

lemma unlock_run: "pin_step\<^sup>*\<^sup>* (s, []) (snd (ioctl_unlock s), [])"
proof (cases "dv_lock_count s \<ge> 1")
  case True
  let ?s1 = "s\<lparr>dv_lock_count := dv_lock_count s - 1\<rparr>"
  have a: "pin_step (s, []) (?s1, [Pin_put])"
    using Unlock_dec [of s "dv_lock_count s - 1" "dv_lock_count s - 1" "[]"] True by (simp add: atomic_dec_if_positive_def)
  have "pin_step (?s1, [Pin_put]) (snd (ioctl_unlock s), [])"
    using Unlock_put [of 0 "[Pin_put]" ?s1] True by (simp add: ioctl_unlock_def atomic_dec_if_positive_def drop_at_def)
  with a show ?thesis by (meson converse_rtranclp_into_rtranclp rtranclp.rtrancl_refl)
next
  case False
  then show ?thesis by (simp add: ioctl_unlock_def atomic_dec_if_positive_def)
qed

lemma unlocks_unpin:
  "dv_lock_count s = int n \<Longrightarrow> dv_lock_count (((\<lambda>s. snd (ioctl_unlock s)) ^^ n) s) = 0"
proof (induction n arbitrary: s)
  case (Suc n)
  then have "dv_lock_count (snd (ioctl_unlock s)) = int n" by (simp add: ioctl_unlock_def atomic_dec_if_positive_def Let_def)
  with Suc.IH show ?case by (simp add: funpow_Suc_right del: funpow.simps)
qed simp

text \<open>C15: The module pin stays balanced under any interleaving of lock and unlock calls: the counter stays between 0
  and \<^verbatim>\<open>AC_LOCK_MAX\<close>, the module holds one reference per count and per call in flight, so none is dropped that
  was not taken and at rest the references are exactly the count; as many unlocks as the count release the
  module.  The calls run alone are such interleavings.\<close>

theorem module_pin_balanced:
  assumes "dv_lock_count s = 0" and "dv_module_refs s = 0" and "pin_step\<^sup>*\<^sup>* (s, []) (s', ps)"
  shows "dv_module_refs s' = dv_lock_count s' + int (length ps) \<and> 0 \<le> dv_lock_count s' \<and> dv_lock_count s' \<le> AC_LOCK_MAX \<and>
    dv_lock_count (((\<lambda>s. snd (ioctl_unlock s)) ^^ nat (dv_lock_count s')) s') = 0 \<and>
    pin_step\<^sup>*\<^sup>* (s', []) (snd (ioctl_lock ev s'), []) \<and> pin_step\<^sup>*\<^sup>* (s', []) (snd (ioctl_unlock s'), [])"
proof -
  have "pin_inv (s, [])" using assms(1,2) by (simp add: pin_inv_def AC_LOCK_MAX_def)
  with assms(3) have "pin_inv (s', ps)" by (induction rule: rtranclp_induct) (auto dest: pin_inv_step)
  then show ?thesis using unlocks_unpin [of s' "nat (dv_lock_count s')"] lock_run [of s' ev] unlock_run [of s'] by (simp add: pin_inv_def)
qed

subsection \<open>Concrete calls\<close>

text \<open>Process 8 has an anonymous mapping that is writable and executable and a file mapping.\<close>

definition demo_dev :: ac_dev where
  "demo_dev = ac_probe.extend demo_probe \<lparr>dv_sys = demo_sys 0xffffffff81000010, dv_text = demo_text, dv_lock_count = 0,
     dv_last_hook_count = 0, dv_module_refs = 0\<rparr>"

definition demo_vmas :: "kvma list" where
  "demo_vmas = [\<lparr>vm_start = 0x1000, vm_end = 0x2000, vm_pgoff = 0, vm_flags = 7, vm_file = None\<rparr>,
     \<lparr>vm_start = 0x4000, vm_end = 0x5000, vm_pgoff = 1, vm_flags = 5, vm_file = Some \<lparr>kf_inode = Some 12, kf_d_path = Some ''/bin/game''\<rparr>\<rparr>]"

definition demo_env :: "ac_dev dev_env" where
  "demo_env = \<lparr>de_capable = True, de_compat = False, de_tasks = demo_q, de_vmas = (\<lambda>_. demo_vmas), de_kernel = demo_kernel3,
     de_alloc_fd = True, de_alloc_snapshot = True, de_alloc_path = True, de_alloc_ranges = True, de_alloc_events = True,
     de_module_get = True, de_ctx = sha_ctx0, de_wait = (\<lambda>_ s. (0, s)), de_copy_events = (\<lambda>_ s. (True, s))\<rparr>"

definition demo_user :: "pid_t \<Rightarrow> ac_user" where
  "demo_user pid = \<lparr>ub_proc = Some \<lparr>pi_pid = pid, pi_ref_pid = 0, pi_jit_allowed = 0, pi_comm = []\<rparr>,
     ub_scan_begin = Some \<lparr>sb_pid = pid, sb_ref_pid = 0, sb_emit_events = 1, sb_resolved_pid = 0, sb_n_vmas = 0, sb_rwx_count = 0,
       sb_exec_count = 0, sb_anon_exec_count = 0, sb_truncated = 0\<rparr>,
     ub_scan_get = Some \<lparr>sg_pid = 0, sg_index = 1, sg_vma = vma_entry True (demo_vmas ! 0)\<rparr>,
     ub_mod_get = None, ub_events = None, ub_writable = True\<rparr>"

definition demo_dvk :: "ac_dev def_ops" where
  "demo_dvk = \<lparr>dk_mmu = demo_mk, dk_mempool_alloc = (\<lambda>s. None), dk_wait_handoff = (\<lambda>a s. s),
     dk_exit_mmap = (\<lambda>mm s. s), dk_exit_mmap_async = (\<lambda>mm s. s)\<rparr>"

lemma demo_dvk_spec: "def_spec demo_dvk"
  using demo_mk_spec by (simp add: def_spec_def demo_dvk_def)

lemma demo_task: "ac_find_task demo_q 8 = Some (demo_cur\<lparr>tk_pid := 8, tk_tgid := 8, tk_mm := 8192\<rparr>)"
  by (simp add: ac_find_task_def demo_q_def)

lemma demo_scan_begin:
  "\<exists>s1. ac_ioctl demo_dvk demo_env AC_IOCTL_SCAN_BEGIN (demo_user 8) None demo_dev =
     Some (0, R_scan_begin \<lparr>sb_pid = 8, sb_ref_pid = 0, sb_emit_events = 1, sb_resolved_pid = 8, sb_n_vmas = 2, sb_rwx_count = 1,
       sb_exec_count = 2, sb_anon_exec_count = 1, sb_truncated = 0\<rparr>, Some (scan_state True 8 demo_vmas fd_state_zero), s1)"
  by (simp add: ac_ioctl_def ioctl_scan_begin_def ac_get_fd_state_def vma_snapshot_cases demo_env_def demo_user_def demo_task demo_cur_def
      copy_out_def Let_def) (simp add: scan_state_def demo_vmas_def AC_MAX_VMAS_def is_rwx_def is_exec_def AC_VM_EXEC_def AC_VM_WRITE_def)

theorem ac_ioctl_fd_typed_witness:
  "\<exists>r. ac_ioctl demo_dvk demo_env AC_IOCTL_SCAN_BEGIN (demo_user 8) None demo_dev = Some r \<and> pd_wf (fst (snd (snd r)))"
proof -
  obtain s1 b st where e: "ac_ioctl demo_dvk demo_env AC_IOCTL_SCAN_BEGIN (demo_user 8) None demo_dev = Some (0, R_scan_begin b, Some st, s1)"
    using demo_scan_begin by blast
  then show ?thesis using ac_ioctl_fd_typed [OF _ e] by simp
qed

theorem scan_begin_get_roundtrip_witness:
  "\<exists>b pd1 s1. ac_ioctl demo_dvk demo_env AC_IOCTL_SCAN_BEGIN (demo_user 8) None demo_dev = Some (0, R_scan_begin b, pd1, s1) \<and>
     ac_ioctl demo_dvk demo_env AC_IOCTL_SCAN_GET (demo_user 8) pd1 s1 =
       Some (0, R_scan_get \<lparr>sg_pid = 0, sg_index = 1, sg_vma = vma_entry True (demo_vmas ! 1)\<rparr>, pd1, s1)"
proof -
  obtain s1 b st where e: "ac_ioctl demo_dvk demo_env AC_IOCTL_SCAN_BEGIN (demo_user 8) None demo_dev = Some (0, R_scan_begin b, Some st, s1)"
    using demo_scan_begin by blast
  let ?g = "\<lparr>sg_pid = 0, sg_index = 1, sg_vma = vma_entry True (demo_vmas ! 0)\<rparr>"
  have f: "ub_scan_begin (demo_user 8) = Some (the (ub_scan_begin (demo_user 8)))" "de_capable demo_env" "\<not> de_compat demo_env"
    "ub_scan_get (demo_user 8) = Some ?g" "ub_writable (demo_user 8)" by (simp_all add: demo_user_def demo_env_def)
  have d: "de_vmas demo_env m = demo_vmas" "length demo_vmas = 2" "take AC_MAX_VMAS demo_vmas = demo_vmas" "de_alloc_path demo_env" for m
    by (simp_all add: demo_env_def demo_vmas_def AC_MAX_VMAS_def)
  obtain t :: ktask and kept where "kept = take AC_MAX_VMAS (de_vmas demo_env (tk_mm t))" and
    "ac_ioctl demo_dvk demo_env AC_IOCTL_SCAN_GET (demo_user 8) (Some st) s1 =
      Some (if unat (sg_index ?g) < length kept
            then (0, R_scan_get (?g\<lparr>sg_vma := vma_entry (de_alloc_path demo_env) (kept ! unat (sg_index ?g))\<rparr>), Some st, s1)
            else (- EINVAL, R_none, Some st, s1))"
    using scan_begin_get_roundtrip [OF e f, of s1] by (elim exE conjE) (rule that, assumption+)
  then show ?thesis using e by (simp add: d)
qed

theorem ac_ioctl_references_balanced_witness:
  "\<exists>r. ac_ioctl demo_dvk demo_env AC_IOCTL_SCAN_BEGIN (demo_user 8) None demo_dev = Some r \<and>
     df_users (snd (snd (snd r))) 8192 = df_users demo_dev 8192"
proof -
  obtain s1 b st where e: "ac_ioctl demo_dvk demo_env AC_IOCTL_SCAN_BEGIN (demo_user 8) None demo_dev = Some (0, R_scan_begin b, Some st, s1)"
    using demo_scan_begin by blast
  show ?thesis using ac_ioctl_references_balanced [OF demo_dvk_spec _ e] by (simp add: e def_same_def)
qed

theorem ac_ioctl_total_witness:
  "\<exists>ret r pd' s'. ac_ioctl demo_dvk demo_env AC_IOCTL_CHECK_SYSCALLS (demo_user 8) None demo_dev = Some (ret, r, pd', s')"
  using ac_ioctl_total [of demo_env demo_dev demo_dvk AC_IOCTL_CHECK_SYSCALLS "demo_user 8" None] demo_sys_inv
  by (auto simp: demo_env_def demo_dev_def ac_probe.defs)

theorem module_pin_balanced_witness:
  "dv_module_refs (snd (ioctl_lock demo_env demo_dev)) = 1 \<and> dv_lock_count (snd (ioctl_lock demo_env demo_dev)) = 1"
proof -
  have z: "dv_lock_count demo_dev = 0" "dv_module_refs demo_dev = 0" by (simp_all add: demo_dev_def ac_probe.defs)
  have "dv_lock_count (snd (ioctl_lock demo_env demo_dev)) = 1" by (simp add: ioctl_lock_eq demo_env_def z AC_LOCK_MAX_def)
  with module_pin_balanced [OF z lock_run, of demo_env] show ?thesis by simp
qed

end
