(* ===== verification/AC_Lifecycle.thy ===== *)
theory AC_Lifecycle
  imports AC_Device
begin

text \<open>
  Loading and unloading, \<^verbatim>\<open>ac_init\<close> and \<^verbatim>\<open>ac_exit\<close> of \<^verbatim>\<open>src/src/anticheat_module.c\<close>: what is set up, in which order it
  is undone when a step fails, and what unloading leaves behind.
\<close>

subsection \<open>State\<close>

text \<open>
  Which kernel objects exist: the work queue, the two pools, the armed poller of missed hits and the misc
  device.  \<open>lc_misuse\<close> records that an object was destroyed while in use: a work queue with queued work or an armed
  poller, a pool with elements held by queued work, or kretprobes removed under an armed poller.
\<close>

record ac_mod = ac_dev +
  lc_wq :: bool
  lc_add_pool :: bool
  lc_kill_pool :: bool
  lc_poller :: bool
  lc_misc :: bool
  lc_misuse :: bool

text \<open>
  The outcome of the allocations and of \<^verbatim>\<open>misc_register\<close>, the kernel and a hash context for the table search and the
  baseline, \<^verbatim>\<open>register_kprobe\<close> on a symbol, \<^verbatim>\<open>CONFIG_X86_X32_ABI\<close>, and \<^verbatim>\<open>flush_workqueue(ac_wq)\<close>; for unloading, the slots
  whose processes exit just before \<^verbatim>\<open>ac_clear_protected\<close> reaches a given slot.
\<close>

record 's init_env =
  ie_wq :: bool
  ie_add_pool :: bool
  ie_kill_pool :: bool
  ie_kernel :: ac_kernel
  ie_ctx :: ac_sha256_ctx
  ie_register :: "string \<Rightarrow> int"
  ie_x32 :: bool
  ie_misc :: int
  ie_flush :: "'s \<Rightarrow> 's"
  ie_exits :: "nat \<Rightarrow> nat list"

definition destroy_workqueue :: "'a ac_mod_scheme \<Rightarrow> 'a ac_mod_scheme" where
  "destroy_workqueue s =
     s\<lparr>lc_wq := False, lc_misuse := (lc_misuse s \<or> df_wq s \<noteq> [] \<or> pb_kills s \<noteq> [] \<or> pr_release_q s \<noteq> [] \<or> lc_poller s)\<rparr>"

definition destroy_add_pool :: "'a ac_mod_scheme \<Rightarrow> 'a ac_mod_scheme" where
  "destroy_add_pool s = s\<lparr>lc_add_pool := False, lc_misuse := (lc_misuse s \<or> df_wq s \<noteq> [])\<rparr>"

definition destroy_kill_pool :: "'a ac_mod_scheme \<Rightarrow> 'a ac_mod_scheme" where
  "destroy_kill_pool s = s\<lparr>lc_kill_pool := False, lc_misuse := (lc_misuse s \<or> pb_kills s \<noteq> [])\<rparr>"

definition unregister_probes ::
  "'a ac_mod_scheme def_ops \<Rightarrow> 'a ac_mod_scheme init_env \<Rightarrow> 'a ac_mod_scheme \<Rightarrow> 'a ac_mod_scheme" where
  "unregister_probes k ie s =
     ac_unregister_kprobes k (ac_kprobes (ie_x32 ie)) (ac_kretprobes (ie_x32 ie)) (s\<lparr>lc_misuse := (lc_misuse s \<or> lc_poller s)\<rparr>)"

subsection \<open>Loading\<close>

definition degraded_msg :: "string list \<Rightarrow> nat \<Rightarrow> string" where
  "degraded_msg names i =
     ''module loaded DEGRADED ('' @ fmt_u (i + 1) @ ''/'' @ fmt_u (length names) @ ''): probe '' @ names ! i @
     '' unavailable; corresponding defense inactive''"

definition no_table_msg :: string where
  "no_table_msg = ''module loaded DEGRADED: syscall table not located; syscall integrity checks inactive''"

text \<open>The events at the end of a successful \<^verbatim>\<open>ac_init\<close>.\<close>

definition emit_degraded :: "addr \<Rightarrow> 'a ac_mod_scheme \<Rightarrow> 'a ac_mod_scheme" where
  "emit_degraded table s =
     (let s1 = foldl (\<lambda>s i. emit_ev AC_EV_INFO 0 ''?'' (degraded_msg (pb_degraded s) i) s) s [0..<length (pb_degraded s)]
      in if table = 0 then emit_ev AC_EV_INFO 0 ''?'' no_table_msg s1 else s1)"

text \<open>From \<^verbatim>\<open>ac_resolve_text_bounds\<close> to the captured baseline.\<close>

definition init_syscalls ::
  "'a ac_mod_scheme init_env \<Rightarrow> 'a ac_mod_scheme \<Rightarrow> (addr \<times> 'a ac_mod_scheme) option" where
  "init_syscalls ie s =
     (case ac_find_syscall_table (ie_kernel ie) (ac_resolve_text_bounds (ie_kernel ie) (dv_text s)) of
        None \<Rightarrow> None
      | Some (table, tx) \<Rightarrow>
          (let sy = (dv_sys s)\<lparr>sy_table := table\<rparr>
           in case (if table \<noteq> 0 then ac_capture_syscall_baseline (ie_kernel ie) (ie_ctx ie) sy else Some sy) of
                None \<Rightarrow> None
              | Some sy1 \<Rightarrow> Some (table, s\<lparr>dv_text := tx, dv_sys := sy1\<rparr>)))"

definition ac_init ::
  "'a ac_mod_scheme def_ops \<Rightarrow> 'a ac_mod_scheme init_env \<Rightarrow> 'a ac_mod_scheme \<Rightarrow> (int \<times> 'a ac_mod_scheme) option" where
  "ac_init k ie s =
     (if \<not> ie_wq ie then Some (- ENOMEM, s)
      else
        (let s1 = s\<lparr>lc_wq := True\<rparr>
         in if \<not> ie_add_pool ie then Some (- ENOMEM, destroy_workqueue s1)
            else
              (let s2 = s1\<lparr>lc_add_pool := True\<rparr>
               in if \<not> ie_kill_pool ie then Some (- ENOMEM, destroy_workqueue (destroy_add_pool s2))
                  else
                    (case init_syscalls ie (s2\<lparr>lc_kill_pool := True\<rparr>) of
                       None \<Rightarrow> None
                     | Some (table, s4) \<Rightarrow>
                         (let s5 = ac_register_kprobes (ie_register ie) (ac_kprobes (ie_x32 ie)) (ac_kretprobes (ie_x32 ie)) s4;
                              s6 = s5\<lparr>lc_poller := True\<rparr>;
                              ret = ie_misc ie
                          in if ret \<noteq> 0
                             then Some (ret, destroy_workqueue (destroy_add_pool (destroy_kill_pool
                                    (ie_flush ie (unregister_probes k ie (s6\<lparr>lc_poller := False\<rparr>))))))
                             else Some (0, emit_degraded table (s6\<lparr>lc_misc := True\<rparr>)))))))"

subsection \<open>Unloading\<close>

text \<open>
  A protected process that exits calls \<^verbatim>\<open>ac_mmu_release\<close> for its slot, up to the moment at which \<^verbatim>\<open>ac_clear_protected\<close> marks the
  slot; \<open>clear_racing\<close> is \<^verbatim>\<open>ac_clear_protected\<close> with such exits in between.
\<close>

definition racing_exit :: "nat \<Rightarrow> 'a ac_reg_scheme \<Rightarrow> 'a ac_reg_scheme" where
  "racing_exit i s =
     (if i < AC_PROT_MAX \<and> real_mm (pe_mm (pr_slots s ! i)) then ac_mmu_release i (pe_mm (pr_slots s ! i)) s else s)"

definition clear_racing :: "'a ac_reg_scheme mmu_ops \<Rightarrow> (nat \<Rightarrow> nat list) \<Rightarrow> 'a ac_reg_scheme \<Rightarrow> 'a ac_reg_scheme" where
  "clear_racing mk exits s = foldl (\<lambda>s i. clear_slot mk (fold racing_exit (exits i) s) i) s [0..<AC_PROT_MAX]"

definition ac_exit ::
  "'a ac_mod_scheme def_ops \<Rightarrow> 'a ac_mod_scheme init_env \<Rightarrow> 'a ac_mod_scheme \<Rightarrow> 'a ac_mod_scheme" where
  "ac_exit k ie s =
     (let s1 = s\<lparr>lc_misc := False\<rparr>;
          s2 = s1\<lparr>lc_poller := False\<rparr>;
          s3 = unregister_probes k ie s2;
          s4 = ie_flush ie s3;
          s5 = clear_racing (dk_mmu k) (ie_exits ie) s4;
          s6 = ie_flush ie s5
      in destroy_add_pool (destroy_kill_pool (destroy_workqueue s6)))"

subsection \<open>What the kernel promises\<close>

definition work_idle :: "'a ac_probe_scheme \<Rightarrow> bool" where
  "work_idle s \<longleftrightarrow> df_wq s = [] \<and> pb_kills s = [] \<and> pr_release_q s = []"

text \<open>
  \<^verbatim>\<open>flush_workqueue\<close> waits until everything queued has run: afterwards nothing is queued and, the items being registry
  calls that have returned, the registry is between calls; the items touch neither probes nor objects.  When the only
  queued work is release work, it has run each of these workers, in the order of the queue.
\<close>

definition run_releases :: "'a ac_reg_scheme mmu_ops \<Rightarrow> 'a ac_reg_scheme \<Rightarrow> 'a ac_reg_scheme" where
  "run_releases mk s = (fold (ac_prot_release_worker mk) (pr_release_q s) s)\<lparr>pr_release_q := []\<rparr>"

definition flush_spec :: "'a ac_mod_scheme mmu_ops \<Rightarrow> ('a ac_mod_scheme \<Rightarrow> 'a ac_mod_scheme) \<Rightarrow> bool" where
  "flush_spec mk fl \<longleftrightarrow> (\<forall>s. work_idle (fl s) \<and> (reg_wf s \<longrightarrow> reg_wf (fl s)) \<and> (df_wq s = [] \<and> pb_kills s = [] \<longrightarrow> fl s = run_releases mk s) \<and>
     pb_kernel (fl s) = pb_kernel s \<and> df_pins (fl s) = df_pins s \<and> lc_wq (fl s) = lc_wq s \<and> lc_add_pool (fl s) = lc_add_pool s \<and>
     lc_kill_pool (fl s) = lc_kill_pool s \<and> lc_poller (fl s) = lc_poller s \<and> lc_misc (fl s) = lc_misc s \<and> lc_misuse (fl s) = lc_misuse s)"

text \<open>Tearing down an address space calls the release of the notifier registered for it, if there is one.\<close>

definition teardown_spec :: "'a ac_def_scheme def_ops \<Rightarrow> bool" where
  "teardown_spec k \<longleftrightarrow> (\<forall>mm s. dk_exit_mmap k mm s = s \<or> (\<exists>i < AC_PROT_MAX. dk_exit_mmap k mm s = ac_mmu_release i mm s))"

text \<open>The probes in the kernel are those marked as registered.\<close>

definition marked :: "bool list \<Rightarrow> string list \<Rightarrow> string list" where
  "marked oks names = map snd (filter fst (zip oks names))"

definition probes_attached :: "bool \<Rightarrow> 'a ac_probe_scheme \<Rightarrow> bool" where
  "probes_attached x32 s \<longleftrightarrow>
     pb_kernel s = marked (pb_kp_ok s) (map kd_symbol (ac_kprobes x32)) @ marked (pb_kretp_ok s) (map kr_symbol (ac_kretprobes x32))"

text \<open>The module's static data before \<^verbatim>\<open>ac_init\<close>.\<close>

definition mod_boot :: "nat \<Rightarrow> 'a ac_mod_scheme \<Rightarrow> bool" where
  "mod_boot nr s \<longleftrightarrow> pr_slots s = replicate AC_PROT_MAX free_entry \<and> work_idle s \<and> df_pins s = replicate AC_EXEC_PIN_MAX 0 \<and>
     pb_kernel s = [] \<and> length (pb_kp_ok s) = 7 \<and> length (pb_kretp_ok s) = 7 \<and> dv_sys s = sys_boot nr 0 \<and>
     \<not> lc_wq s \<and> \<not> lc_add_pool s \<and> \<not> lc_kill_pool s \<and> \<not> lc_poller s \<and> \<not> lc_misc s \<and> \<not> lc_misuse s"

subsection \<open>Unloading leaves nothing behind\<close>

lemma unregister_marked_syms: "unregister_syms oks names (marked oks names @ ys) = ys"
  unfolding unregister_syms_def marked_def
  by (induction oks names arbitrary: ys rule: list_induct2') (auto simp: case_prod_beta)

lemma release_more [simp]: "ac_reg.more (ac_mmu_release i mm s) = ac_reg.more s"
  by (simp add: ac_mmu_release_def upd_slot_def Let_def)

lemma release_wf:
  assumes wf: "reg_wf s" and i: "i < AC_PROT_MAX" and m: "m \<noteq> 0"
  shows "reg_wf (ac_mmu_release i m s)"
proof (cases "pe_mm (pr_slots s ! i) = m")
  case True
  then have r: "real_mm m" using reg_wfD(2) [OF wf i] m by (simp add: real_mm_def)
  have not_rem: "\<not> pe_removing (pr_slots s ! i)" using reg_wfD(3) [OF wf i] True m by auto
  have sl: "pr_slots (ac_mmu_release i m s) = (pr_slots s)[i := (pr_slots s ! i)\<lparr>pe_mm := 0, pe_removing := True, pe_release_mm := m\<rparr>]"
    using i reg_wfD(1) [OF wf] not_rem True by (simp add: ac_mmu_release_def Let_def)
  have only: "\<And>j. j < AC_PROT_MAX \<Longrightarrow> pe_mm (pr_slots s ! j) = m \<Longrightarrow> j = i" by (rule reg_wfD(4) [OF wf _ i _ True r])
  show ?thesis by (rule reg_upd [OF wf i sl _ _ r _ only]) (simp_all add: True)
next
  case False
  then show ?thesis using wf by (simp add: ac_mmu_release_def Let_def)
qed

lemma mmput_teardown:
  assumes t: "teardown_spec k" and m: "m \<noteq> 0"
  shows "reg_wf s \<Longrightarrow> reg_wf (mmput k m s)" and "ac_def.more (mmput k m s) = ac_def.more s" and "df_wq (mmput k m s) = df_wq s"
    and "df_pins (mmput k m s) = df_pins s"
proof -
  let ?s = "drop_user m s"
  have d: "reg_wf ?s \<longleftrightarrow> reg_wf s" "ac_def.more ?s = ac_def.more s" "df_wq ?s = df_wq s" "df_pins ?s = df_pins s"
    using reg_wf_cong [of ?s s] by (simp_all add: drop_user_def)
  have r: "ac_def.more (ac_mmu_release i m ?s) = ac_def.more s" "df_wq (ac_mmu_release i m ?s) = df_wq s"
    "df_pins (ac_mmu_release i m ?s) = df_pins s" for i
    by (simp_all add: ac_mmu_release_def upd_slot_def drop_user_def Let_def)
  have "mmput k m s = ?s \<or> (\<exists>i < AC_PROT_MAX. mmput k m s = ac_mmu_release i m ?s)"
    using t unfolding teardown_spec_def by (cases "df_users ?s m = 0") (simp_all add: mmput_def Let_def)
  then consider "mmput k m s = ?s" | i where "i < AC_PROT_MAX" "mmput k m s = ac_mmu_release i m ?s" by blast
  note c = this
  show "reg_wf s \<Longrightarrow> reg_wf (mmput k m s)" using c d(1) release_wf [OF _ _ m] by cases simp_all
  show "ac_def.more (mmput k m s) = ac_def.more s" using c d(2) r(1) by cases simp_all
  show "df_wq (mmput k m s) = df_wq s" using c d(3) r(2) by cases simp_all
  show "df_pins (mmput k m s) = df_pins s" using c d(4) r(3) by cases simp_all
qed

lemma drop_pins_teardown:
  assumes "teardown_spec k"
  shows "reg_wf s \<Longrightarrow> reg_wf (foldl (drop_pin k) s is)" and "ac_def.more (foldl (drop_pin k) s is) = ac_def.more s"
proof -
  have one: "reg_wf s \<Longrightarrow> reg_wf (drop_pin k s i)" "ac_def.more (drop_pin k s i) = ac_def.more s" for s i
    using mmput_teardown(1,2) [OF assms, of "df_pins s ! i" "s\<lparr>df_pins := (df_pins s)[i := 0]\<rparr>"]
      reg_wf_cong [of "s\<lparr>df_pins := (df_pins s)[i := 0]\<rparr>" s] by (simp_all add: drop_pin_def Let_def)
  show "reg_wf s \<Longrightarrow> reg_wf (foldl (drop_pin k) s is)" by (induction "is" arbitrary: s) (simp_all add: one)
  show "ac_def.more (foldl (drop_pin k) s is) = ac_def.more s" by (induction "is" arbitrary: s) (simp_all add: one)
qed

lemma more_fields:
  fixes s s' :: "'a ac_mod_scheme"
  assumes "ac_def.more s' = ac_def.more s"
  shows "pb_kernel s' = pb_kernel s" "pb_kills s' = pb_kills s" "lc_wq s' = lc_wq s" "lc_add_pool s' = lc_add_pool s"
    "lc_kill_pool s' = lc_kill_pool s" "lc_poller s' = lc_poller s" "lc_misc s' = lc_misc s" "lc_misuse s' = lc_misuse s"
  using assms by (cases s; cases s'; simp)+

lemma clear_slot_rest:
  assumes "mmu_spec mk" and "i < length (pr_slots s)"
  shows "pr_release_q (clear_slot mk s i) = pr_release_q s" and "ac_reg.more (clear_slot mk s i) = ac_reg.more s"
    and "length (pr_slots (clear_slot mk s i)) = length (pr_slots s)"
  using assms by (simp_all add: clear_slot_def clear_mark_def mmu_spec_def removing_done_def ac_mmu_release_def upd_slot_def Let_def)

text \<open>
  What holds while the registry is cleared: the slots already passed are free, and every queued release belongs to a slot that was
  freed by an exit and still remembers its address space.
\<close>

definition clearing :: "nat \<Rightarrow> 'a ac_reg_scheme \<Rightarrow> 'a ac_reg_scheme \<Rightarrow> bool" where
  "clearing n s0 s \<longleftrightarrow> reg_wf s \<and> ac_reg.more s = ac_reg.more s0 \<and> (\<forall>i < n. pe_mm (pr_slots s ! i) = 0) \<and>
     distinct (pr_release_q s) \<and> (\<forall>i \<in> set (pr_release_q s). i < AC_PROT_MAX \<and> pe_mm (pr_slots s ! i) = 0 \<and> pe_release_mm (pr_slots s ! i) \<noteq> 0)"

lemma clearing_exit:
  assumes c: "clearing n s0 s"
  shows "clearing n s0 (racing_exit i s)"
proof (cases "i < AC_PROT_MAX \<and> real_mm (pe_mm (pr_slots s ! i))")
  case True
  let ?m = "pe_mm (pr_slots s ! i)"
  have wf: "reg_wf s" and i: "i < AC_PROT_MAX" "real_mm ?m" using c True by (simp_all add: clearing_def)
  have m0: "?m \<noteq> 0" using i(2) by (simp add: real_mm_def)
  have rem: "\<not> pe_removing (pr_slots s ! i)" using reg_wfD(3) [OF wf i(1)] m0 by blast
  have r: "racing_exit i s = ac_mmu_release i ?m s" using True by (simp add: racing_exit_def)
  have sl: "pr_slots (ac_mmu_release i ?m s) = (pr_slots s)[i := (pr_slots s ! i)\<lparr>pe_mm := 0, pe_removing := True, pe_release_mm := ?m\<rparr>]"
    and q: "pr_release_q (ac_mmu_release i ?m s) = pr_release_q s @ [i]"
    using i(1) reg_wfD(1) [OF wf] rem by (simp_all add: ac_mmu_release_def Let_def)
  show ?thesis unfolding clearing_def r q sl
    using c m0 i(1) release_wf [OF wf i(1) m0] reg_wfD(1) [OF wf] by (auto simp: clearing_def nth_list_update)
next
  case False
  then have "racing_exit i s = s" by (simp only: racing_exit_def if_not_P if_False)
  then show ?thesis using c by simp
qed

lemma clearing_exits: "clearing n s0 s \<Longrightarrow> clearing n s0 (fold racing_exit is s)"
  by (induction "is" arbitrary: s) (simp_all add: clearing_exit)

lemma clearing_slot:
  assumes mk: "mmu_spec mk" and c: "clearing n s0 s" and n: "n < AC_PROT_MAX"
  shows "clearing (Suc n) s0 (clear_slot mk s n)"
proof -
  have wf: "reg_wf s" using c by (simp add: clearing_def)
  note e = clear_slot_effect [OF mk wf n] and r = clear_slot_rest [OF mk, of n s]
  have l: "n < length (pr_slots s)" using n reg_wfD(1) [OF wf] by simp
  have "pe_mm (pr_slots s ! n) = 0" if "\<not> real_mm (pe_mm (pr_slots s ! n))" using that reg_wfD(2) [OF wf n] by (auto simp: real_mm_def)
  moreover have "n \<notin> set (pr_release_q s)" if "real_mm (pe_mm (pr_slots s ! n))" using that c by (auto simp: clearing_def real_mm_def)
  ultimately show ?thesis
    unfolding clearing_def r(1) [OF l] r(2) [OF l] e
    using c clear_slot_wf [OF mk wf n] l by (auto simp: clearing_def nth_list_update less_Suc_eq)
qed

lemma clearing_all:
  assumes "mmu_spec mk" and "reg_wf s" and "pr_release_q s = []"
  shows "clearing AC_PROT_MAX s (clear_racing mk exits s)"
proof -
  have "clearing n s (foldl (\<lambda>s i. clear_slot mk (fold racing_exit (exits i) s) i) s [0..<n])" if "n \<le> AC_PROT_MAX" for n
    using that
  proof (induction n)
    case 0
    then show ?case using assms(2,3) by (simp add: clearing_def)
  next
    case (Suc n)
    then show ?case using clearing_slot [OF assms(1) clearing_exits, of n s] by simp
  qed
  then show ?thesis by (simp add: clear_racing_def)
qed

lemma clear_racing_none: "clear_racing mk (\<lambda>_. []) = ac_clear_protected mk"
  by (simp add: fun_eq_iff clear_racing_def ac_clear_protected_def)

text \<open>The release workers free their slots and protect nothing.\<close>

lemma run_releases_frees:
  assumes mk: "mmu_spec mk" and c: "clearing AC_PROT_MAX s0 s"
  shows "\<forall>i < AC_PROT_MAX. pe_mm (pr_slots (run_releases mk s) ! i) = 0" and "ac_reg.more (run_releases mk s) = ac_reg.more s0"
    and "length (pr_slots (run_releases mk s)) = AC_PROT_MAX"
proof -
  have step: "(\<forall>i < AC_PROT_MAX. pe_mm (pr_slots (ac_prot_release_worker mk j s) ! i) = 0) \<and> ac_reg.more (ac_prot_release_worker mk j s) = ac_reg.more s \<and>
      length (pr_slots (ac_prot_release_worker mk j s)) = AC_PROT_MAX \<and>
      (\<forall>i < AC_PROT_MAX. i \<noteq> j \<longrightarrow> pr_slots (ac_prot_release_worker mk j s) ! i = pr_slots s ! i)"
    if "\<forall>i < AC_PROT_MAX. pe_mm (pr_slots s ! i) = 0" "length (pr_slots s) = AC_PROT_MAX" "j < AC_PROT_MAX" "pe_release_mm (pr_slots s ! j) \<noteq> 0"
    for j and s :: "'a ac_reg_scheme"
    using that mk by (auto simp: ac_prot_release_worker_def mmu_spec_def ac_mmu_release_def release_done_def upd_slot_def nth_list_update Let_def)
  have "(\<forall>i < AC_PROT_MAX. pe_mm (pr_slots (fold (ac_prot_release_worker mk) q s) ! i) = 0) \<and>
      ac_reg.more (fold (ac_prot_release_worker mk) q s) = ac_reg.more s \<and> length (pr_slots (fold (ac_prot_release_worker mk) q s)) = AC_PROT_MAX"
    if "\<forall>i < AC_PROT_MAX. pe_mm (pr_slots s ! i) = 0" "length (pr_slots s) = AC_PROT_MAX" "distinct q"
      "\<forall>j \<in> set q. j < AC_PROT_MAX \<and> pe_release_mm (pr_slots s ! j) \<noteq> 0" for q and s :: "'a ac_reg_scheme"
    using that
  proof (induction q arbitrary: s)
    case (Cons j q)
    note st = step [OF Cons.prems(1,2), of j]
    have "(\<forall>i < AC_PROT_MAX. pe_mm (pr_slots (fold (ac_prot_release_worker mk) q (ac_prot_release_worker mk j s)) ! i) = 0) \<and>
        ac_reg.more (fold (ac_prot_release_worker mk) q (ac_prot_release_worker mk j s)) = ac_reg.more (ac_prot_release_worker mk j s) \<and>
        length (pr_slots (fold (ac_prot_release_worker mk) q (ac_prot_release_worker mk j s))) = AC_PROT_MAX"
      using st Cons.prems by (intro Cons.IH) auto
    then show ?case using st Cons.prems by simp
  qed simp
  from this [of s "pr_release_q s"]
  show "\<forall>i < AC_PROT_MAX. pe_mm (pr_slots (run_releases mk s) ! i) = 0" "ac_reg.more (run_releases mk s) = ac_reg.more s0"
    "length (pr_slots (run_releases mk s)) = AC_PROT_MAX"
    using c reg_wfD(1) [of s] by (simp_all add: run_releases_def clearing_def)
qed

lemma reg_more_fields:
  fixes s s' :: "'a ac_mod_scheme"
  assumes "ac_reg.more s' = ac_reg.more s"
  shows "ac_def.more s' = ac_def.more s" "df_wq s' = df_wq s" "df_pins s' = df_pins s"
  using assms by (cases s; cases s'; simp)+

lemma flush_specD:
  assumes "flush_spec mk fl"
  shows "work_idle (fl s)" "reg_wf s \<Longrightarrow> reg_wf (fl s)" "df_wq s = [] \<Longrightarrow> pb_kills s = [] \<Longrightarrow> fl s = run_releases mk s" "pb_kernel (fl s) = pb_kernel s"
    "df_pins (fl s) = df_pins s" "lc_wq (fl s) = lc_wq s" "lc_add_pool (fl s) = lc_add_pool s" "lc_kill_pool (fl s) = lc_kill_pool s"
    "lc_poller (fl s) = lc_poller s" "lc_misc (fl s) = lc_misc s" "lc_misuse (fl s) = lc_misuse s"
  using assms by (simp_all add: flush_spec_def)

lemma unregister_probes_rest:
  fixes k :: "'a ac_mod_scheme def_ops"
  assumes t: "teardown_spec k"
  shows "reg_wf s \<Longrightarrow> reg_wf (unregister_probes k ie s)"
    and "probes_attached (ie_x32 ie) s \<Longrightarrow> pb_kernel (unregister_probes k ie s) = []"
    and "pb_kills (unregister_probes k ie s) = pb_kills s" and "lc_wq (unregister_probes k ie s) = lc_wq s"
    and "lc_add_pool (unregister_probes k ie s) = lc_add_pool s" and "lc_kill_pool (unregister_probes k ie s) = lc_kill_pool s"
    and "lc_poller (unregister_probes k ie s) = lc_poller s" and "lc_misc (unregister_probes k ie s) = lc_misc s"
    and "lc_misuse (unregister_probes k ie s) \<longleftrightarrow> lc_misuse s \<or> lc_poller s"
proof -
  define s2 where "s2 = s\<lparr>lc_misuse := (lc_misuse s \<or> lc_poller s),
     pb_kp_n := 0, pb_kp_ok := replicate (length (pb_kp_ok s)) False,
     pb_kernel := unregister_syms (pb_kretp_ok s) (map kr_symbol (ac_kretprobes (ie_x32 ie)))
       (unregister_syms (pb_kp_ok s) (map kd_symbol (ac_kprobes (ie_x32 ie))) (pb_kernel s)),
     pb_kretp_n := 0, pb_kretp_ok := replicate (length (pb_kretp_ok s)) False\<rparr>"
  have u: "unregister_probes k ie s = foldl (drop_pin k) s2 [0..<AC_EXEC_PIN_MAX]"
    by (simp add: unregister_probes_def ac_unregister_kprobes_def ac_exec_pins_drop_all_def s2_def Let_def)
  note m = more_fields [OF drop_pins_teardown(2) [OF t, of s2 "[0..<AC_EXEC_PIN_MAX]"]]
  have "reg_wf s2 \<longleftrightarrow> reg_wf s" by (rule reg_wf_cong) (simp add: s2_def)
  then show "reg_wf s \<Longrightarrow> reg_wf (unregister_probes k ie s)" using drop_pins_teardown(1) [OF t] by (simp add: u)
  have "probes_attached (ie_x32 ie) s \<Longrightarrow> pb_kernel s2 = []"
    using unregister_marked_syms [of "pb_kretp_ok s" "map kr_symbol (ac_kretprobes (ie_x32 ie))" "[]"]
    by (simp add: s2_def probes_attached_def unregister_marked_syms)
  then show "probes_attached (ie_x32 ie) s \<Longrightarrow> pb_kernel (unregister_probes k ie s) = []" by (simp add: u m(1))
qed (simp_all add: unregister_probes_def ac_unregister_kprobes_def ac_exec_pins_drop_all_def Let_def more_fields [OF drop_pins_teardown(2) [OF t]])

lemma unregister_probes_pins:
  assumes "def_spec k" and "length (df_pins s) = AC_EXEC_PIN_MAX"
  shows "df_pins (unregister_probes k ie s) = replicate AC_EXEC_PIN_MAX 0"
  using conjunct2 [OF drop_pins_prefix [OF assms(1), where x = 1]] assms(2)
  by (simp add: unregister_probes_def ac_unregister_kprobes_def ac_exec_pins_drop_all_def Let_def)

text \<open>C13: Unloading leaves nothing behind and destroys nothing in use.  Whatever is protected, pinned or queued when the
  module is removed, and whichever protected processes exit while the registry is being cleared, afterwards no process is
  protected, no probe is in the kernel, no exec pin is held, no work is queued and every object is gone, and no queue, pool or
  probe was destroyed while something still used it.\<close>

theorem ac_exit_clean:
  assumes k: "def_spec k" "teardown_spec k" and fl: "flush_spec (dk_mmu k) (ie_flush ie)"
    and s: "reg_wf s" "probes_attached (ie_x32 ie) s" "length (df_pins s) = AC_EXEC_PIN_MAX" "\<not> lc_misuse s"
    and s': "s' = ac_exit k ie s"
  shows "\<not> ac_is_protected_mm mm s' \<and> pb_kernel s' = [] \<and> df_pins s' = replicate AC_EXEC_PIN_MAX 0 \<and> work_idle s' \<and>
    \<not> lc_misc s' \<and> \<not> lc_poller s' \<and> \<not> lc_wq s' \<and> \<not> lc_add_pool s' \<and> \<not> lc_kill_pool s' \<and> \<not> lc_misuse s'"
proof -
  define s2 where "s2 = s\<lparr>lc_misc := False, lc_poller := False\<rparr>"
  define s4 where "s4 = ie_flush ie (unregister_probes k ie s2)"
  define s5 where "s5 = clear_racing (dk_mmu k) (ie_exits ie) s4"
  define s6 where "s6 = run_releases (dk_mmu k) s5"
  note F = flush_specD [OF fl] and U = unregister_probes_rest [OF k(2), where ie = ie] and mk = def_specD(1) [OF k(1)]
  have s2: "reg_wf s2" "probes_attached (ie_x32 ie) s2" "length (df_pins s2) = AC_EXEC_PIN_MAX" "\<not> lc_misuse s2" "\<not> lc_poller s2" "\<not> lc_misc s2"
    using s reg_wf_cong [of s2 s] by (simp_all add: s2_def probes_attached_def)
  have s4: "reg_wf s4" "pb_kernel s4 = []" "df_pins s4 = replicate AC_EXEC_PIN_MAX 0" "work_idle s4" "\<not> lc_misuse s4" "\<not> lc_poller s4" "\<not> lc_misc s4"
    using F U s2 unregister_probes_pins [OF k(1) s2(3)] by (simp_all add: s4_def)
  have c: "clearing AC_PROT_MAX s4 s5" unfolding s5_def using s4(1,4) by (intro clearing_all [OF mk]) (simp_all add: work_idle_def)
  have m5: "ac_reg.more s5 = ac_reg.more s4" using c by (simp add: clearing_def)
  note f5 = reg_more_fields [OF m5]
  have "df_wq s5 = []" "pb_kills s5 = []" using s4(4) f5 more_fields [OF f5(1)] by (simp_all add: work_idle_def)
  then have fl6: "ie_flush ie s5 = s6" unfolding s6_def by (rule F(3))
  note r = run_releases_frees [OF mk c, folded s6_def] and f6 = reg_more_fields [OF run_releases_frees(2) [OF mk c, folded s6_def]]
  have idle: "work_idle s6" using F(1) [of s5] by (simp add: fl6)
  have e: "s' = destroy_add_pool (destroy_kill_pool (destroy_workqueue s6))"
    by (simp add: s' ac_exit_def Let_def fl6 [unfolded s5_def s4_def s2_def])
  have "mm \<noteq> 0 \<Longrightarrow> \<not> some_slot_holds mm (pr_slots s6)" using r(1,3) by (auto simp: some_slot_holds_iff in_set_conv_nth)
  then show ?thesis
    using idle s4 f6 more_fields [OF f6(1)]
    by (auto simp: e destroy_add_pool_def destroy_kill_pool_def destroy_workqueue_def work_idle_def ac_is_protected_mm_def)
qed

subsection \<open>Loading is all or nothing\<close>

text \<open>When both handlers are resolved, so that the search starts at all, its windows do not wrap around the address space.\<close>

definition windows_fit :: "ac_kernel \<Rightarrow> ac_text \<Rightarrow> bool" where
  "windows_fit k tx \<longleftrightarrow>
     (let rh = ac_normalize_func k (ac_lookup k ''__x64_sys_read'');
          wh = ac_normalize_func k (ac_lookup k ''__x64_sys_write'');
          lo = (if tx_etext tx \<noteq> 0 then tx_etext tx else if tx_stext tx \<noteq> 0 then tx_stext tx else rh)
      in rh \<noteq> 0 \<and> wh \<noteq> 0 \<longrightarrow> unat lo + 0x2000008 \<le> 2 ^ 64 \<and> 0x2000008 \<le> unat rh)"

lemma find_table_returns:
  assumes "windows_fit k tx"
  shows "\<exists>base tx'. ac_find_syscall_table k tx = Some (base, tx')"
proof -
  define rh where "rh = ac_normalize_func k (ac_lookup k ''__x64_sys_read'')"
  define wh where "wh = ac_normalize_func k (ac_lookup k ''__x64_sys_write'')"
  define lo where "lo = (if tx_etext tx \<noteq> 0 then tx_etext tx else if tx_stext tx \<noteq> 0 then tx_stext tx else rh)"
  show ?thesis
  proof (cases "rh = 0 \<or> wh = 0")
    case True
    then show ?thesis unfolding ac_find_syscall_table_def Let_def rh_def [symmetric] wh_def [symmetric] by simp
  next
    case False
    then have fwd: "unat lo + 0x2000008 \<le> 2 ^ 64" and bwd: "0x2000008 \<le> unat rh"
      using assms by (simp_all add: windows_fit_def Let_def rh_def [symmetric] wh_def [symmetric] lo_def [symmetric])
    have hi: "unat (lo + 0x2000000) = unat lo + 0x2000000" using fwd by (simp add: unat_word_ariths)
    have "0x2000000 \<le> rh" using bwd by (simp add: word_le_nat_alt)
    then have low8: "8 \<le> unat (rh - 0x2000000)" using bwd by (simp add: unat_sub)
    obtain f where f: "scan_forward k rh wh (lo + 0x2000000) lo = Some f"
      using scan_forward_returns [of "lo + 0x2000000" k rh wh lo] fwd by (auto simp: hi)
    obtain g where g: "scan_backward k rh wh (rh - 0x2000000) rh = Some g"
      using scan_backward_returns [of "rh - 0x2000000" k rh wh rh, OF low8] by blast
    show ?thesis
      using f g unfolding ac_find_syscall_table_def Let_def rh_def [symmetric] wh_def [symmetric] lo_def [symmetric]
      by (auto split: option.split)
  qed
qed

lemma capture_returns:
  assumes "table \<noteq> 0" and "length (ctx_buf c0) = 64"
  shows "\<exists>sy. ac_capture_syscall_baseline k c0 (sys_boot (k_NR_syscalls k) table) = Some sy \<and> sys_inv (k_NR_syscalls k) sy \<and>
    sy_table sy = table \<and> sy_baseline_ready sy"
proof -
  let ?nr = "k_NR_syscalls k"
  have t: "sy_table (sys_boot ?nr table) = table" by (simp add: sys_boot_def)
  show ?thesis
    using assms unfolding ac_capture_syscall_baseline_def t
    by (simp add: capture_fold sha256_hex_value) (simp add: sys_inv_def upd_upto_def sys_boot_def split: option.split)
qed

lemma init_syscalls_returns:
  assumes "windows_fit (ie_kernel ie) (ac_resolve_text_bounds (ie_kernel ie) (dv_text s))" and "length (ctx_buf (ie_ctx ie)) = 64"
    and "dv_sys s = sys_boot (k_NR_syscalls (ie_kernel ie)) 0"
  shows "\<exists>table tx sy. init_syscalls ie s = Some (table, s\<lparr>dv_text := tx, dv_sys := sy\<rparr>) \<and> sys_inv (k_NR_syscalls (ie_kernel ie)) sy \<and>
    sy_table sy = table \<and> sy_baseline_ready sy = (table \<noteq> 0)"
proof -
  let ?nr = "k_NR_syscalls (ie_kernel ie)"
  obtain table tx where f: "ac_find_syscall_table (ie_kernel ie) (ac_resolve_text_bounds (ie_kernel ie) (dv_text s)) = Some (table, tx)"
    using find_table_returns [OF assms(1)] by blast
  have b: "(dv_sys s)\<lparr>sy_table := table\<rparr> = sys_boot ?nr table" by (simp add: assms(3) sys_boot_def)
  show ?thesis
  proof (cases "table = 0")
    case True
    have i: "init_syscalls ie s = Some (0, s\<lparr>dv_text := tx, dv_sys := sys_boot ?nr 0\<rparr>)" using b f by (simp add: True init_syscalls_def Let_def)
    show ?thesis by (rule exI [of _ 0], rule exI [of _ tx], rule exI [of _ "sys_boot ?nr 0"], unfold i) (simp add: sys_boot_def sys_inv_def)
  next
    case False
    then obtain sy where sy: "ac_capture_syscall_baseline (ie_kernel ie) (ie_ctx ie) (sys_boot ?nr table) = Some sy"
      "sys_inv ?nr sy" "sy_table sy = table" "sy_baseline_ready sy" using capture_returns [OF False assms(2)] by blast
    have i: "init_syscalls ie s = Some (table, s\<lparr>dv_text := tx, dv_sys := sy\<rparr>)" using False f sy(1) by (simp add: init_syscalls_def b Let_def)
    show ?thesis by (rule exI [of _ table], rule exI [of _ tx], rule exI [of _ sy], unfold i) (simp add: sy False)
  qed
qed

text \<open>Registration touches only the probe tables.\<close>

definition reg_frame :: "'a ac_mod_scheme \<Rightarrow> 'a ac_mod_scheme \<Rightarrow> bool" where
  "reg_frame s s' \<longleftrightarrow> pr_slots s' = pr_slots s \<and> pr_ring s' = pr_ring s \<and> pr_release_q s' = pr_release_q s \<and> df_wq s' = df_wq s \<and>
     df_pins s' = df_pins s \<and> pb_kills s' = pb_kills s \<and> dv_sys s' = dv_sys s \<and> lc_wq s' = lc_wq s \<and> lc_add_pool s' = lc_add_pool s \<and>
     lc_kill_pool s' = lc_kill_pool s \<and> lc_poller s' = lc_poller s \<and> lc_misc s' = lc_misc s \<and> lc_misuse s' = lc_misuse s"

lemma register_frame: "reg_frame s (ac_register_kprobes reg kps krs s)"
proof -
  have a: "reg_frame s (foldl (register_one_kp reg kps) s' is)" if "reg_frame s s'" for s s' :: "'a ac_mod_scheme" and "is"
    using that by (induction "is" arbitrary: s') (simp_all add: reg_frame_def register_one_kp_def Let_def)
  have b: "reg_frame s (foldl (register_one_kretp reg krs) s' is)" if "reg_frame s s'" for s s' :: "'a ac_mod_scheme" and "is"
    using that by (induction "is" arbitrary: s') (simp_all add: reg_frame_def register_one_kretp_def Let_def)
  show ?thesis unfolding ac_register_kprobes_def by (intro a b) (simp add: reg_frame_def)
qed

lemma marked_map: "marked (map P xs) (map f xs) = map f (filter P xs)"
  by (induction xs) (simp_all add: marked_def)

lemma register_attached:
  assumes "length (pb_kp_ok s) = 7" "length (pb_kretp_ok s) = 7" "pb_kernel s = []"
  shows "probes_attached x32 (ac_register_kprobes reg (ac_kprobes x32) (ac_kretprobes x32) s)"
proof -
  have l: "length (pb_kp_ok s) = length (ac_kprobes x32)" "length (pb_kretp_ok s) = length (ac_kretprobes x32)"
    using assms by (simp_all add: ac_kprobes_def ac_kretprobes_def)
  show ?thesis unfolding probes_attached_def registered_state [OF l] marked_map assms(3) by simp
qed

lemma drop_no_pins:
  assumes "df_pins s = replicate AC_EXEC_PIN_MAX 0"
  shows "ac_exec_pins_drop_all k s = s"
proof -
  have "foldl (drop_pin k) s is = s" if "\<And>i. i \<in> set is \<Longrightarrow> i < AC_EXEC_PIN_MAX" for "is"
    using that by (induction "is") (simp_all add: drop_pin_def assms)
  from this [of "[0..<AC_EXEC_PIN_MAX]"] show ?thesis by (simp add: ac_exec_pins_drop_all_def)
qed

text \<open>The reports of a degraded load.\<close>

definition degraded_report :: "string list \<Rightarrow> addr \<Rightarrow> string list" where
  "degraded_report names table = map (degraded_msg names) [0..<length names] @ (if table = 0 then [no_table_msg] else [])"

lemma emit_degraded_eq:
  "emit_degraded table s = s\<lparr>pr_ring := fold (\<lambda>m. ac_emit AC_EV_INFO 0 (Some ''?'') m) (degraded_report (pb_degraded s) table) (pr_ring s)\<rparr>"
proof -
  have "foldl (\<lambda>s i. emit_ev AC_EV_INFO 0 ''?'' (degraded_msg (pb_degraded s) i) s) s is =
      s\<lparr>pr_ring := fold (\<lambda>m. ac_emit AC_EV_INFO 0 (Some ''?'') m) (map (degraded_msg (pb_degraded s)) is) (pr_ring s)\<rparr>" for s :: "'a ac_mod_scheme" and "is"
    by (induction "is" arbitrary: s) (simp_all add: emit_ev_def)
  then show ?thesis by (simp add: emit_degraded_def degraded_report_def emit_ev_def Let_def)
qed

lemma init_failed:
  fixes s :: "'a ac_mod_scheme"
  assumes fl: "flush_spec mk (ie_flush ie)" and t: "teardown_spec k" and s: "work_idle s" "df_pins s = replicate AC_EXEC_PIN_MAX 0"
      "probes_attached (ie_x32 ie) s" "\<not> lc_poller s" "\<not> lc_misc s" "\<not> lc_misuse s"
    and s': "s' = destroy_workqueue (destroy_add_pool (destroy_kill_pool (ie_flush ie (unregister_probes k ie s))))"
  shows "\<not> lc_wq s' \<and> \<not> lc_add_pool s' \<and> \<not> lc_kill_pool s' \<and> \<not> lc_poller s' \<and> \<not> lc_misc s' \<and> \<not> lc_misuse s' \<and> pb_kernel s' = [] \<and>
    pr_slots s' = pr_slots s \<and> pr_ring s' = pr_ring s"
proof -
  let ?u = "unregister_probes k ie s"
  have same: "pr_slots ?u = pr_slots s" "pr_ring ?u = pr_ring s" "df_wq ?u = df_wq s" "pr_release_q ?u = pr_release_q s"
    using s(2) by (simp_all add: unregister_probes_def ac_unregister_kprobes_def drop_no_pins Let_def)
  note U = unregister_probes_rest [OF t, where ie = ie and s = s]
  have "work_idle ?u" using s(1) same U(3) by (simp add: work_idle_def)
  moreover have "run_releases mk ?u = ?u" using calculation by (simp add: run_releases_def work_idle_def)
  ultimately have "ie_flush ie ?u = ?u" using flush_specD(3) [OF fl, of ?u] by (simp add: work_idle_def)
  then show ?thesis
    using same U s \<open>work_idle ?u\<close>
    by (simp add: s' destroy_workqueue_def destroy_add_pool_def destroy_kill_pool_def work_idle_def)
qed

text \<open>C12: Loading is all or nothing.  It always returns, provided that the windows of the table search, if there is one, do not
  wrap around the address space.  When an allocation or the device registration fails, every
  object already set up is gone again, no probe stays in the kernel, nothing was destroyed in use and the
  registry and the event ring are as before.  When it succeeds, everything is set up, the probes that the kernel
  took are attached, the syscall table is being checked against a baseline if it was found, and the ring got
  exactly one report per missing essential probe plus one for a missing table, also when the table is missing because a
  handler could not be resolved.\<close>

theorem ac_init_all_or_nothing:
  assumes boot: "mod_boot (k_NR_syscalls (ie_kernel ie)) s" and k: "teardown_spec k" and fl: "flush_spec mk (ie_flush ie)"
    and win: "windows_fit (ie_kernel ie) (ac_resolve_text_bounds (ie_kernel ie) (dv_text s))" and ctx: "length (ctx_buf (ie_ctx ie)) = 64"
  shows "\<exists>ret s'. ac_init k ie s = Some (ret, s') \<and> \<not> lc_misuse s' \<and> pr_slots s' = pr_slots s \<and>
    ret = (if ie_wq ie \<and> ie_add_pool ie \<and> ie_kill_pool ie then ie_misc ie else - ENOMEM) \<and>
    (if ret \<noteq> 0
     then \<not> lc_wq s' \<and> \<not> lc_add_pool s' \<and> \<not> lc_kill_pool s' \<and> \<not> lc_poller s' \<and> \<not> lc_misc s' \<and> pb_kernel s' = [] \<and> pr_ring s' = pr_ring s
     else lc_wq s' \<and> lc_add_pool s' \<and> lc_kill_pool s' \<and> lc_poller s' \<and> lc_misc s' \<and> probes_attached (ie_x32 ie) s' \<and>
       sys_inv (k_NR_syscalls (ie_kernel ie)) (dv_sys s') \<and> sy_baseline_ready (dv_sys s') = (sy_table (dv_sys s') \<noteq> 0) \<and>
       pr_ring s' = fold (\<lambda>m. ac_emit AC_EV_INFO 0 (Some ''?'') m)
         (degraded_report
           (map kd_symbol (filter (\<lambda>p. kd_essential p \<and> ie_register ie (kd_symbol p) \<noteq> 0) (ac_kprobes (ie_x32 ie))) @
            map kr_symbol (filter (\<lambda>p. kr_essential p \<and> ie_register ie (kr_symbol p) \<noteq> 0) (ac_kretprobes (ie_x32 ie))))
           (sy_table (dv_sys s'))) (pr_ring s))"
proof (cases "ie_wq ie \<and> ie_add_pool ie \<and> ie_kill_pool ie")
  case False
  then show ?thesis
    using boot by (auto simp: ac_init_def mod_boot_def work_idle_def destroy_workqueue_def destroy_add_pool_def ENOMEM_def Let_def)
next
  case True
  let ?s3 = "s\<lparr>lc_wq := True, lc_add_pool := True, lc_kill_pool := True\<rparr>"
  obtain table tx sy where i: "init_syscalls ie ?s3 = Some (table, ?s3\<lparr>dv_text := tx, dv_sys := sy\<rparr>)"
    and sy: "sys_inv (k_NR_syscalls (ie_kernel ie)) sy" "sy_table sy = table" "sy_baseline_ready sy = (table \<noteq> 0)"
    using init_syscalls_returns [of ie ?s3] win ctx boot by (auto simp: mod_boot_def)
  let ?s4 = "?s3\<lparr>dv_text := tx, dv_sys := sy\<rparr>"
  define s5 where "s5 = ac_register_kprobes (ie_register ie) (ac_kprobes (ie_x32 ie)) (ac_kretprobes (ie_x32 ie)) ?s4"
  have F: "reg_frame ?s4 s5" unfolding s5_def by (rule register_frame)
  have len: "length (pb_kp_ok ?s4) = 7" "length (pb_kretp_ok ?s4) = 7" "pb_kernel ?s4 = []" using boot by (simp_all add: mod_boot_def)
  have at: "probes_attached (ie_x32 ie) s5" unfolding s5_def by (rule register_attached [OF len])
  have dg: "pb_degraded s5 = map kd_symbol (filter (\<lambda>p. kd_essential p \<and> ie_register ie (kd_symbol p) \<noteq> 0) (ac_kprobes (ie_x32 ie))) @
      map kr_symbol (filter (\<lambda>p. kr_essential p \<and> ie_register ie (kr_symbol p) \<noteq> 0) (ac_kretprobes (ie_x32 ie)))"
    unfolding s5_def by (rule registered_state(4)) (use len in \<open>simp_all add: ac_kprobes_def ac_kretprobes_def\<close>)
  have init: "ac_init k ie s = (if ie_misc ie \<noteq> 0
      then Some (ie_misc ie, destroy_workqueue (destroy_add_pool (destroy_kill_pool (ie_flush ie (unregister_probes k ie (s5\<lparr>lc_poller := False\<rparr>))))))
      else Some (0, emit_degraded table (s5\<lparr>lc_poller := True, lc_misc := True\<rparr>)))"
    using True i by (simp add: ac_init_def s5_def Let_def)
  show ?thesis
  proof (cases "ie_misc ie = 0")
    case True
    have "pb_degraded (s5\<lparr>lc_poller := True, lc_misc := True\<rparr>) = pb_degraded s5" by simp
    with True F at sy boot \<open>ie_wq ie \<and> ie_add_pool ie \<and> ie_kill_pool ie\<close> show ?thesis
      by (simp add: init emit_degraded_eq dg [symmetric] probes_attached_def) (simp add: reg_frame_def mod_boot_def)
  next
    case False
    have "work_idle (s5\<lparr>lc_poller := False\<rparr>)" "df_pins (s5\<lparr>lc_poller := False\<rparr>) = replicate AC_EXEC_PIN_MAX 0"
      "\<not> lc_misc (s5\<lparr>lc_poller := False\<rparr>)" "\<not> lc_misuse (s5\<lparr>lc_poller := False\<rparr>)"
      "probes_attached (ie_x32 ie) (s5\<lparr>lc_poller := False\<rparr>)"
      using F boot at by (simp_all add: reg_frame_def mod_boot_def work_idle_def probes_attached_def)
    from init_failed [OF fl k this(1,2,5) _ this(3,4) refl] False F \<open>ie_wq ie \<and> ie_add_pool ie \<and> ie_kill_pool ie\<close>
    show ?thesis by (simp add: init reg_frame_def)
  qed
qed

subsection \<open>Concrete loads\<close>

text \<open>The flush runs the queued releases and drops the rest; the process of slot 0 exits while the registry is cleared; the device registration fails with \<open>misc\<close>; the kernel has no \<^verbatim>\<open>kernel_clone\<close> symbol.\<close>

definition demo_ie :: "int \<Rightarrow> ac_mod init_env" where
  "demo_ie misc = \<lparr>ie_wq = True, ie_add_pool = True, ie_kill_pool = True, ie_kernel = demo_kernel, ie_ctx = sha_ctx0,
     ie_register = (\<lambda>n. if n = ''kernel_clone'' then - 2 else 0), ie_x32 = False, ie_misc = misc,
     ie_flush = (\<lambda>s. (run_releases demo_mk s)\<lparr>df_wq := [], pb_kills := []\<rparr>), ie_exits = (\<lambda>i. if i = 0 then [0] else [])\<rparr>"

definition demo_mk_mod :: "ac_mod def_ops" where
  "demo_mk_mod = \<lparr>dk_mmu = demo_mk, dk_mempool_alloc = (\<lambda>s. None), dk_wait_handoff = (\<lambda>a s. s),
     dk_exit_mmap = (\<lambda>mm s. s), dk_exit_mmap_async = (\<lambda>mm s. s)\<rparr>"

text \<open>A loaded module that protects process 7, and the module before it is loaded.\<close>

definition demo_mod :: ac_mod where
  "demo_mod = ac_dev.extend demo_dev \<lparr>lc_wq = True, lc_add_pool = True, lc_kill_pool = True, lc_poller = True, lc_misc = True, lc_misuse = False\<rparr>"

definition demo_boot :: ac_mod where
  "demo_boot = demo_mod\<lparr>pr_slots := replicate AC_PROT_MAX free_entry, dv_sys := sys_boot 512 0, dv_text := demo_text,
     lc_wq := False, lc_add_pool := False, lc_kill_pool := False, lc_poller := False, lc_misc := False\<rparr>"

lemma demo_mod_spec: "def_spec demo_mk_mod" "teardown_spec demo_mk_mod"
  using demo_mk_spec by (simp_all add: def_spec_def demo_mk_mod_def teardown_spec_def)

lemma reg_wf_same:
  assumes "reg_wf s" and "length (pr_slots s') = length (pr_slots s)"
    and "\<And>j. j < AC_PROT_MAX \<Longrightarrow> pe_mm (pr_slots s' ! j) = pe_mm (pr_slots s ! j) \<and> (pe_removing (pr_slots s' ! j) \<longrightarrow> pe_mm (pr_slots s ! j) = 0)"
  shows "reg_wf s'"
  unfolding reg_wf_def using assms reg_wfD(1,2,4) [OF assms(1)] by (metis (no_types, lifting))

lemma release_worker_wf:
  assumes mk: "mmu_spec mk" and wf: "reg_wf s"
  shows "reg_wf (ac_prot_release_worker mk i s)"
proof -
  let ?m = "pe_release_mm (pr_slots s ! i)"
  have w: "ac_prot_release_worker mk i s = release_done i (ac_mmu_release i ?m s)"
    using mk by (simp add: ac_prot_release_worker_def mmu_spec_def Let_def)
  have d: "reg_wf (release_done i s)" if "reg_wf s" for s :: "'a ac_reg_scheme"
  proof (rule reg_wf_same [OF that])
    fix j
    assume j: "j < AC_PROT_MAX"
    then show "pe_mm (pr_slots (release_done i s) ! j) = pe_mm (pr_slots s ! j) \<and> (pe_removing (pr_slots (release_done i s) ! j) \<longrightarrow> pe_mm (pr_slots s ! j) = 0)"
      using reg_wfD(1) [OF that] reg_wfD(3) [OF that j] by (cases "i = j") (simp_all add: release_done_def)
  qed (simp add: release_done_def)
  have "reg_wf (ac_mmu_release i ?m s)"
  proof (cases "i < AC_PROT_MAX \<and> ?m \<noteq> 0")
    case True
    then show ?thesis using release_wf [OF wf] by blast
  next
    case False
    show ?thesis
    proof (rule reg_wf_same [OF wf])
      fix j
      assume j: "j < AC_PROT_MAX"
      show "pe_mm (pr_slots (ac_mmu_release i ?m s) ! j) = pe_mm (pr_slots s ! j) \<and>
          (pe_removing (pr_slots (ac_mmu_release i ?m s) ! j) \<longrightarrow> pe_mm (pr_slots s ! j) = 0)"
        using reg_wfD(1) [OF wf] reg_wfD(3) [OF wf j] False j by (cases "i = j") (auto simp: ac_mmu_release_def Let_def)
    qed (simp add: ac_mmu_release_def Let_def)
  qed
  then show ?thesis unfolding w by (rule d)
qed

lemma release_worker_more:
  assumes "mmu_spec mk"
  shows "ac_reg.more (ac_prot_release_worker mk i s) = ac_reg.more s"
  using assms by (simp add: ac_prot_release_worker_def mmu_spec_def ac_mmu_release_def release_done_def upd_slot_def Let_def)

lemma demo_flush: "flush_spec demo_mk (ie_flush (demo_ie m))"
proof -
  have f: "(reg_wf s \<longrightarrow> reg_wf (fold (ac_prot_release_worker demo_mk) q s)) \<and> ac_reg.more (fold (ac_prot_release_worker demo_mk) q s) = ac_reg.more s"
    for q and s :: ac_mod
    by (induction q arbitrary: s) (simp_all add: release_worker_wf [OF demo_mk_spec] release_worker_more [OF demo_mk_spec])
  have r: "reg_wf s \<longrightarrow> reg_wf (run_releases demo_mk s)" "ac_reg.more (run_releases demo_mk s) = ac_reg.more s" "pr_release_q (run_releases demo_mk s) = []"
    for s :: ac_mod
    using f [of s "pr_release_q s"] reg_wf_cong [of "(fold (ac_prot_release_worker demo_mk) (pr_release_q s) s)\<lparr>pr_release_q := []\<rparr>"
        "fold (ac_prot_release_worker demo_mk) (pr_release_q s) s"] by (simp_all add: run_releases_def)
  have w: "reg_wf (t\<lparr>df_wq := [], pb_kills := []\<rparr>) \<longleftrightarrow> reg_wf t" for t :: ac_mod by (rule reg_wf_cong) simp
  have i: "t\<lparr>df_wq := [], pb_kills := []\<rparr> = t" if "df_wq t = []" "pb_kills t = []" for t :: ac_mod using that by (cases t) simp
  note m = reg_more_fields [OF r(2)] more_fields [OF reg_more_fields(1) [OF r(2)]]
  show ?thesis unfolding flush_spec_def
  proof (intro allI conjI impI)
    fix s :: ac_mod
    show "work_idle (ie_flush (demo_ie m) s)" using r(3) [of s] by (simp add: demo_ie_def work_idle_def)
    show "reg_wf s \<Longrightarrow> reg_wf (ie_flush (demo_ie m) s)" using r(1) [of s] by (simp add: demo_ie_def w)
    show "df_wq s = [] \<and> pb_kills s = [] \<Longrightarrow> ie_flush (demo_ie m) s = run_releases demo_mk s"
      using m [of s] by (simp add: demo_ie_def i)
  qed (simp_all add: demo_ie_def m)
qed

lemma demo_flush_spec: "flush_spec (dk_mmu demo_mk_mod) (ie_flush (demo_ie m))"
  using demo_flush by (simp add: demo_mk_mod_def)

lemmas demo_mod_defs = demo_mod_def demo_dev_def demo_probe_def demo_def_def ac_def.defs ac_probe.defs ac_dev.defs

lemma demo_slots_wf:
  assumes "pr_slots s = pr_slots demo_def"
  shows "reg_wf s"
proof -
  have "pe_mm (pr_slots s ! i) = (if i = 0 then 4096 else 0) \<and> \<not> pe_removing (pr_slots s ! i)" if "i < AC_PROT_MAX" for i
    using that by (simp add: assms demo_def_def nth_Cons' free_entry_def AC_PROT_MAX_def)
  moreover have "length (pr_slots s) = AC_PROT_MAX" by (simp add: assms demo_def_def AC_PROT_MAX_def)
  ultimately show ?thesis by (auto simp: reg_wf_def AC_PROT_RESERVED_def split: if_splits)
qed

theorem ac_exit_clean_witness:
  "ac_is_protected_mm 4096 demo_mod \<and> \<not> ac_is_protected_mm 4096 (ac_exit demo_mk_mod (demo_ie 0) demo_mod) \<and>
   \<not> lc_misuse (ac_exit demo_mk_mod (demo_ie 0) demo_mod)"
proof -
  have p: "pr_slots demo_mod = pr_slots demo_def" by (simp add: demo_mod_defs)
  then have "ac_is_protected_mm 4096 demo_mod" using demo_prot by (simp add: ac_is_protected_mm_def)
  moreover have "probes_attached (ie_x32 (demo_ie 0)) demo_mod" "length (df_pins demo_mod) = AC_EXEC_PIN_MAX" "\<not> lc_misuse demo_mod"
    by (simp_all add: demo_mod_defs probes_attached_def marked_def demo_ie_def ac_kprobes_def ac_kretprobes_def numeral_eq_Suc)
  ultimately show ?thesis
    using ac_exit_clean [OF demo_mod_spec demo_flush_spec demo_slots_wf [OF p] _ _ _ refl, of 0 4096] by simp
qed

theorem ac_init_all_or_nothing_witness:
  "(\<exists>s'. ac_init demo_mk_mod (demo_ie (- 16)) demo_boot = Some (- 16, s') \<and> \<not> lc_wq s' \<and> pb_kernel s' = []) \<and>
   (\<exists>s'. ac_init demo_mk_mod (demo_ie 0) demo_boot = Some (0, s') \<and> lc_misc s')"
proof -
  have boot: "mod_boot (k_NR_syscalls (ie_kernel (demo_ie m))) demo_boot" for m
    by (simp add: mod_boot_def work_idle_def demo_boot_def demo_mod_defs demo_ie_def) (simp add: demo_kernel_def)
  have win: "windows_fit (ie_kernel (demo_ie m)) (ac_resolve_text_bounds (ie_kernel (demo_ie m)) (dv_text demo_boot))" for m
    by (simp add: demo_ie_def windows_fit_def demo_lookup Let_def ac_resolve_text_bounds_def) (simp add: ac_lookup_def demo_kernel_def)
  have ctx: "length (ctx_buf (ie_ctx (demo_ie m))) = 64" for m using demo_sys_inv(3) by (simp add: demo_ie_def)
  have m: "ie_misc (demo_ie m) = m" "ie_wq (demo_ie m)" "ie_add_pool (demo_ie m)" "ie_kill_pool (demo_ie m)" for m by (simp_all add: demo_ie_def)
  show ?thesis
    using ac_init_all_or_nothing [OF boot demo_mod_spec(2) demo_flush_spec win ctx, of "- 16"]
      ac_init_all_or_nothing [OF boot demo_mod_spec(2) demo_flush_spec win ctx, of 0] by (auto simp: m)
qed

end
