(* ===== verification/AC_Cstring.thy ===== *)
theory AC_Cstring
  imports AC_Prelude
begin

text \<open>
  What the daemon uses of the C library on text: character classes, \<^verbatim>\<open>strtol\<close> and \<^verbatim>\<open>strtoul\<close> in base 10, the \<^verbatim>\<open>%llx\<close> and
  \<^verbatim>\<open>%64s\<close> conversions of \<^verbatim>\<open>sscanf\<close>, \<^verbatim>\<open>fgets\<close>, and the searches \<^verbatim>\<open>strchr\<close> and \<^verbatim>\<open>strrchr\<close>; then the two parsers of the
  daemon that are a single \<^verbatim>\<open>strtol\<close>.  Locale "C", LP64.
\<close>

subsection \<open>Characters\<close>

definition isspace :: "char \<Rightarrow> bool" where
  "isspace c \<longleftrightarrow> (let n = of_char c :: nat in n = 32 \<or> 9 \<le> n \<and> n \<le> 13)"

definition digit_val :: "char \<Rightarrow> nat" where
  "digit_val c =
     (let n = of_char c :: nat
      in if 48 \<le> n \<and> n \<le> 57 then n - 48
         else if 97 \<le> n \<and> n \<le> 102 then n - 87
         else if 65 \<le> n \<and> n \<le> 70 then n - 55
         else 99)"

definition num_val :: "nat \<Rightarrow> string \<Rightarrow> nat" where
  "num_val b ds = foldl (\<lambda>n c. n * b + digit_val c) 0 ds"

text \<open>Subject sequence of the \<^verbatim>\<open>strto\<close> family: white space, a sign, digits.  \<open>None\<close>: no digits.\<close>

definition take_sign :: "string \<Rightarrow> bool \<times> string" where
  "take_sign s = (case s of c # s' \<Rightarrow> if c = CHR ''-'' then (True, s') else if c = CHR ''+'' then (False, s') else (False, s) | [] \<Rightarrow> (False, s))"

definition strto :: "nat \<Rightarrow> string \<Rightarrow> (bool \<times> nat \<times> string) option" where
  "strto b s =
     (case take_sign (dropWhile isspace s) of (neg, s1) \<Rightarrow>
        let ds = takeWhile (\<lambda>c. digit_val c < b) s1
        in if ds = [] then None else Some (neg, num_val b ds, drop (length ds) s1))"

text \<open>\<^verbatim>\<open>strtol(s, &end, 10)\<close>: the value, the text at \<open>end\<close>, and whether \<^verbatim>\<open>errno\<close> is set to \<^verbatim>\<open>ERANGE\<close>.\<close>

definition LONG_MAX :: int where "LONG_MAX = 2 ^ 63 - 1"
definition INT_MAX :: int where "INT_MAX = 2 ^ 31 - 1"

definition strtol :: "string \<Rightarrow> int \<times> string \<times> bool" where
  "strtol s =
     (case strto 10 s of
        None \<Rightarrow> (0, s, False)
      | Some (neg, n, rest) \<Rightarrow>
          (let v = (if neg then - int n else int n)
           in if v > LONG_MAX then (LONG_MAX, rest, True)
              else if v < - LONG_MAX - 1 then (- LONG_MAX - 1, rest, True)
              else (v, rest, False)))"

text \<open>\<^verbatim>\<open>strtoul(s, &end, 10)\<close>: a minus sign negates modulo \<open>2^64\<close>; an overflow gives \<^verbatim>\<open>ULONG_MAX\<close>.\<close>

definition strtoul :: "string \<Rightarrow> u64 \<times> string" where
  "strtoul s =
     (case strto 10 s of
        None \<Rightarrow> (0, s)
      | Some (neg, n, rest) \<Rightarrow>
          (if n \<ge> 2 ^ 64 then (- 1, rest) else if neg then (- of_nat n, rest) else (of_nat n, rest)))"

definition PATH_MAX :: nat where "PATH_MAX = 4096"

subsection \<open>Conversions of sscanf\<close>

text \<open>\<^verbatim>\<open>%llx\<close>: an optional \<open>0x\<close>, which must be followed by a digit.\<close>

definition scan_llx :: "string \<Rightarrow> (u64 \<times> string) option" where
  "scan_llx s =
     (case take_sign (dropWhile isspace s) of (neg, s1) \<Rightarrow>
        let s2 = (if take 2 s1 = ''0x'' \<or> take 2 s1 = ''0X'' then drop 2 s1 else s1);
            ds = takeWhile (\<lambda>c. digit_val c < 16) s2;
            n = num_val 16 ds
        in if ds = [] then None
           else Some (if n \<ge> 2 ^ 64 then - 1 else if neg then - of_nat n else of_nat n, drop (length ds) s2))"

text \<open>\<^verbatim>\<open>%<w>s\<close>: a non-empty word of at most \<open>w\<close> characters.\<close>

definition scan_word :: "nat \<Rightarrow> string \<Rightarrow> (string \<times> string) option" where
  "scan_word w s =
     (let s1 = dropWhile isspace s; x = take w (takeWhile (\<lambda>c. \<not> isspace c) s1)
      in if x = [] then None else Some (x, drop (length x) s1))"

text \<open>\<^verbatim>\<open>fgets\<close> with room for \<open>n\<close> characters and the NUL, and the lines that a loop over it reads.\<close>

fun fgets :: "nat \<Rightarrow> string \<Rightarrow> string \<times> string" where
  "fgets 0 s = ([], s)"
| "fgets (Suc n) [] = ([], [])"
| "fgets (Suc n) (c # s) = (if c = CHR 0x0A then ([c], s) else (case fgets n s of (l, r) \<Rightarrow> (c # l, r)))"

lemma fgets_shorter: "snd (fgets n s) = drop (length (fst (fgets n s))) s"
  by (induction n s rule: fgets.induct) (auto simp: case_prod_beta)

lemma fgets_less:
  assumes "s \<noteq> []" and "fgets (Suc n) s = (l, r)"
  shows "length r < length s"
proof -
  have "l \<noteq> []" using assms by (cases s) (auto simp: case_prod_beta split: if_splits)
  then show ?thesis using fgets_shorter [of "Suc n" s] assms by (cases l) auto
qed

function fgets_lines :: "nat \<Rightarrow> string \<Rightarrow> string list" where
  "fgets_lines n s = (if s = [] then [] else (case fgets (Suc n) s of (l, r) \<Rightarrow> l # fgets_lines n r))"
  by pat_completeness auto
termination
  by (relation "measure (\<lambda>(n, s). length s)") (simp, metis (no_types, lifting) case_prod_conv fgets_less in_measure)

declare fgets_lines.simps [simp del]

subsection \<open>Searches\<close>

text \<open>The text before and after the first and the last occurrence of a character.\<close>

definition strchr :: "char \<Rightarrow> string \<Rightarrow> (string \<times> string) option" where
  "strchr c s = (if c \<in> set s then Some (takeWhile (\<lambda>x. x \<noteq> c) s, tl (dropWhile (\<lambda>x. x \<noteq> c) s)) else None)"

definition strrchr :: "char \<Rightarrow> string \<Rightarrow> (string \<times> string) option" where
  "strrchr c s = map_option (\<lambda>(a, b). (rev b, rev a)) (strchr c (rev s))"

subsection \<open>Numbers from the command line and the environment\<close>

text \<open>\<^verbatim>\<open>ac_parse_pid\<close>; \<open>None\<close> is the exit through \<^verbatim>\<open>die\<close>.\<close>

definition ac_parse_pid :: "string \<Rightarrow> pid_t option" where
  "ac_parse_pid s =
     (case strtol s of (v, end, erange) \<Rightarrow>
        if erange \<or> end = s \<or> end \<noteq> [] \<or> v \<le> 0 \<or> v > INT_MAX then None else Some v)"

text \<open>\<^verbatim>\<open>ac_env_interval\<close> on the value of the variable.\<close>

definition ac_env_interval :: "string option \<Rightarrow> int \<Rightarrow> int" where
  "ac_env_interval e default_secs =
     (case e of
        None \<Rightarrow> default_secs
      | Some s \<Rightarrow>
          if s = [] then default_secs
          else (case strtol s of (v, end, erange) \<Rightarrow>
                  if erange \<or> end \<noteq> [] \<or> end = s \<or> v \<le> 0 \<or> v > INT_MAX then default_secs else v))"

subsection \<open>Numbers that were printed are read back\<close>

lemma digit_char_cases: "d < 16 \<Longrightarrow> P 0 \<and> P 1 \<and> P 2 \<and> P 3 \<and> P 4 \<and> P 5 \<and> P 6 \<and> P 7 \<and> P 8 \<and> P 9 \<and> P 10 \<and> P 11 \<and> P 12 \<and> P 13 \<and> P 14 \<and> P 15 \<Longrightarrow> P (d :: nat)"
  by (elim conjE) (cases d; simp add: numeral_eq_Suc less_Suc_eq; elim disjE; simp)

lemma digit_val_char: "d < 16 \<Longrightarrow> digit_val (digit_char d) = d"
  by (rule digit_char_cases [of d]) (simp_all add: digit_val_def digit_char_def Let_def)

lemma digit_char_plain: "d < 16 \<Longrightarrow> \<not> isspace (digit_char d) \<and> digit_char d \<noteq> CHR ''-'' \<and> digit_char d \<noteq> CHR ''+'' \<and> digit_char d \<noteq> CHR ''x'' \<and> digit_char d \<noteq> CHR ''X''"
  by (rule digit_char_cases [of d]) (simp_all add: isspace_def digit_char_def Let_def)

lemma num_val_snoc: "num_val b (ds @ [c]) = num_val b ds * b + digit_val c"
  by (simp add: num_val_def)

lemma digits_in_back:
  assumes "2 \<le> b" and "b \<le> 16"
  shows "num_val b (digits_in b n) = n \<and> digits_in b n \<noteq> [] \<and> (\<forall>c \<in> set (digits_in b n). \<exists>d < b. c = digit_char d)"
proof (induction n rule: less_induct)
  case (less n)
  show ?case
  proof (cases "n < b")
    case True
    then show ?thesis using assms by (subst (1 2 3) digits_in.simps) (auto simp: num_val_def digit_val_char)
  next
    case False
    then have "n div b < n" using assms by (intro div_less_dividend) auto
    with less have IH: "num_val b (digits_in b (n div b)) = n div b" "\<forall>c \<in> set (digits_in b (n div b)). \<exists>d < b. c = digit_char d" by auto
    have "n mod b < b" using assms by simp
    moreover have "digits_in b n = digits_in b (n div b) @ [digit_char (n mod b)]" using False assms by (subst digits_in.simps) simp
    moreover have "n mod b < 16" using \<open>n mod b < b\<close> assms(2) by (rule order.strict_trans2)
    ultimately show ?thesis using IH by (auto simp: num_val_snoc digit_val_char)
  qed
qed

lemma length_digits_in: "n < b ^ k \<Longrightarrow> 0 < k \<Longrightarrow> length (digits_in b n) \<le> k"
proof (induction k arbitrary: n)
  case (Suc k)
  show ?case
  proof (cases "b < 2 \<or> n < b")
    case True
    then show ?thesis by (subst digits_in.simps) auto
  next
    case False
    then have "k \<noteq> 0" using Suc.prems by (cases k) auto
    moreover have "n div b < b ^ k" using Suc.prems(1) by (simp add: less_mult_imp_div_less mult.commute)
    ultimately show ?thesis using Suc.IH [of "n div b"] False by (subst digits_in.simps) auto
  qed
qed simp

end
