(* ===== verification/AC_Baseline.thy ===== *)
theory AC_Baseline
  imports AC_Sha256 AC_Abi AC_Cstring
begin

text \<open>
  Baselines of executable mappings in \<^verbatim>\<open>src/src/anticheat_daemon.c\<close>: hashing a range of process memory, the baseline
  files with their text format, and the check of a process's mappings against them, run by run.
\<close>

subsection \<open>Hashing memory\<close>

definition AC_READ_CHUNK :: nat where "AC_READ_CHUNK = 64 * 1024"
definition AC_HASH_CAP :: u64 where "AC_HASH_CAP = 16 * 1024 * 1024"

text \<open>
  \<open>rd addr want\<close> is \<^verbatim>\<open>pread\<close> on \<^verbatim>\<open>/proc/<pid>/mem\<close>, retried while interrupted: \<open>None\<close> an error, otherwise the bytes read,
  none at the end.
\<close>

function hash_loop ::
  "(u64 \<Rightarrow> nat \<Rightarrow> byte list option) \<Rightarrow> u64 \<Rightarrow> nat \<Rightarrow> nat \<Rightarrow> ac_sha256_ctx \<Rightarrow> (nat \<times> ac_sha256_ctx) option" where
  "hash_loop rd start sz pos ctx =
     (if pos < sz then
        (let want = (if sz - pos > AC_READ_CHUNK then AC_READ_CHUNK else sz - pos)
         in case rd (start + of_nat pos) want of
              None \<Rightarrow> None
            | Some r \<Rightarrow>
                if r = [] then Some (pos, ctx)
                else (case ac_sha256_update ctx r of
                        None \<Rightarrow> None
                      | Some ctx' \<Rightarrow> hash_loop rd start sz (pos + length r) ctx'))
      else Some (pos, ctx))"
  by pat_completeness auto
termination
  by (relation "measure (\<lambda>(rd, start, sz, pos, ctx). sz - pos)") (auto simp: diff_less_mono2)

declare hash_loop.simps [simp del]

definition hash_proc_mem :: "(u64 \<Rightarrow> nat \<Rightarrow> byte list option) \<Rightarrow> ac_sha256_ctx \<Rightarrow> u64 \<Rightarrow> u64 \<Rightarrow> string option" where
  "hash_proc_mem rd c0 start sz =
     (case hash_loop rd start (unat sz) 0 (ac_sha256_init c0) of
        None \<Rightarrow> None
      | Some (pos, ctx) \<Rightarrow>
          if pos < unat sz then None else map_option ac_sha256_hex_digest (ac_sha256_final ctx))"

subsection \<open>Baseline files\<close>

definition AC_BASELINE_MAX_RECORDS :: nat where "AC_BASELINE_MAX_RECORDS = 256"
record ac_baseline_rec =
  br_inode :: u64
  br_offset :: u64
  br_size :: u64
  br_hex :: string

definition baseline_path_for :: "string \<Rightarrow> ac_sha256_ctx \<Rightarrow> string \<Rightarrow> string option" where
  "baseline_path_for dir c0 path =
     map_option (\<lambda>hex. take (PATH_MAX - 1) (dir @ ''/'' @ hex @ ''.txt'')) (ac_sha256_hex c0 (map of_char path))"

text \<open>One line: \<^verbatim>\<open>sscanf\<close> of the current format, and of the one before per-segment records.  A line ends at a NUL.\<close>

definition c_line :: "string \<Rightarrow> string" where
  "c_line l = takeWhile (\<lambda>c. c \<noteq> CHR 0x00) l"

definition parse_rec :: "string \<Rightarrow> ac_baseline_rec option" where
  "parse_rec line =
     Option.bind (scan_llx line) (\<lambda>(i, s1).
     Option.bind (scan_llx s1) (\<lambda>(o', s2).
     Option.bind (scan_llx s2) (\<lambda>(z, s3).
     Option.bind (scan_word 64 s3) (\<lambda>(h, _).
       Some \<lparr>br_inode = i, br_offset = o', br_size = z, br_hex = h\<rparr>))))"

definition parse_legacy :: "string \<Rightarrow> bool" where
  "parse_legacy line \<longleftrightarrow>
     Option.bind (scan_llx line) (\<lambda>(a, s1). Option.bind (scan_llx s1) (\<lambda>(b, s2). scan_word 64 s2)) \<noteq> None"

fun load_loop :: "string list \<Rightarrow> ac_baseline_rec list \<Rightarrow> bool \<Rightarrow> ac_baseline_rec list \<times> bool" where
  "load_loop [] recs legacy = (recs, legacy)"
| "load_loop (l # ls) recs legacy =
     (if length recs \<ge> AC_BASELINE_MAX_RECORDS then (recs, legacy)
      else case parse_rec (c_line l) of
             Some r \<Rightarrow> load_loop ls (recs @ [r]) legacy
           | None \<Rightarrow> load_loop ls recs (legacy \<or> parse_legacy (c_line l)))"

text \<open>\<open>file\<close> is the content of the file, \<open>None\<close> when it cannot be opened.\<close>

definition baseline_load_records :: "string option \<Rightarrow> ac_baseline_rec list \<times> bool" where
  "baseline_load_records file = (case file of None \<Rightarrow> ([], False) | Some s \<Rightarrow> load_loop (fgets_lines 510 s) [] False)"

definition print_rec :: "ac_baseline_rec \<Rightarrow> string" where
  "print_rec r = fmt_lx (br_inode r) @ '' '' @ fmt_lx (br_offset r) @ '' '' @ fmt_lx (br_size r) @ '' '' @ br_hex r @ [CHR 0x0A]"

text \<open>What the file operations of a save do: each can fail.\<close>

record save_env =
  sv_symlink :: bool
  sv_lock_name :: bool
  sv_lock :: bool
  sv_flock :: bool
  sv_tmp_name :: bool
  sv_mkstemp :: bool
  sv_fdopen :: bool
  sv_written :: bool
  sv_rename :: bool

definition AC_BASELINE_SAVE_FULL :: int where "AC_BASELINE_SAVE_FULL = - 2"

definition same_segment :: "ac_baseline_rec \<Rightarrow> ac_baseline_rec \<Rightarrow> bool" where
  "same_segment r q \<longleftrightarrow> br_inode r = br_inode q \<and> br_offset r = br_offset q \<and> br_size r = br_size q"

text \<open>The new content appears only by the final \<^verbatim>\<open>rename\<close>.\<close>

definition baseline_save_record :: "save_env \<Rightarrow> ac_baseline_rec \<Rightarrow> string option \<Rightarrow> int \<times> string option" where
  "baseline_save_record sv new file =
     (if sv_symlink sv \<or> \<not> sv_lock_name sv \<or> \<not> sv_lock sv \<or> \<not> sv_flock sv then (- 1, file)
      else
        (let recs = fst (baseline_load_records file);
             kept = filter (\<lambda>r. \<not> same_segment r new) recs
         in if length kept = AC_BASELINE_MAX_RECORDS then (AC_BASELINE_SAVE_FULL, file)
            else if \<not> sv_tmp_name sv \<or> \<not> sv_mkstemp sv \<or> \<not> sv_fdopen sv \<or> \<not> sv_written sv \<or> \<not> sv_rename sv then (- 1, file)
            else (0, Some (concat (map print_rec (kept @ [new]))))))"

subsection \<open>Runs of mappings\<close>

record ac_bl_vma =
  bv_start :: u64
  bv_end :: u64
  bv_offset :: u64
  bv_inode :: u64
  bv_path :: string

text \<open>The loop condition of \<^verbatim>\<open>baseline_run_end\<close> on the run's first entry, the previous and the next one.\<close>

definition extends_run :: "ac_bl_vma \<Rightarrow> ac_bl_vma \<Rightarrow> ac_bl_vma \<Rightarrow> bool" where
  "extends_run first prev nxt \<longleftrightarrow>
     bv_inode nxt = bv_inode first \<and> bv_path nxt = bv_path first \<and> bv_start nxt = bv_end prev \<and>
     bv_offset nxt = bv_offset prev + (bv_end prev - bv_start prev)"

function run_end_loop :: "ac_bl_vma list \<Rightarrow> nat \<Rightarrow> nat \<Rightarrow> nat \<Rightarrow> nat" where
  "run_end_loop v nv i j =
     (if j < nv \<and> extends_run (v ! i) (v ! (j - 1)) (v ! j) then run_end_loop v nv i (j + 1) else j)"
  by pat_completeness auto
termination
  by (relation "measure (\<lambda>(v, nv, i, j). nv - j)") auto

declare run_end_loop.simps [simp del]

lemma run_end_loop_ge: "j \<le> run_end_loop v nv i j"
  by (induction v nv i j rule: run_end_loop.induct) (subst run_end_loop.simps, auto)

definition baseline_run_end :: "ac_bl_vma list \<Rightarrow> nat \<Rightarrow> nat \<Rightarrow> nat" where
  "baseline_run_end v nv i = run_end_loop v nv i (i + 1)"

subsection \<open>Checking one run\<close>

definition AC_BL_UNBASELINED :: nat where "AC_BL_UNBASELINED = 0"
definition AC_BL_LEGACY :: nat where "AC_BL_LEGACY = 1"
definition AC_BL_OK :: nat where "AC_BL_OK = 2"
definition AC_BL_HASH_FAILED :: nat where "AC_BL_HASH_FAILED = 3"
definition AC_BL_PARTIAL :: nat where "AC_BL_PARTIAL = 4"
definition AC_BL_MISMATCH :: nat where "AC_BL_MISMATCH = 5"

lemmas ac_bl_defs = AC_BL_UNBASELINED_def AC_BL_LEGACY_def AC_BL_OK_def AC_BL_HASH_FAILED_def AC_BL_PARTIAL_def AC_BL_MISMATCH_def

record ac_bl_run_result =
  rr_verdict :: nat
  rr_off :: u64
  rr_size :: u64
  rr_len_changed :: bool

text \<open>What a record is to the run \<open>[rs, re)\<close> of a file: 0 elsewhere, 1 fits, 2 partly overlaps it.\<close>

definition rec_kind :: "u64 \<Rightarrow> u64 \<Rightarrow> u64 \<Rightarrow> ac_baseline_rec \<Rightarrow> nat" where
  "rec_kind inode rs re r =
     (if br_inode r \<noteq> inode \<or> br_size r = 0 \<or> br_offset r + br_size r < br_offset r then 0
      else if br_offset r + br_size r \<le> rs \<or> br_offset r \<ge> re then 0
      else if br_offset r < rs \<or> br_offset r + br_size r > re then 2
      else 1)"

text \<open>
  One iteration of the first loop.  The state is the memory descriptor (\<open>- 1\<close> not opened yet, \<open>- 2\<close> open failed) and
  the result; \<open>mem_open\<close> is what \<^verbatim>\<open>open\<close> returns and \<open>hash fd\<close> hashes through a descriptor.
\<close>

definition check_rec ::
  "int \<Rightarrow> (int \<Rightarrow> u64 \<Rightarrow> u64 \<Rightarrow> string option) \<Rightarrow> u64 \<Rightarrow> u64 \<Rightarrow> u64 \<Rightarrow> u64 \<Rightarrow> u64 \<Rightarrow>
     int \<times> ac_bl_run_result \<Rightarrow> ac_baseline_rec \<Rightarrow> int \<times> ac_bl_run_result" where
  "check_rec mem_open hash inode start rs re run_len st r =
     (case st of (mem_fd, res) \<Rightarrow>
        if rec_kind inode rs re r \<noteq> 1 then st
        else
          (let res1 = (if br_offset r = rs \<and> br_size r = run_len then res\<lparr>rr_len_changed := False\<rparr> else res);
               fd = (if mem_fd = - 1 then (if mem_open < 0 then - 2 else mem_open) else mem_fd);
               verdict = (if fd < 0 then AC_BL_HASH_FAILED
                          else case hash fd (start + (br_offset r - rs)) (br_size r) of
                                 None \<Rightarrow> AC_BL_HASH_FAILED
                               | Some hex \<Rightarrow> if hex \<noteq> br_hex r then AC_BL_MISMATCH else AC_BL_OK)
           in (fd, if verdict > rr_verdict res1
                   then res1\<lparr>rr_verdict := verdict, rr_off := br_offset r, rr_size := br_size r\<rparr>
                   else res1)))"

text \<open>The loop that moves \<open>lo\<close> across the fitting records: one pass, then passes until nothing grows.\<close>

definition cover_pass :: "ac_baseline_rec list \<Rightarrow> u64 \<Rightarrow> u64 \<times> bool" where
  "cover_pass fits lo =
     foldl (\<lambda>(lo, grew) r. if br_offset r \<le> lo \<and> br_offset r + br_size r > lo then (br_offset r + br_size r, True) else (lo, grew))
       (lo, False) fits"

lemma cover_pass_mono:
  "foldl (\<lambda>(lo, grew) r. if br_offset r \<le> lo \<and> br_offset r + br_size r > lo then (br_offset r + br_size r, True) else (lo, grew)) (lo, g) fits = (lo', g')
   \<Longrightarrow> lo \<le> lo' \<and> (g' \<longrightarrow> g \<or> lo < lo')"
proof (induction fits arbitrary: lo g)
  case (Cons r fits)
  show ?case
  proof (cases "br_offset r \<le> lo \<and> br_offset r + br_size r > lo")
    case True
    with Cons.prems Cons.IH [of "br_offset r + br_size r" True] show ?thesis by auto
  next
    case False
    with Cons.prems Cons.IH [of lo g] show ?thesis by auto
  qed
qed simp

lemma cover_pass_grows: "cover_pass fits lo = (lo', True) \<Longrightarrow> lo < lo'"
  using cover_pass_mono [of lo False fits lo' True] by (simp add: cover_pass_def)

function cover_loop :: "ac_baseline_rec list \<Rightarrow> u64 \<Rightarrow> u64 \<Rightarrow> u64" where
  "cover_loop fits hi lo =
     (if lo < hi then (case cover_pass fits lo of (lo', grew) \<Rightarrow> if grew then cover_loop fits hi lo' else lo') else lo)"
  by pat_completeness auto
termination
proof (relation "measure (\<lambda>(fits, hi, lo). unat hi - unat lo)", goal_cases)
  case (2 fits hi lo lo' grew)
  then have "lo < lo'" using cover_pass_grows by (metis (full_types))
  with 2 show ?case by (simp add: word_less_nat_alt)
qed simp

declare cover_loop.simps [simp del]

text \<open>One iteration of the second loop, over the partly overlapping records.\<close>

definition partial_rec :: "u64 \<Rightarrow> u64 \<Rightarrow> u64 \<Rightarrow> ac_baseline_rec list \<Rightarrow> ac_bl_run_result \<Rightarrow> ac_baseline_rec \<Rightarrow> ac_bl_run_result" where
  "partial_rec inode rs re recs res r =
     (if rr_verdict res \<ge> AC_BL_PARTIAL \<or> rec_kind inode rs re r \<noteq> 2 then res
      else
        (let lo = (if br_offset r > rs then br_offset r else rs);
             hi = (if br_offset r + br_size r < re then br_offset r + br_size r else re)
         in if cover_loop (filter (\<lambda>q. rec_kind inode rs re q = 1) recs) hi lo < hi
            then res\<lparr>rr_verdict := AC_BL_PARTIAL, rr_off := br_offset r, rr_size := br_size r\<rparr>
            else res))"

text \<open>\<^verbatim>\<open>baseline_check_run\<close> on the entries \<open>i\<close> to \<open>j - 1\<close>; \<open>load\<close> reads the baseline file of a path.\<close>

definition baseline_check_run ::
  "int \<Rightarrow> (int \<Rightarrow> u64 \<Rightarrow> u64 \<Rightarrow> string option) \<Rightarrow> (string \<Rightarrow> ac_baseline_rec list \<times> bool) \<Rightarrow>
     ac_bl_vma list \<Rightarrow> nat \<Rightarrow> nat \<Rightarrow> int \<Rightarrow> int \<times> ac_bl_run_result" where
  "baseline_check_run mem_open hash load v i j mem_fd =
     (let rs = bv_offset (v ! i);
          re = bv_offset (v ! (j - 1)) + (bv_end (v ! (j - 1)) - bv_start (v ! (j - 1)));
          run_len = (if re - rs > AC_HASH_CAP then AC_HASH_CAP else re - rs);
          inode = bv_inode (v ! i);
          res0 = \<lparr>rr_verdict = AC_BL_UNBASELINED, rr_off = 0, rr_size = 0, rr_len_changed = True\<rparr>
      in case load (bv_path (v ! i)) of (recs, legacy) \<Rightarrow>
         case foldl (check_rec mem_open hash inode (bv_start (v ! i)) rs re run_len) (mem_fd, res0) recs of (fd, res1) \<Rightarrow>
           let res2 = foldl (partial_rec inode rs re recs) res1 recs
           in (fd, if rr_verdict res2 = AC_BL_UNBASELINED \<and> legacy then res2\<lparr>rr_verdict := AC_BL_LEGACY\<rparr> else res2))"

text \<open>The loop over the runs in \<^verbatim>\<open>check_baselines_periodic\<close> and \<^verbatim>\<open>cmd_scan\<close>: where each run starts and ends, and its result.\<close>

function check_runs ::
  "int \<Rightarrow> (int \<Rightarrow> u64 \<Rightarrow> u64 \<Rightarrow> string option) \<Rightarrow> (string \<Rightarrow> ac_baseline_rec list \<times> bool) \<Rightarrow>
     ac_bl_vma list \<Rightarrow> nat \<Rightarrow> int \<Rightarrow> (nat \<times> nat \<times> ac_bl_run_result) list \<times> int" where
  "check_runs mem_open hash load v r mem_fd =
     (if r < length v then
        (let rend = baseline_run_end v (length v) r
         in case baseline_check_run mem_open hash load v r rend mem_fd of (fd, res) \<Rightarrow>
              case check_runs mem_open hash load v rend fd of (rest, fd') \<Rightarrow> ((r, rend, res) # rest, fd'))
      else ([], mem_fd))"
  by pat_completeness auto
termination
proof (relation "measure (\<lambda>(mem_open, hash, load, v, r, mem_fd). length v - r)", goal_cases)
  case (2 mem_open hash load v r mem_fd)
  then show ?case using run_end_loop_ge [of "r + 1" v "length v" r] by (auto simp: baseline_run_end_def)
qed simp

declare check_runs.simps [simp del]

subsection \<open>The hash is the hash of the memory\<close>

text \<open>\<^verbatim>\<open>pread\<close> returns at most what was asked for, and the bytes that are there.\<close>

definition reads_memory :: "(u64 \<Rightarrow> nat \<Rightarrow> byte list option) \<Rightarrow> (u64 \<Rightarrow> byte) \<Rightarrow> bool" where
  "reads_memory rd mem \<longleftrightarrow> (\<forall>a w bs. rd a w = Some bs \<longrightarrow> length bs \<le> w \<and> bs = map (\<lambda>i. mem (a + of_nat i)) [0..<length bs])"

definition mem_bytes :: "(u64 \<Rightarrow> byte) \<Rightarrow> u64 \<Rightarrow> nat \<Rightarrow> byte list" where
  "mem_bytes mem a n = map (\<lambda>i. mem (a + of_nat i)) [0..<n]"

lemma mem_bytes_add: "mem_bytes mem a (m + n) = mem_bytes mem a m @ mem_bytes mem (a + of_nat m) n"
  by (induction n) (simp_all add: mem_bytes_def add.assoc)

lemma hash_loop_has:
  assumes rd: "reads_memory rd mem"
  shows "pos \<le> sz \<Longrightarrow> ctx_has ctx (mem_bytes mem start pos) \<Longrightarrow> hash_loop rd start sz pos ctx = Some (pos', ctx') \<Longrightarrow>
    pos' \<le> sz \<and> ctx_has ctx' (mem_bytes mem start pos')"
proof (induction "sz - pos" arbitrary: pos ctx rule: less_induct)
  case less
  note e = less.prems(3) [unfolded hash_loop.simps [of rd start sz pos ctx]]
  show ?case
  proof (cases "pos < sz")
    case True
    let ?w = "if sz - pos > AC_READ_CHUNK then AC_READ_CHUNK else sz - pos"
    from e True obtain r where r: "rd (start + of_nat pos) ?w = Some r" by (auto simp: Let_def split: option.splits)
    obtain c where c: "ac_sha256_update ctx r = Some c" "ctx_has c (mem_bytes mem start pos @ r)"
      using ac_sha256_update_has [OF less.prems(2)] by blast
    have rr: "length r \<le> ?w" "r = mem_bytes mem (start + of_nat pos) (length r)"
      using rd r unfolding reads_memory_def mem_bytes_def by blast+
    show ?thesis
    proof (cases "r = []")
      case True
      then show ?thesis using e r less.prems \<open>pos < sz\<close> by (simp add: Let_def)
    next
      case False
      have "ctx_has c (mem_bytes mem start (pos + length r))" using c(2) rr(2) by (simp add: mem_bytes_add)
      moreover have "hash_loop rd start sz (pos + length r) c = Some (pos', ctx')"
        using e True r False c(1) by (simp add: Let_def)
      moreover have "pos + length r \<le> sz" using rr(1) True by (simp split: if_splits)
      moreover have "sz - (pos + length r) < sz - pos" using False True by (cases r) auto
      ultimately show ?thesis using less.hyps by blast
    qed
  qed (use e less.prems in simp)
qed

lemma hash_proc_mem_value:
  assumes "reads_memory rd mem" and "length (ctx_buf c0) = 64" and "hash_proc_mem rd c0 start sz = Some h"
  shows "h = ac_sha256_hex_digest (sha256_spec (mem_bytes mem start (unat sz)))"
proof -
  from assms(3) obtain pos ctx where p: "hash_loop rd start (unat sz) 0 (ac_sha256_init c0) = Some (pos, ctx)" "\<not> pos < unat sz"
    "map_option ac_sha256_hex_digest (ac_sha256_final ctx) = Some h"
    by (auto simp: hash_proc_mem_def split: option.splits if_splits)
  have "ctx_has (ac_sha256_init c0) (mem_bytes mem start 0)" using ctx_has_init [OF assms(2)] by (simp add: mem_bytes_def)
  from hash_loop_has [OF assms(1) _ this p(1)] p(2) have "ctx_has ctx (mem_bytes mem start (unat sz))" by auto
  then show ?thesis using p(3) ac_sha256_final_has by fastforce
qed

text \<open>Memory that can be read is hashed: a digest is returned.\<close>

lemma hash_loop_total:
  assumes rd: "\<forall>a w. rd a w = Some (mem_bytes mem a w)"
  shows "pos \<le> sz \<Longrightarrow> ctx_has ctx (mem_bytes mem start pos) \<Longrightarrow>
    \<exists>c. hash_loop rd start sz pos ctx = Some (sz, c) \<and> ctx_has c (mem_bytes mem start sz)"
proof (induction "sz - pos" arbitrary: pos ctx rule: less_induct)
  case less
  note e = hash_loop.simps [of rd start sz pos ctx]
  show ?case
  proof (cases "pos < sz")
    case True
    define w where "w = (if sz - pos > AC_READ_CHUNK then AC_READ_CHUNK else sz - pos)"
    let ?r = "mem_bytes mem (start + of_nat pos) w"
    have w: "0 < w" "pos + w \<le> sz" using True by (auto simp: w_def AC_READ_CHUNK_def)
    then have r: "?r \<noteq> []" "length ?r = w" unfolding mem_bytes_def by auto
    obtain c where c: "ac_sha256_update ctx ?r = Some c" "ctx_has c (mem_bytes mem start pos @ ?r)"
      using ac_sha256_update_has [OF less.prems(2)] by blast
    then have "ctx_has c (mem_bytes mem start (pos + w))" by (simp only: mem_bytes_add)
    moreover have "sz - (pos + w) < sz - pos" using w True by linarith
    ultimately obtain c' where
      c': "hash_loop rd start sz (pos + w) c = Some (sz, c')" "ctx_has c' (mem_bytes mem start sz)" using less.hyps [of "pos + w" c] w by blast
    have "hash_loop rd start sz pos ctx = hash_loop rd start sz (pos + w) c"
      unfolding e w_def [symmetric] using True rd c(1) r by (simp add: Let_def)
    then show ?thesis using c' by simp
  next
    case False
    then show ?thesis using e less.prems by simp
  qed
qed

lemma hash_proc_mem_total:
  assumes "\<forall>a w. rd a w = Some (mem_bytes mem a w)" and "length (ctx_buf c0) = 64"
  shows "hash_proc_mem rd c0 start sz = Some (ac_sha256_hex_digest (sha256_spec (mem_bytes mem start (unat sz))))"
proof -
  have "ctx_has (ac_sha256_init c0) (mem_bytes mem start 0)" using ctx_has_init [OF assms(2)] by (simp add: mem_bytes_def)
  from hash_loop_total [OF assms(1) _ this, of "unat sz"] obtain c where
    c: "hash_loop rd start (unat sz) 0 (ac_sha256_init c0) = Some (unat sz, c)" "ctx_has c (mem_bytes mem start (unat sz))" by auto
  then show ?thesis using ac_sha256_final_has [OF c(2)] by (auto simp: hash_proc_mem_def)
qed

subsection \<open>Verdicts\<close>

definition covers :: "ac_baseline_rec \<Rightarrow> u64 \<Rightarrow> bool" where
  "covers r x \<longleftrightarrow> br_offset r \<le> x \<and> x < br_offset r + br_size r"

text \<open>A pass and the loop over passes move \<open>lo\<close> over covered bytes only, and stop only where no record continues.\<close>

lemma pass_grew:
  "foldl (\<lambda>(lo, grew) r. if br_offset r \<le> lo \<and> br_offset r + br_size r > lo then (br_offset r + br_size r, True) else (lo, grew)) (lo, True) fits = (lo', g')
   \<Longrightarrow> g'"
  by (induction fits arbitrary: lo) (auto split: if_splits)

lemma pass_covers:
  "foldl (\<lambda>(lo, grew) r. if br_offset r \<le> lo \<and> br_offset r + br_size r > lo then (br_offset r + br_size r, True) else (lo, grew)) (lo, g) fits = (lo', g')
   \<Longrightarrow> (\<forall>x. lo \<le> x \<and> x < lo' \<longrightarrow> (\<exists>r \<in> set fits. covers r x)) \<and> (\<not> g' \<longrightarrow> lo' = lo \<and> (\<forall>r \<in> set fits. \<not> covers r lo))"
proof (induction fits arbitrary: lo g)
  case (Cons r fits)
  show ?case
  proof (cases "br_offset r \<le> lo \<and> br_offset r + br_size r > lo")
    case True
    let ?e = "br_offset r + br_size r"
    have step: "foldl (\<lambda>(lo, grew) r. if br_offset r \<le> lo \<and> br_offset r + br_size r > lo then (br_offset r + br_size r, True) else (lo, grew)) (?e, True) fits = (lo', g')"
      using Cons.prems True by simp
    have g: "g'" by (rule pass_grew [OF step])
    have "\<exists>q \<in> set (r # fits). covers q x" if "lo \<le> x" "x < lo'" for x
    proof (cases "x < ?e")
      case True
      then show ?thesis using that \<open>br_offset r \<le> lo \<and> br_offset r + br_size r > lo\<close> by (auto simp: covers_def)
    next
      case False
      then show ?thesis using Cons.IH [OF step] that by auto
    qed
    with g show ?thesis by blast
  next
    case False
    with Cons.prems Cons.IH [of lo g] show ?thesis by (auto simp: covers_def not_less)
  qed
qed auto

lemma cover_loop_sound: "cover_loop fits hi lo \<ge> hi \<Longrightarrow> lo \<le> x \<Longrightarrow> x < hi \<Longrightarrow> \<exists>r \<in> set fits. covers r x"
proof (induction fits hi lo rule: cover_loop.induct)
  case (1 fits hi lo)
  have lt: "lo < hi" using 1 by auto
  obtain lo' g where p: "cover_pass fits lo = (lo', g)" by (cases "cover_pass fits lo")
  have c: "lo \<le> x \<Longrightarrow> x < lo' \<Longrightarrow> \<exists>r \<in> set fits. covers r x" for x
    using pass_covers [OF p [unfolded cover_pass_def]] by blast
  note e = cover_loop.simps [of fits hi lo]
  show ?case
  proof (cases "x < lo'")
    case False
    then have g: "g" using 1(2,4) lt p e by (cases g) auto
    then have "hi \<le> cover_loop fits hi lo'" using 1(2) lt p e by simp
    then show ?thesis using 1(1) [OF lt p [symmetric] g] False 1(4) by auto
  qed (use c 1 in blast)
qed

lemma cover_loop_complete: "cover_loop fits hi lo < hi \<Longrightarrow> lo \<le> cover_loop fits hi lo \<and> (\<forall>r \<in> set fits. \<not> covers r (cover_loop fits hi lo))"
proof (induction fits hi lo rule: cover_loop.induct)
  case (1 fits hi lo)
  obtain lo' g where p: "cover_pass fits lo = (lo', g)" by (cases "cover_pass fits lo")
  note c = pass_covers [OF p [unfolded cover_pass_def]] and m = cover_pass_mono [OF p [unfolded cover_pass_def]]
  note e = cover_loop.simps [of fits hi lo]
  have lt: "lo < hi" using 1(2) e by (cases "lo < hi") auto
  show ?case
  proof (cases g)
    case True
    then have e': "cover_loop fits hi lo = cover_loop fits hi lo'" using e lt p by simp
    then show ?thesis using 1(1) [OF lt p [symmetric] True] 1(2) m by auto
  next
    case False
    then have "cover_loop fits hi lo = lo'" using e lt p by simp
    then show ?thesis using c m False by simp
  qed
qed

text \<open>The descriptor that every fitting record is hashed through, and the verdict on one of them.\<close>

definition opened :: "int \<Rightarrow> int \<Rightarrow> int" where
  "opened mem_open fd = (if fd = - 1 then (if mem_open < 0 then - 2 else mem_open) else fd)"

definition rec_verdict :: "(int \<Rightarrow> u64 \<Rightarrow> u64 \<Rightarrow> string option) \<Rightarrow> int \<Rightarrow> u64 \<Rightarrow> u64 \<Rightarrow> ac_baseline_rec \<Rightarrow> nat" where
  "rec_verdict hash fd start rs r =
     (if fd < 0 then AC_BL_HASH_FAILED
      else case hash fd (start + (br_offset r - rs)) (br_size r) of
             None \<Rightarrow> AC_BL_HASH_FAILED
           | Some hex \<Rightarrow> if hex \<noteq> br_hex r then AC_BL_MISMATCH else AC_BL_OK)"

lemma opened_idem [simp]: "opened mem_open (opened mem_open fd) = opened mem_open fd"
  by (simp add: opened_def)

lemma check_rec_eq:
  "check_rec mo hash inode start rs re len (fd, res) r =
     (if rec_kind inode rs re r \<noteq> 1 then (fd, res)
      else let v = rec_verdict hash (opened mo fd) start rs r;
               res1 = (if br_offset r = rs \<and> br_size r = len then res\<lparr>rr_len_changed := False\<rparr> else res)
           in (opened mo fd, if v > rr_verdict res then res1\<lparr>rr_verdict := v, rr_off := br_offset r, rr_size := br_size r\<rparr> else res1))"
  by (simp add: check_rec_def rec_verdict_def opened_def Let_def)

lemma check_fold:
  assumes "foldl (check_rec mo hash inode start rs re len) (fd, res) recs = (fd', res')"
  shows "opened mo fd' = opened mo fd \<and> rr_verdict res \<le> rr_verdict res' \<and>
    (\<forall>r \<in> set recs. rec_kind inode rs re r = 1 \<longrightarrow> rec_verdict hash (opened mo fd) start rs r \<le> rr_verdict res') \<and>
    (rr_verdict res' = rr_verdict res \<or>
      (\<exists>r \<in> set recs. rec_kind inode rs re r = 1 \<and> rr_verdict res' = rec_verdict hash (opened mo fd) start rs r))"
  using assms
proof (induction recs arbitrary: fd res)
  case (Cons r recs)
  obtain fd1 res1 where s: "check_rec mo hash inode start rs re len (fd, res) r = (fd1, res1)" by fastforce
  have o: "opened mo fd1 = opened mo fd" using s by (auto simp: check_rec_eq Let_def split: if_splits)
  have v: "rr_verdict res1 = (if rec_kind inode rs re r = 1 then max (rr_verdict res) (rec_verdict hash (opened mo fd) start rs r) else rr_verdict res)"
    using s by (auto simp: check_rec_eq Let_def split: if_splits)
  have "foldl (check_rec mo hash inode start rs re len) (fd1, res1) recs = (fd', res')" using Cons.prems s by simp
  from Cons.IH [OF this] show ?case unfolding o v by (auto simp: max_def split: if_splits)
qed simp

text \<open>Whether the fitting records cover the overlap of a record with the run, as the second loop decides it.\<close>

definition overlap_done :: "u64 \<Rightarrow> u64 \<Rightarrow> u64 \<Rightarrow> ac_baseline_rec list \<Rightarrow> ac_baseline_rec \<Rightarrow> bool" where
  "overlap_done inode rs re recs r \<longleftrightarrow>
     (let hi = (if br_offset r + br_size r < re then br_offset r + br_size r else re)
      in hi \<le> cover_loop (filter (\<lambda>q. rec_kind inode rs re q = 1) recs) hi (if br_offset r > rs then br_offset r else rs))"

lemma partial_verdict:
  "rr_verdict (partial_rec inode rs re recs res r) =
     (if rr_verdict res \<ge> AC_BL_PARTIAL \<or> rec_kind inode rs re r \<noteq> 2 \<or> overlap_done inode rs re recs r then rr_verdict res else AC_BL_PARTIAL)"
proof -
  define hi where "hi = (if br_offset r + br_size r < re then br_offset r + br_size r else re)"
  define c where "c = cover_loop (filter (\<lambda>q. rec_kind inode rs re q = 1) recs) hi (if br_offset r > rs then br_offset r else rs)"
  have o: "overlap_done inode rs re recs r \<longleftrightarrow> \<not> c < hi" by (simp only: overlap_done_def Let_def hi_def c_def not_less)
  have p: "partial_rec inode rs re recs res r = (if rr_verdict res \<ge> AC_BL_PARTIAL \<or> rec_kind inode rs re r \<noteq> 2 then res
      else if c < hi then res\<lparr>rr_verdict := AC_BL_PARTIAL, rr_off := br_offset r, rr_size := br_size r\<rparr> else res)"
    by (simp only: partial_rec_def Let_def hi_def c_def)
  show ?thesis unfolding o p by simp
qed

lemma partial_fold:
  "rr_verdict (foldl (partial_rec inode rs re all) res recs) =
     (if rr_verdict res \<ge> AC_BL_PARTIAL \<or> (\<forall>r \<in> set recs. rec_kind inode rs re r = 2 \<longrightarrow> overlap_done inode rs re all r)
      then rr_verdict res else AC_BL_PARTIAL)"
proof (induction recs arbitrary: res)
  case (Cons r recs)
  show ?case unfolding foldl.simps Cons.IH partial_verdict by auto
qed simp

lemma overlap_done_iff:
  "overlap_done inode rs re recs r \<longleftrightarrow>
     (\<forall>x. rs \<le> x \<and> x < re \<and> covers r x \<longrightarrow> (\<exists>q \<in> set recs. rec_kind inode rs re q = 1 \<and> covers q x))"
proof -
  let ?hi = "if br_offset r + br_size r < re then br_offset r + br_size r else re" and ?lo = "if br_offset r > rs then br_offset r else rs"
  let ?f = "filter (\<lambda>q. rec_kind inode rs re q = 1) recs"
  have range: "(rs \<le> x \<and> x < re \<and> covers r x) = (?lo \<le> x \<and> x < ?hi)" for x by (auto simp: covers_def)
  show ?thesis
  proof (cases "?hi \<le> cover_loop ?f ?hi ?lo")
    case True
    then have "overlap_done inode rs re recs r" by (simp add: overlap_done_def Let_def)
    then show ?thesis using cover_loop_sound [OF True] unfolding range by fastforce
  next
    case False
    let ?x = "cover_loop ?f ?hi ?lo"
    have "?lo \<le> ?x" "\<forall>q \<in> set ?f. \<not> covers q ?x" "?x < ?hi" using cover_loop_complete [of ?f ?hi ?lo] False by (auto simp: not_le)
    then have "\<not> (\<forall>x. ?lo \<le> x \<and> x < ?hi \<longrightarrow> (\<exists>q \<in> set recs. rec_kind inode rs re q = 1 \<and> covers q x))" by auto
    moreover have "\<not> overlap_done inode rs re recs r" using False by (simp add: overlap_done_def Let_def)
    ultimately show ?thesis unfolding range by blast
  qed
qed

lemma check_fold_len:
  assumes "foldl (check_rec mo hash inode start rs re len) (fd, res) recs = (fd', res')"
  shows "rr_len_changed res' \<longleftrightarrow> rr_len_changed res \<and> (\<forall>r \<in> set recs. rec_kind inode rs re r = 1 \<longrightarrow> \<not> (br_offset r = rs \<and> br_size r = len))"
  using assms
proof (induction recs arbitrary: fd res)
  case (Cons r recs)
  obtain fd1 res1 where s: "check_rec mo hash inode start rs re len (fd, res) r = (fd1, res1)" by fastforce
  have v: "rr_len_changed res1 \<longleftrightarrow> rr_len_changed res \<and> (rec_kind inode rs re r = 1 \<longrightarrow> \<not> (br_offset r = rs \<and> br_size r = len))"
    using s by (auto simp: check_rec_eq Let_def split: if_splits)
  have "foldl (check_rec mo hash inode start rs re len) (fd1, res1) recs = (fd', res')" using Cons.prems s by simp
  from Cons.IH [OF this] show ?case unfolding v by auto
qed simp

lemma partial_fold_len: "rr_len_changed (foldl (partial_rec inode rs re all) res recs) = rr_len_changed res"
proof (induction recs arbitrary: res)
  case (Cons r recs)
  have "rr_len_changed (partial_rec inode rs re all res r) = rr_len_changed res" by (simp add: partial_rec_def Let_def)
  then show ?case using Cons.IH by simp
qed simp

text \<open>The verdict of the first loop is the worst one among the records that lie in the run.\<close>

lemma check_fold_worst:
  assumes f: "foldl (check_rec mo hash inode start rs re len) (fd0, res0) recs = (fd', res')" and z: "rr_verdict res0 = AC_BL_UNBASELINED"
    and fits: "fits = filter (\<lambda>r. rec_kind inode rs re r = 1) recs"
  defines "V \<equiv> rec_verdict hash (opened mo fd0) start rs"
  shows "rr_verdict res' =
    (if \<exists>r \<in> set fits. V r = AC_BL_MISMATCH then AC_BL_MISMATCH
     else if \<exists>r \<in> set fits. V r = AC_BL_HASH_FAILED then AC_BL_HASH_FAILED
     else if fits \<noteq> [] then AC_BL_OK else AC_BL_UNBASELINED)"
proof -
  note c = check_fold [OF f, folded V_def]
  have V: "V r = AC_BL_HASH_FAILED \<or> V r = AC_BL_OK \<or> V r = AC_BL_MISMATCH" for r
    by (simp add: V_def rec_verdict_def split: option.split)
  have le: "V r \<le> rr_verdict res'" if "r \<in> set fits" for r using c that by (auto simp: fits)
  have ex: "rr_verdict res' = AC_BL_UNBASELINED \<or> (\<exists>r \<in> set fits. rr_verdict res' = V r)" using c z by (auto simp: fits)
  consider (none) "fits = []" | (some) r where "r \<in> set fits" by (cases fits) auto
  then show ?thesis
  proof cases
    case none
    then show ?thesis using ex by simp
  next
    case some
    have nz: "rr_verdict res' \<noteq> AC_BL_UNBASELINED" using le [OF some] V [of r] by (auto simp: ac_bl_defs)
    then obtain w where w: "w \<in> set fits" "rr_verdict res' = V w" using ex by blast
    have top: "V q \<le> V w" if "q \<in> set fits" for q using le [OF that] w by simp
    have "V w = AC_BL_MISMATCH" if "q \<in> set fits" "V q = AC_BL_MISMATCH" for q using top [OF that(1)] that V [of w] by (auto simp: ac_bl_defs)
    moreover have "V w \<noteq> AC_BL_OK" if "q \<in> set fits" "V q = AC_BL_HASH_FAILED" for q using top [OF that(1)] that by (auto simp: ac_bl_defs)
    ultimately show ?thesis using w V [of w] by auto
  qed
qed

text \<open>C19: The verdict on a run is exact.  A record that lies in the run is readable when the descriptor is open and
  the whole range it names can be read.  The verdict is Mismatch precisely when some readable record in the run has
  a digest other than the SHA-256 of the process's memory there; otherwise Partial precisely when some byte of a
  record's overlap with the run is in no record lying in the run; otherwise Hash-failed precisely when some record
  in the run is not readable; otherwise OK precisely when there is a record in the run at all; and with no record
  it is Legacy or Unbaselined as the file had records in the old format or not.  OK therefore means that each byte
  of the run that any record speaks of was hashed, as part of a record lying in the run, to the saved digest.  The
  length is called changed precisely when no record in the run has the run's offset and (capped) length.\<close>

theorem baseline_verdict_exact:
  assumes hash: "hash = (\<lambda>fd. hash_proc_mem (rd fd) c0)" and mem: "\<And>fd. reads_memory (rd fd) mem" and ctx: "length (ctx_buf c0) = 64"
    and run: "rs = bv_offset (v ! i)" "re = bv_offset (v ! (j - 1)) + (bv_end (v ! (j - 1)) - bv_start (v ! (j - 1)))"
    and load: "load (bv_path (v ! i)) = (recs, legacy)"
    and fd: "fd = (if mem_fd = - 1 then (if mem_open < 0 then - 2 else mem_open) else mem_fd)"
    and kind: "kind = rec_kind (bv_inode (v ! i)) rs re" and fits: "fits = filter (\<lambda>r. kind r = 1) recs"
    and at: "at = (\<lambda>r. bv_start (v ! i) + (br_offset r - rs))"
    and readable: "readable = (\<lambda>r. 0 \<le> fd \<and> hash fd (at r) (br_size r) \<noteq> None)"
    and digest: "digest = (\<lambda>r. ac_sha256_hex_digest (sha256_spec (mem_bytes mem (at r) (unat (br_size r)))))"
    and call: "baseline_check_run mem_open hash load v i j mem_fd = (fd', res)"
  shows "rr_verdict res =
      (if \<exists>r \<in> set fits. readable r \<and> br_hex r \<noteq> digest r then AC_BL_MISMATCH
       else if \<exists>r \<in> set recs. kind r = 2 \<and> (\<exists>x. rs \<le> x \<and> x < re \<and> covers r x \<and> (\<forall>q \<in> set fits. \<not> covers q x)) then AC_BL_PARTIAL
       else if \<exists>r \<in> set fits. \<not> readable r then AC_BL_HASH_FAILED
       else if fits \<noteq> [] then AC_BL_OK
       else if legacy then AC_BL_LEGACY else AC_BL_UNBASELINED) \<and>
    (rr_verdict res = AC_BL_OK \<longrightarrow>
      (\<forall>r \<in> set recs. kind r \<noteq> 0 \<longrightarrow> (\<forall>x. rs \<le> x \<and> x < re \<and> covers r x \<longrightarrow> (\<exists>q \<in> set fits. covers q x \<and> br_hex q = digest q)))) \<and>
    (rr_len_changed res \<longleftrightarrow> \<not> (\<exists>r \<in> set fits. br_offset r = rs \<and> br_size r = min (re - rs) AC_HASH_CAP))"
proof -
  let ?in = "bv_inode (v ! i)" and ?st = "bv_start (v ! i)"
  let ?V = "rec_verdict hash fd ?st rs"
  let ?res0 = "\<lparr>rr_verdict = AC_BL_UNBASELINED, rr_off = 0, rr_size = 0, rr_len_changed = True\<rparr>"
  let ?len = "if re - rs > AC_HASH_CAP then AC_HASH_CAP else re - rs"
  obtain fd1 res1 where f: "foldl (check_rec mem_open hash ?in ?st rs re ?len) (mem_fd, ?res0) recs = (fd1, res1)" by fastforce
  define res2 where "res2 = foldl (partial_rec ?in rs re recs) res1 recs"
  have res: "res = (if rr_verdict res2 = AC_BL_UNBASELINED \<and> legacy then res2\<lparr>rr_verdict := AC_BL_LEGACY\<rparr> else res2)"
    using call [unfolded baseline_check_run_def Let_def load prod.case, folded run] f by (simp only: prod.case prod.inject res2_def)
  have op: "opened mem_open mem_fd = fd" by (simp add: opened_def fd)
  have fits': "fits = filter (\<lambda>r. rec_kind ?in rs re r = 1) recs" by (simp add: fits kind)
  note worst = check_fold_worst [OF f _ fits', unfolded op, simplified]
  define gap where "gap \<longleftrightarrow> (\<exists>r \<in> set recs. kind r = 2 \<and> (\<exists>x. rs \<le> x \<and> x < re \<and> covers r x \<and> (\<forall>q \<in> set fits. \<not> covers q x)))"
  have od: "(\<forall>r \<in> set recs. kind r = 2 \<longrightarrow> overlap_done ?in rs re recs r) \<longleftrightarrow> \<not> gap"
    unfolding overlap_done_iff gap_def fits kind by auto
  have P: "rr_verdict res2 = (if rr_verdict res1 \<ge> AC_BL_PARTIAL \<or> \<not> gap then rr_verdict res1 else AC_BL_PARTIAL)"
    using od unfolding res2_def partial_fold kind by simp
  have val: "hash fd (at r) (br_size r) = Some h \<Longrightarrow> h = digest r" for r h
    using hash_proc_mem_value [OF mem ctx] unfolding hash digest by blast
  have VM: "?V r = AC_BL_MISMATCH \<longleftrightarrow> readable r \<and> br_hex r \<noteq> digest r"
    and VF: "?V r = AC_BL_HASH_FAILED \<longleftrightarrow> \<not> readable r" for r
    using val [of r] by (auto simp: rec_verdict_def ac_bl_defs readable at split: option.split)
  have verdict: "rr_verdict res =
      (if \<exists>r \<in> set fits. readable r \<and> br_hex r \<noteq> digest r then AC_BL_MISMATCH else if gap then AC_BL_PARTIAL
       else if \<exists>r \<in> set fits. \<not> readable r then AC_BL_HASH_FAILED
       else if fits \<noteq> [] then AC_BL_OK else if legacy then AC_BL_LEGACY else AC_BL_UNBASELINED)"
  proof -
    define bad unread where "bad \<longleftrightarrow> (\<exists>r \<in> set fits. readable r \<and> br_hex r \<noteq> digest r)" and "unread \<longleftrightarrow> (\<exists>r \<in> set fits. \<not> readable r)"
    show ?thesis using worst unfolding VM VF bad_def [symmetric] unread_def [symmetric] res by (cases bad; cases unread) (simp_all add: P ac_bl_defs)
  qed
  have ok: "\<exists>q \<in> set fits. covers q x \<and> br_hex q = digest q"
    if "rr_verdict res = AC_BL_OK" and r: "r \<in> set recs" "kind r \<noteq> 0" and x: "rs \<le> x \<and> x < re \<and> covers r x" for r x
  proof -
    have "\<not> gap" and all: "\<forall>q \<in> set fits. br_hex q = digest q" using that(1) unfolding verdict by (auto simp: ac_bl_defs split: if_splits)
    moreover have "kind r = 1 \<or> kind r = 2" using r(2) by (simp add: kind rec_kind_def split: if_splits)
    ultimately have "\<exists>q \<in> set fits. covers q x" using r x unfolding gap_def by (auto simp: fits)
    with all show ?thesis by blast
  qed
  have "rr_len_changed res \<longleftrightarrow> \<not> (\<exists>r \<in> set fits. br_offset r = rs \<and> br_size r = min (re - rs) AC_HASH_CAP)"
    using check_fold_len [OF f] partial_fold_len [of ?in rs re recs res1 recs] unfolding res res2_def fits'
    by (auto simp: min_def not_less)
  with verdict ok show ?thesis unfolding gap_def by blast
qed

theorem baseline_verdict_exact_witness:
  "rr_verdict (snd (baseline_check_run 3 (\<lambda>fd. hash_proc_mem (\<lambda>a w. Some (mem_bytes (\<lambda>_. 0x90) a w)) \<lparr>ctx_h = [], ctx_len = 0, ctx_buf = replicate 64 0, ctx_buflen = 0\<rparr>)
     (\<lambda>_. ([\<lparr>br_inode = 5, br_offset = 0x1000, br_size = 0x2000, br_hex = ''00''\<rparr>], False))
     [\<lparr>bv_start = 0x7000, bv_end = 0x9000, bv_offset = 0x1000, bv_inode = 5, bv_path = ''/lib/x''\<rparr>] 0 1 (- 1))) = AC_BL_MISMATCH"
proof -
  let ?c0 = "\<lparr>ctx_h = [], ctx_len = 0, ctx_buf = replicate 64 0, ctx_buflen = 0\<rparr>"
  let ?rd = "\<lambda>a w. Some (mem_bytes (\<lambda>_. 0x90) a w)" and ?r = "\<lparr>br_inode = 5, br_offset = 0x1000, br_size = 0x2000, br_hex = ''00''\<rparr> :: ac_baseline_rec"
  let ?v = "[\<lparr>bv_start = 0x7000, bv_end = 0x9000, bv_offset = 0x1000, bv_inode = 5, bv_path = ''/lib/x''\<rparr>]"
  let ?hash = "\<lambda>fd :: int. hash_proc_mem ?rd ?c0"
  have rd: "reads_memory ?rd (\<lambda>_. 0x90)" by (simp add: reads_memory_def mem_bytes_def)
  obtain fd' res where call: "baseline_check_run 3 ?hash (\<lambda>_. ([?r], False)) ?v 0 1 (- 1) = (fd', res)" by fastforce
  have rs: "0x1000 = bv_offset (?v ! 0)" and re: "0x3000 = bv_offset (?v ! (1 - 1)) + (bv_end (?v ! (1 - 1)) - bv_start (?v ! (1 - 1)))" by simp_all
  have k: "rec_kind (bv_inode (?v ! 0)) 0x1000 0x3000 ?r = 1" by (simp add: rec_kind_def)
  have tot: "?hash 3 a n \<noteq> None" for a n using hash_proc_mem_total [of ?rd "\<lambda>_. 0x90" ?c0] by auto
  have ne: "''00'' \<noteq> ac_sha256_hex_digest d" for d
    using length_hex_digest [of d] by (auto dest!: arg_cong [of "''00''" _ length])
  note t = baseline_verdict_exact [OF refl rd _ rs re _ refl refl refl refl refl refl call, THEN conjunct1]
  have "rr_verdict res = AC_BL_MISMATCH" by (subst t) (use k tot ne in auto)
  then show ?thesis using call by simp
qed

subsection \<open>Runs are the mappings before they were split\<close>

text \<open>The specification: adjacent mappings that continue each other are merged, and each merged mapping is checked alone.\<close>

definition continues :: "ac_bl_vma \<Rightarrow> ac_bl_vma \<Rightarrow> bool" where
  "continues m x \<longleftrightarrow> extends_run m m x"

fun coalesce_from :: "ac_bl_vma \<Rightarrow> ac_bl_vma list \<Rightarrow> ac_bl_vma list" where
  "coalesce_from m [] = [m]"
| "coalesce_from m (x # xs) = (if continues m x then coalesce_from (m\<lparr>bv_end := bv_end x\<rparr>) xs else m # coalesce_from x xs)"

fun coalesce :: "ac_bl_vma list \<Rightarrow> ac_bl_vma list" where
  "coalesce [] = []"
| "coalesce (x # xs) = coalesce_from x xs"

fun check_merged ::
  "int \<Rightarrow> (int \<Rightarrow> u64 \<Rightarrow> u64 \<Rightarrow> string option) \<Rightarrow> (string \<Rightarrow> ac_baseline_rec list \<times> bool) \<Rightarrow>
     ac_bl_vma list \<Rightarrow> int \<Rightarrow> (string \<times> u64 \<times> u64 \<times> ac_bl_run_result) list \<times> int" where
  "check_merged mem_open hash load [] fd = ([], fd)"
| "check_merged mem_open hash load (m # ms) fd =
     (case baseline_check_run mem_open hash load [m] 0 1 fd of (fd1, res) \<Rightarrow>
        case check_merged mem_open hash load ms fd1 of (rest, fd2) \<Rightarrow> ((bv_path m, bv_start m, bv_end m, res) # rest, fd2))"

text \<open>What a caller reads off a run: its file, its address range and the result.\<close>

definition run_report :: "ac_bl_vma list \<Rightarrow> nat \<times> nat \<times> ac_bl_run_result \<Rightarrow> string \<times> u64 \<times> u64 \<times> ac_bl_run_result" where
  "run_report v = (\<lambda>(r, rend, res). (bv_path (v ! r), bv_start (v ! r), bv_end (v ! (rend - 1)), res))"

definition contiguous :: "ac_bl_vma list \<Rightarrow> nat \<Rightarrow> nat \<Rightarrow> bool" where
  "contiguous v i j \<longleftrightarrow> bv_offset (v ! (j - 1)) + (bv_end (v ! (j - 1)) - bv_start (v ! (j - 1))) = bv_offset (v ! i) + (bv_end (v ! (j - 1)) - bv_start (v ! i))"

lemma run_end_loop_merges:
  assumes "i < j" and "j \<le> length v" and "contiguous v i j"
  shows "let e = run_end_loop v (length v) i j in
    j \<le> e \<and> e \<le> length v \<and> contiguous v i e \<and>
    coalesce_from ((v ! i)\<lparr>bv_end := bv_end (v ! (j - 1))\<rparr>) (drop j v) = (v ! i)\<lparr>bv_end := bv_end (v ! (e - 1))\<rparr> # coalesce (drop e v)"
  using assms
proof (induction "length v - j" arbitrary: j rule: less_induct)
  case less
  let ?m = "(v ! i)\<lparr>bv_end := bv_end (v ! (j - 1))\<rparr>"
  note e = run_end_loop.simps [of v "length v" i j]
  show ?case
  proof (cases "j < length v")
    case True
    then have d: "drop j v = v ! j # drop (Suc j) v" by (simp add: Cons_nth_drop_Suc)
    have c: "continues ?m (v ! j) \<longleftrightarrow> extends_run (v ! i) (v ! (j - 1)) (v ! j)"
      using less.prems(3) by (auto simp: continues_def extends_run_def contiguous_def)
    show ?thesis
    proof (cases "extends_run (v ! i) (v ! (j - 1)) (v ! j)")
      case ext: True
      have "contiguous v i (Suc j)" using ext less.prems(3) by (simp add: contiguous_def extends_run_def)
      moreover have "length v - Suc j < length v - j" using True by simp
      ultimately show ?thesis using less.hyps [of "Suc j"] True less.prems(1) ext c d e by (auto simp: Let_def)
    next
      case False
      then show ?thesis using True c d e less.prems by (simp add: Let_def)
    qed
  next
    case False
    then show ?thesis using e less.prems by (simp add: Let_def)
  qed
qed

lemma check_run_merged:
  assumes "contiguous v i j"
  shows "baseline_check_run mo hash load v i j fd = baseline_check_run mo hash load [(v ! i)\<lparr>bv_end := bv_end (v ! (j - 1))\<rparr>] 0 1 fd"
proof -
  define m where "m = (v ! i)\<lparr>bv_end := bv_end (v ! (j - 1))\<rparr>"
  have "bv_offset m = bv_offset (v ! i)" "bv_start m = bv_start (v ! i)" "bv_end m = bv_end (v ! (j - 1))"
    "bv_inode m = bv_inode (v ! i)" "bv_path m = bv_path (v ! i)" by (simp_all add: m_def)
  then show ?thesis using assms
    unfolding m_def [symmetric] contiguous_def baseline_check_run_def nth_Cons_0 diff_self_eq_0 by (simp only:)
qed

lemma check_runs_coalesce:
  "apfst (map (run_report v)) (check_runs mo hash load v r fd) = check_merged mo hash load (coalesce (drop r v)) fd"
proof (induction "length v - r" arbitrary: r fd rule: less_induct)
  case less
  note e = check_runs.simps [of mo hash load v r fd]
  show ?case
  proof (cases "r < length v")
    case True
    define rend where "rend = baseline_run_end v (length v) r"
    have base: "contiguous v r (Suc r)" by (simp add: contiguous_def)
    have m: "r < rend" "rend \<le> length v" "contiguous v r rend"
      "coalesce (drop r v) = (v ! r)\<lparr>bv_end := bv_end (v ! (rend - 1))\<rparr> # coalesce (drop rend v)"
      using run_end_loop_merges [OF _ _ base] True
      by (auto simp: rend_def baseline_run_end_def Let_def Cons_nth_drop_Suc [symmetric])
    obtain fd1 res where c: "baseline_check_run mo hash load v r rend fd = (fd1, res)" by fastforce
    obtain rest fd2 where k: "check_runs mo hash load v rend fd1 = (rest, fd2)" by fastforce
    have "check_runs mo hash load v r fd = ((r, rend, res) # rest, fd2)" using e True c k by (simp add: rend_def [symmetric] Let_def)
    moreover have "apfst (map (run_report v)) (rest, fd2) = check_merged mo hash load (coalesce (drop rend v)) fd1"
      using less.hyps [of rend fd1] k m True by simp
    ultimately show ?thesis using c m check_run_merged [OF m(3), of mo hash load fd] by (simp add: run_report_def split: prod.splits) auto
  next
    case False
    then show ?thesis using e by simp
  qed
qed

text \<open>Where a mapping is split at \<open>c\<close>: the pieces stay adjacent in memory and in the file.\<close>

definition vma_low :: "u64 \<Rightarrow> ac_bl_vma \<Rightarrow> ac_bl_vma" where
  "vma_low c m = m\<lparr>bv_end := c\<rparr>"

definition vma_high :: "u64 \<Rightarrow> ac_bl_vma \<Rightarrow> ac_bl_vma" where
  "vma_high c m = m\<lparr>bv_start := c, bv_offset := bv_offset m + (c - bv_start m)\<rparr>"

lemma coalesce_from_split: "coalesce_from p (xs @ vma_low c m # vma_high c m # ys) = coalesce_from p (xs @ m # ys)"
proof (induction xs arbitrary: p)
  case Nil
  have 1: "continues p (vma_low c m) = continues p m" by (simp add: continues_def extends_run_def vma_low_def)
  have 2: "continues (p\<lparr>bv_end := bv_end (vma_low c m)\<rparr>) (vma_high c m)" if "continues p m"
    using that by (simp add: continues_def extends_run_def vma_low_def vma_high_def)
  have 3: "continues (vma_low c m) (vma_high c m)" "(vma_low c m)\<lparr>bv_end := bv_end (vma_high c m)\<rparr> = m"
    by (simp_all add: continues_def extends_run_def vma_low_def vma_high_def)
  show ?case using 1 2 3 by (simp add: vma_high_def)
qed simp

lemma coalesce_split: "coalesce (xs @ vma_low c m # vma_high c m # ys) = coalesce (xs @ m # ys)"
proof (cases xs)
  case Nil
  have "continues (vma_low c m) (vma_high c m)" "(vma_low c m)\<lparr>bv_end := bv_end (vma_high c m)\<rparr> = m"
    by (simp_all add: continues_def extends_run_def vma_low_def vma_high_def)
  with Nil show ?thesis by simp
qed (simp add: coalesce_from_split)

text \<open>C20: Splitting a mapping changes no verdict.  The check reports, for any list of executable mappings, exactly the
  results of checking the mappings merged where they continue each other in memory and in the file; so cutting any
  mapping in two at any address leaves every reported file, range and result as it was.\<close>

theorem check_runs_split_invariant:
  "apfst (map (run_report v)) (check_runs mem_open hash load v 0 fd) = check_merged mem_open hash load (coalesce v) fd \<and>
   apfst (map (run_report (xs @ vma_low c m # vma_high c m # ys))) (check_runs mem_open hash load (xs @ vma_low c m # vma_high c m # ys) 0 fd) =
   apfst (map (run_report (xs @ m # ys))) (check_runs mem_open hash load (xs @ m # ys) 0 fd)"
  by (simp add: check_runs_coalesce coalesce_split)

subsection \<open>Saved records are read back\<close>

lemma fmt_lx_facts:
  "num_val 16 (fmt_lx w) = unat w" "fmt_lx w \<noteq> []" "c \<in> set (fmt_lx w) \<Longrightarrow> \<exists>d < 16. c = digit_char d" "length (fmt_lx w) \<le> 16"
proof -
  show "num_val 16 (fmt_lx w) = unat w" "fmt_lx w \<noteq> []" "c \<in> set (fmt_lx w) \<Longrightarrow> \<exists>d < 16. c = digit_char d"
    using digits_in_back [of 16 "unat w"] by (auto simp: fmt_lx_def)
  have "unat w < 16 ^ 16" using unsigned_less [of w, where ?'a = nat] by simp
  then show "length (fmt_lx w) \<le> 16" unfolding fmt_lx_def by (intro length_digits_in) auto
qed

lemma fmt_lx_char:
  assumes "c \<in> set (fmt_lx w)"
  shows "digit_val c < 16 \<and> \<not> isspace c \<and> c \<noteq> CHR ''-'' \<and> c \<noteq> CHR ''+'' \<and> c \<noteq> CHR ''x'' \<and> c \<noteq> CHR ''X''"
  using fmt_lx_facts(3) [OF assms] by (auto simp: digit_val_char digit_char_plain)

lemma digit_val_space: "\<not> digit_val (CHR '' '') < 16" by (simp add: digit_val_def)
lemma isspace_space: "isspace (CHR '' '')" by (simp add: isspace_def)
lemma isspace_newline: "isspace (CHR 0x0A)" by (simp add: isspace_def)

lemma scan_llx_fmt:
  assumes "\<forall>x \<in> set ws. isspace x"
  shows "scan_llx (ws @ fmt_lx w @ CHR '' '' # rest) = Some (w, CHR '' '' # rest)"
proof -
  obtain d ds where f: "fmt_lx w = d # ds" using fmt_lx_facts(2) by (cases "fmt_lx w") auto
  have d: "\<not> isspace d" "d \<noteq> CHR ''-''" "d \<noteq> CHR ''+''" using fmt_lx_char [of d w] f by auto
  have dw: "dropWhile isspace (ws @ fmt_lx w @ CHR '' '' # rest) = fmt_lx w @ CHR '' '' # rest"
    using assms d by (simp add: f)
  have sg: "take_sign (fmt_lx w @ CHR '' '' # rest) = (False, fmt_lx w @ CHR '' '' # rest)" using d by (simp add: f take_sign_def)
  have "hd (ds @ [CHR '' '']) \<noteq> CHR ''x'' \<and> hd (ds @ [CHR '' '']) \<noteq> CHR ''X''"
    using fmt_lx_char [of "hd ds" w] f by (cases ds) auto
  then have x: "take 2 (fmt_lx w @ CHR '' '' # rest) \<noteq> ''0x'' \<and> take 2 (fmt_lx w @ CHR '' '' # rest) \<noteq> ''0X''"
    by (cases ds) (auto simp: f)
  have tw: "takeWhile (\<lambda>c. digit_val c < 16) (fmt_lx w @ CHR '' '' # rest) = fmt_lx w"
    using fmt_lx_char digit_val_space by (subst takeWhile_append2) auto
  have "num_val 16 (fmt_lx w) < 2 ^ 64" using fmt_lx_facts(1) unsigned_less [of w, where ?'a = nat] by simp
  then show ?thesis using x fmt_lx_facts(2) unfolding scan_llx_def dw sg by (simp add: tw Let_def fmt_lx_facts(1))
qed

text \<open>What a record's digest field looks like, both when it was computed and when it was read.\<close>

definition rec_wf :: "ac_baseline_rec \<Rightarrow> bool" where
  "rec_wf r \<longleftrightarrow> br_hex r \<noteq> [] \<and> length (br_hex r) \<le> 64 \<and> (\<forall>c \<in> set (br_hex r). \<not> isspace c \<and> c \<noteq> CHR 0x00)"

lemma takeWhile_word: "\<forall>x \<in> set xs. \<not> isspace x \<Longrightarrow> isspace c \<Longrightarrow> takeWhile (\<lambda>c. \<not> isspace c) (xs @ c # ys) = xs"
  by (induction xs) auto

lemma print_rec_chars:
  assumes "rec_wf r"
  shows "\<exists>l. print_rec r = l @ [CHR 0x0A] \<and> CHR 0x0A \<notin> set l \<and> CHR 0x00 \<notin> set l \<and> length l < 510"
proof -
  have nosp: "CHR 0x0A \<notin> set (fmt_lx w)" "CHR 0x00 \<notin> set (fmt_lx w)" for w
    using fmt_lx_char [of "CHR 0x0A" w] fmt_lx_char [of "CHR 0x00" w] by (auto simp: isspace_def digit_val_def)
  let ?l = "fmt_lx (br_inode r) @ '' '' @ fmt_lx (br_offset r) @ '' '' @ fmt_lx (br_size r) @ '' '' @ br_hex r"
  have "CHR 0x0A \<notin> set (br_hex r)" using assms isspace_newline by (auto simp: rec_wf_def)
  moreover have "CHR 0x00 \<notin> set (br_hex r)" using assms by (auto simp: rec_wf_def)
  moreover have "length ?l < 510"
    using fmt_lx_facts(4) [of "br_inode r"] fmt_lx_facts(4) [of "br_offset r"] fmt_lx_facts(4) [of "br_size r"] assms by (simp add: rec_wf_def)
  ultimately show ?thesis using nosp by (intro exI [of _ ?l]) (simp add: print_rec_def)
qed

lemma parse_print:
  assumes "rec_wf r"
  shows "parse_rec (c_line (print_rec r)) = Some r"
proof -
  obtain l where l: "print_rec r = l @ [CHR 0x0A]" "CHR 0x00 \<notin> set l" using print_rec_chars [OF assms] by blast
  then have c: "c_line (print_rec r) = print_rec r" by (auto simp: c_line_def takeWhile_eq_all_conv)
  have w: "scan_word 64 (CHR '' '' # br_hex r @ [CHR 0x0A]) = Some (br_hex r, [CHR 0x0A])"
  proof -
    have "dropWhile isspace (CHR '' '' # br_hex r @ [CHR 0x0A]) = br_hex r @ [CHR 0x0A]"
      using assms isspace_space by (cases "br_hex r") (auto simp: rec_wf_def)
    moreover have "takeWhile (\<lambda>c. \<not> isspace c) (br_hex r @ [CHR 0x0A]) = br_hex r"
      using assms isspace_newline by (intro takeWhile_word) (auto simp: rec_wf_def)
    ultimately show ?thesis using assms by (simp add: scan_word_def rec_wf_def Let_def)
  qed
  show ?thesis unfolding c unfolding parse_rec_def print_rec_def
    using scan_llx_fmt [of "[]"] scan_llx_fmt [of "[CHR '' '']"] isspace_space w by simp
qed

lemma take_sign_set: "take_sign s = (neg, t) \<Longrightarrow> set t \<subseteq> set s"
  by (auto simp: take_sign_def split: list.splits if_splits)

lemma scan_llx_set: "scan_llx s = Some (x, t) \<Longrightarrow> set t \<subseteq> set s"
proof -
  assume a: "scan_llx s = Some (x, t)"
  obtain neg s1 where t: "take_sign (dropWhile isspace s) = (neg, s1)" by fastforce
  have "\<exists>n. t = drop n s1 \<or> t = drop n (drop 2 s1)"
    using a unfolding scan_llx_def t by (auto simp only: prod.case Let_def split: if_splits)
  then have "set t \<subseteq> set s1" using set_drop_subset by (metis drop_drop)
  also have "\<dots> \<subseteq> set (dropWhile isspace s)" by (rule take_sign_set [OF t])
  also have "\<dots> \<subseteq> set s" by (auto dest: set_dropWhileD)
  finally show ?thesis .
qed

lemma parsed_wf: "parse_rec (c_line l) = Some r \<Longrightarrow> rec_wf r"
proof -
  assume "parse_rec (c_line l) = Some r"
  then obtain i s1 o' s2 z s3 h s4 where p: "scan_llx (c_line l) = Some (i, s1)" "scan_llx s1 = Some (o', s2)" "scan_llx s2 = Some (z, s3)"
    "scan_word 64 s3 = Some (h, s4)" "br_hex r = h" by (auto simp: parse_rec_def bind_eq_Some_conv)
  have "CHR 0x00 \<notin> set (c_line l)" by (auto simp: c_line_def dest: set_takeWhileD)
  then have "CHR 0x00 \<notin> set s3" using scan_llx_set p(1-3) by blast
  moreover have "h \<noteq> []" "h = take 64 (takeWhile (\<lambda>c. \<not> isspace c) (dropWhile isspace s3))"
    using p(4) by (auto simp: scan_word_def Let_def split: if_splits)
  ultimately show ?thesis using p(5) by (auto simp: rec_wf_def dest!: in_set_takeD set_takeWhileD dest: set_dropWhileD)
qed

lemma fgets_line:
  "CHR 0x0A \<notin> set l \<Longrightarrow> length l < n \<Longrightarrow> fgets n (l @ CHR 0x0A # s) = (l @ [CHR 0x0A], s)"
proof (induction l arbitrary: n)
  case Nil
  then show ?case by (cases n) auto
next
  case (Cons a l)
  then show ?case by (cases n) auto
qed

lemma fgets_lines_print: "\<forall>r \<in> set rs. rec_wf r \<Longrightarrow> fgets_lines 510 (concat (map print_rec rs)) = map print_rec rs"
proof (induction rs)
  case Nil
  show ?case by (subst fgets_lines.simps) simp
next
  case (Cons r rs)
  obtain l where l: "print_rec r = l @ [CHR 0x0A]" "CHR 0x0A \<notin> set l" "length l < 510" using print_rec_chars Cons.prems by (meson list.set_intros(1))
  then have "fgets (Suc 510) (print_rec r @ concat (map print_rec rs)) = (print_rec r, concat (map print_rec rs))"
    using fgets_line [of l "Suc 510"] by simp
  with Cons l(1) show ?case by (subst fgets_lines.simps) simp
qed

lemma load_loop_print:
  "\<forall>r \<in> set rs. rec_wf r \<Longrightarrow> length acc + length rs \<le> AC_BASELINE_MAX_RECORDS \<Longrightarrow> load_loop (map print_rec rs) acc leg = (acc @ rs, leg)"
  by (induction rs arbitrary: acc) (auto simp: parse_print)

lemma load_print: "\<forall>r \<in> set rs. rec_wf r \<Longrightarrow> length rs \<le> AC_BASELINE_MAX_RECORDS \<Longrightarrow> baseline_load_records (Some (concat (map print_rec rs))) = (rs, False)"
  using load_loop_print [of rs "[]" False] by (simp add: baseline_load_records_def fgets_lines_print)

lemma load_loop_wf:
  "load_loop ls acc leg = (rs, leg') \<Longrightarrow> length acc \<le> AC_BASELINE_MAX_RECORDS \<Longrightarrow> \<forall>r \<in> set acc. rec_wf r \<Longrightarrow>
     length rs \<le> AC_BASELINE_MAX_RECORDS \<and> (\<forall>r \<in> set rs. rec_wf r)"
proof (induction ls arbitrary: acc leg)
  case (Cons l ls)
  show ?case
  proof (cases "parse_rec (c_line l)")
    case None
    with Cons.prems Cons.IH [of acc] show ?thesis by (auto split: if_splits)
  next
    case (Some r)
    with Cons.prems Cons.IH [of "acc @ [r]"] parsed_wf [OF Some] show ?thesis by (auto split: if_splits)
  qed
qed simp

lemma load_wf: "length (fst (baseline_load_records f)) \<le> AC_BASELINE_MAX_RECORDS \<and> (\<forall>r \<in> set (fst (baseline_load_records f)). rec_wf r)"
  using load_loop_wf [of _ "[]" False] by (cases "load_loop (fgets_lines 510 (the f)) [] False") (auto simp: baseline_load_records_def split: option.split)

text \<open>Every file operation of the save succeeds.\<close>

definition save_works :: save_env where
  "save_works = \<lparr>sv_symlink = False, sv_lock_name = True, sv_lock = True, sv_flock = True, sv_tmp_name = True,
     sv_mkstemp = True, sv_fdopen = True, sv_written = True, sv_rename = True\<rparr>"

text \<open>C21: Saving a record and loading the file again gives the records of every other segment, in their order, and the
  new one; no legacy line remains.  A save that fails leaves the file as it was, and a save is refused as full
  only when 256 other segments are recorded; when there is room and every file operation works, it succeeds.\<close>

theorem baseline_save_load:
  assumes "rec_wf new" and "baseline_save_record sv new f = (ret, f')"
  shows "(if ret = 0 then baseline_load_records f' = (filter (\<lambda>r. \<not> same_segment r new) (fst (baseline_load_records f)) @ [new], False) else f' = f) \<and>
    (ret = AC_BASELINE_SAVE_FULL \<longrightarrow> length (filter (\<lambda>r. \<not> same_segment r new) (fst (baseline_load_records f))) = AC_BASELINE_MAX_RECORDS) \<and>
    (sv = save_works \<and> length (filter (\<lambda>r. \<not> same_segment r new) (fst (baseline_load_records f))) \<noteq> AC_BASELINE_MAX_RECORDS \<longrightarrow> ret = 0)"
proof -
  let ?k = "filter (\<lambda>r. \<not> same_segment r new) (fst (baseline_load_records f))"
  have k: "\<forall>r \<in> set (?k @ [new]). rec_wf r" "length ?k \<le> AC_BASELINE_MAX_RECORDS"
    using load_wf [of f] assms(1) by (auto intro: order.trans [OF length_filter_le])
  have reload: "length ?k \<noteq> AC_BASELINE_MAX_RECORDS \<Longrightarrow> baseline_load_records (Some (concat (map print_rec (?k @ [new])))) = (?k @ [new], False)"
    using k by (intro load_print) auto
  show ?thesis using assms(2) reload unfolding baseline_save_record_def Let_def
    by (auto simp: AC_BASELINE_SAVE_FULL_def save_works_def split: if_splits)
qed

theorem baseline_save_load_witness:
  "baseline_load_records (snd (baseline_save_record save_works \<lparr>br_inode = 7, br_offset = 0x1000, br_size = 0x2000, br_hex = ''ab''\<rparr> None)) =
     ([\<lparr>br_inode = 7, br_offset = 0x1000, br_size = 0x2000, br_hex = ''ab''\<rparr>], False)"
proof -
  let ?n = "\<lparr>br_inode = 7, br_offset = 0x1000, br_size = 0x2000, br_hex = ''ab''\<rparr> :: ac_baseline_rec"
  have wf: "rec_wf ?n" by (simp add: rec_wf_def isspace_def)
  obtain ret f' where s: "baseline_save_record save_works ?n None = (ret, f')" by fastforce
  from baseline_save_load [OF wf s] s show ?thesis
    by (auto simp: baseline_load_records_def [of None] AC_BASELINE_MAX_RECORDS_def split: if_splits)
qed

end
