(* ===== verification/AC_Report.thy ===== *)
theory AC_Report
  imports AC_Cstring
begin

text \<open>
  The reporting side of \<^verbatim>\<open>src/src/anticheat_daemon.c\<close>: which log lines are reported, the escaping of text into JSON, the
  client identifier, the parsing of \<^verbatim>\<open>AC_REPORT_URL\<close>, the HTTP request and its status line, and the children that
  resolve host names.
\<close>

abbreviation CR :: char where "CR \<equiv> CHR 0x0D"
abbreviation LF :: char where "LF \<equiv> CHR 0x0A"
abbreviation DQ :: char where "DQ \<equiv> CHR 0x22"
abbreviation BS :: char where "BS \<equiv> CHR 0x5C"

subsection \<open>Log lines\<close>

definition LOG_ALERT :: nat where "LOG_ALERT = 1"
definition LOG_CRIT :: nat where "LOG_CRIT = 2"
definition LOG_WARNING :: nat where "LOG_WARNING = 4"
definition LOG_INFO :: nat where "LOG_INFO = 6"

lemmas log_defs = LOG_ALERT_def LOG_CRIT_def LOG_WARNING_def LOG_INFO_def

text \<open>\<^verbatim>\<open>logmsg\<close>: the line that is logged, and the report that it triggers.\<close>

definition logmsg :: "nat \<Rightarrow> string \<Rightarrow> string \<times> (string \<times> string) option" where
  "logmsg pri msg =
     (let buf = take 511 msg
      in (buf, if pri \<le> LOG_CRIT then Some (if pri \<le> LOG_ALERT then ''ALERT'' else ''CRITICAL'', buf) else None))"

subsection \<open>JSON\<close>

definition esc_char :: "char \<Rightarrow> string" where
  "esc_char c =
     (if c = DQ then [BS, DQ]
      else if c = BS then [BS, BS]
      else if c = LF then [BS, CHR ''n'']
      else if c = CR then [BS, CHR ''r'']
      else if c = CHR 0x09 then [BS, CHR ''t'']
      else let n = of_char c :: nat
           in if n < 0x20 then [BS, CHR ''u'', CHR ''0'', CHR ''0'', digit_char (n div 16), digit_char (n mod 16)]
              else [c])"

fun escape_loop :: "nat \<Rightarrow> string \<Rightarrow> string \<Rightarrow> string" where
  "escape_loop outsz out [] = out"
| "escape_loop outsz out (c # cs) = (if length out + 7 < outsz then escape_loop outsz (out @ esc_char c) cs else out)"

text \<open>\<open>None\<close>: nothing is written.\<close>

definition ac_json_escape :: "nat \<Rightarrow> string \<Rightarrow> string option" where
  "ac_json_escape outsz s = (if outsz = 0 then None else Some (escape_loop outsz [] s))"

subsection \<open>Client identifier\<close>

definition id_char :: "char \<Rightarrow> bool" where
  "id_char c \<longleftrightarrow>
     (let n = of_char c :: nat
      in 65 \<le> n \<and> n \<le> 90 \<or> 97 \<le> n \<and> n \<le> 122 \<or> 48 \<le> n \<and> n \<le> 57 \<or> c = CHR ''.'' \<or> c = CHR ''_'' \<or> c = CHR ''-'')"

definition rstrip_nl :: "string \<Rightarrow> string" where
  "rstrip_nl s = rev (dropWhile (\<lambda>c. c = LF \<or> c = CR) (rev s))"

text \<open>
  \<open>machine_id\<close> is the content of \<^verbatim>\<open>/etc/machine-id\<close>, \<open>None\<close> when it cannot be opened; \<open>host\<close> the host name, \<open>None\<close> when
  \<^verbatim>\<open>gethostname\<close> fails.
\<close>

definition ac_report_client_id :: "nat \<Rightarrow> string option \<Rightarrow> string option \<Rightarrow> string" where
  "ac_report_client_id outsz machine_id host =
     (let mid = (case machine_id of
                   None \<Rightarrow> []
                 | Some f \<Rightarrow> rstrip_nl (takeWhile (\<lambda>c. c \<noteq> CHR 0x00) (fst (fgets (outsz - 1) f))));
          hid = (case host of
                   None \<Rightarrow> []
                 | Some h \<Rightarrow> map (\<lambda>c. if id_char c then c else CHR ''_'') (take (outsz - 1) h))
      in if mid \<noteq> [] then mid else if hid \<noteq> [] then hid else take (outsz - 1) ''unknown'')"

subsection \<open>Status line\<close>

text \<open>Reading a C string at an index: the terminator is NUL.\<close>

definition c_at :: "string \<Rightarrow> nat \<Rightarrow> char" where
  "c_at s i = (if i < length s then s ! i else CHR 0x00)"

definition isdigit :: "char \<Rightarrow> bool" where
  "isdigit c \<longleftrightarrow> (let n = of_char c :: nat in 48 \<le> n \<and> n \<le> 57)"

definition ac_http_status_code :: "string \<Rightarrow> int" where
  "ac_http_status_code resp =
     (if take 7 resp \<noteq> ''HTTP/1.'' then - 1
      else if \<not> isdigit (c_at resp 7) then - 1
      else if c_at resp 8 \<noteq> CHR '' '' then - 1
      else if \<not> isdigit (c_at resp 9) \<or> \<not> isdigit (c_at resp 10) \<or> \<not> isdigit (c_at resp 11) then - 1
      else if c_at resp 12 \<noteq> CHR '' '' \<and> c_at resp 12 \<noteq> CR \<and> c_at resp 12 \<noteq> LF \<and> c_at resp 12 \<noteq> CHR 0x00 then - 1
      else (of_char (c_at resp 9) - 48) * 100 + (of_char (c_at resp 10) - 48) * 10 + (of_char (c_at resp 11) - 48))"

subsection \<open>AC_REPORT_URL\<close>

record ac_report_dest =
  rd_is_unix :: bool
  rd_host :: string
  rd_port :: string
  rd_sock_path :: string

definition SUN_PATH :: nat where "SUN_PATH = 108"

definition ac_header_value_safe :: "string option \<Rightarrow> bool" where
  "ac_header_value_safe s = (case s of None \<Rightarrow> False | Some t \<Rightarrow> CR \<notin> set t \<and> LF \<notin> set t)"

datatype url_error =
    Url_no_path | Url_path_long | Url_no_bracket | Url_no_colon | Url_empty_host | Url_host_crlf
  | Url_no_port | Url_port_long | Url_host_long | Url_port_syntax | Url_port_range

text \<open>Host and text after the colon, for a bracketed literal or up to the last colon.\<close>

definition url_split :: "string \<Rightarrow> url_error + string \<times> string" where
  "url_split url =
     (if c_at url 0 = CHR ''['' then
        (case strchr (CHR '']'') url of
           None \<Rightarrow> Inl Url_no_bracket
         | Some (pre, post) \<Rightarrow>
             if c_at post 0 \<noteq> CHR '':'' then Inl Url_no_colon
             else if tl pre = [] then Inl Url_empty_host
             else Inr (tl pre, tl post))
      else
        (case strrchr (CHR '':'') url of
           None \<Rightarrow> Inl Url_no_colon
         | Some (host, port) \<Rightarrow> if host = [] then Inl Url_empty_host else Inr (host, port)))"

definition url_port :: "string \<Rightarrow> string \<Rightarrow> url_error + string" where
  "url_port host port_str =
     (let port = takeWhile (\<lambda>c. c \<noteq> CHR ''/'') port_str
      in if port = [] then Inl Url_no_port
         else if length port \<ge> 32 then Inl Url_port_long
         else if length host \<ge> 256 then Inl Url_host_long
         else case strtoul port of (val, end) \<Rightarrow>
           if end = port \<or> end \<noteq> [] then Inl Url_port_syntax
           else if val = 0 \<or> val > 65535 then Inl Url_port_range
           else Inr port)"

text \<open>
  The set of destinations that were warned about: at most 8 keys, and it freezes when full.  The result says
  whether the warning is printed.
\<close>

definition https_warn :: "string \<Rightarrow> string list \<Rightarrow> string list \<times> bool" where
  "https_warn key warned =
     (if key \<in> set warned then (warned, False)
      else (if length warned < 8 then warned @ [key] else warned, True))"

definition ac_report_parse_url :: "string \<Rightarrow> string list \<Rightarrow> (url_error + ac_report_dest) \<times> string list \<times> bool" where
  "ac_report_parse_url url warned =
     (if take 7 url = ''unix://'' then
        (let path = drop 7 url
         in if path = [] then (Inl Url_no_path, warned, False)
            else if length path \<ge> SUN_PATH then (Inl Url_path_long, warned, False)
            else (Inr \<lparr>rd_is_unix = True, rd_host = ''localhost'', rd_port = [], rd_sock_path = path\<rparr>, warned, False))
      else
        (let is_https = (take 8 url = ''https://'');
             rest = (if take 7 url = ''http://'' then drop 7 url else if is_https then drop 8 url else url)
         in case url_split rest of
              Inl e \<Rightarrow> (Inl e, warned, False)
            | Inr (host, port_str) \<Rightarrow>
                if CR \<in> set host \<or> LF \<in> set host then (Inl Url_host_crlf, warned, False)
                else case url_port host port_str of
                  Inl e \<Rightarrow> (Inl e, warned, False)
                | Inr port \<Rightarrow>
                    (let dest = \<lparr>rd_is_unix = False, rd_host = host, rd_port = port, rd_sock_path = []\<rparr>
                     in if is_https then (case https_warn (take 287 (host @ '':'' @ port)) warned of (w, now) \<Rightarrow> (Inr dest, w, now))
                        else (Inr dest, warned, False))))"

subsection \<open>One report\<close>

definition report_body :: "string \<Rightarrow> string \<Rightarrow> string \<Rightarrow> int \<Rightarrow> string" where
  "report_body cid et detail ts =
     ''{'' @ [DQ] @ ''client_id'' @ [DQ] @ '':'' @ [DQ] @ cid @ [DQ] @ '','' @
     [DQ] @ ''event_type'' @ [DQ] @ '':'' @ [DQ] @ et @ [DQ] @ '','' @
     [DQ] @ ''detail'' @ [DQ] @ '':'' @ [DQ] @ detail @ [DQ] @ '','' @
     [DQ] @ ''ts'' @ [DQ] @ '':'' @ fmt_d ts @ ''}''"

definition report_request :: "string \<Rightarrow> string \<Rightarrow> string \<Rightarrow> string" where
  "report_request host key body =
     ''POST /report HTTP/1.1'' @ [CR, LF] @
     ''Host: '' @ host @ [CR, LF] @
     ''Authorization: Bearer '' @ key @ [CR, LF] @
     ''Content-Type: application/json'' @ [CR, LF] @
     ''Content-Length: '' @ fmt_u (length body) @ [CR, LF] @
     ''Connection: close'' @ [CR, LF] @ [CR, LF] @ body"

text \<open>
  The addresses are tried in order: \<open>sock\<close> is what \<^verbatim>\<open>socket\<close> returns for the address and \<open>conn\<close> whether \<^verbatim>\<open>ac_connect_timeout\<close>
  succeeds on that descriptor.  The result is the connected descriptor, or \<open>- 1\<close>, and the descriptors left open.
\<close>

fun connect_loop :: "('a \<Rightarrow> int) \<Rightarrow> (int \<Rightarrow> bool) \<Rightarrow> 'a list \<Rightarrow> int list \<Rightarrow> int \<times> int list" where
  "connect_loop sock conn [] fds = (- 1, fds)"
| "connect_loop sock conn (a # as) fds =
     (let fd = sock a
      in if fd < 0 then connect_loop sock conn as fds
         else if conn fd then (fd, fd # fds)
         else connect_loop sock conn as (remove1 fd (fd # fds)))"

text \<open>The write loop: \<open>wr\<close> is what \<^verbatim>\<open>write\<close> returns for the text that is left.  \<open>None\<close>: it failed.\<close>

function send_loop :: "(string \<Rightarrow> int) \<Rightarrow> string \<Rightarrow> nat \<Rightarrow> nat option" where
  "send_loop wr req sent =
     (if sent < length req then
        (let w = wr (drop sent req)
         in if w < 0 then None else if w = 0 then Some sent else send_loop wr req (sent + nat w))
      else Some sent)"
  by pat_completeness auto
termination
  by (relation "measure (\<lambda>(wr, req, sent). length req - sent)") auto

declare send_loop.simps [simp del]

text \<open>What the report meets: environment variables, files, clock, network and peer.\<close>

record 'a report_env =
  re_url :: "string option"
  re_key :: "string option"
  re_machine_id :: "string option"
  re_hostname :: "string option"
  re_time :: int
  re_unix_fd :: int
  re_unix_conn :: bool
  re_addrs :: "string \<Rightarrow> string \<Rightarrow> 'a list"
  re_sock :: "'a \<Rightarrow> int"
  re_conn :: "int \<Rightarrow> bool"
  re_write :: "string \<Rightarrow> int"
  re_read :: "string option"

datatype report_result =
    Rp_unconfigured | Rp_bad_url url_error | Rp_unsafe | Rp_body_long | Rp_unconnected | Rp_request_long
  | Rp_send_failed | Rp_short_write | Rp_status int

definition AC_RESOLVE_MAX :: nat where "AC_RESOLVE_MAX = 8"

definition report_json :: "'a report_env \<Rightarrow> string \<Rightarrow> string \<Rightarrow> string" where
  "report_json ev event_type detail =
     report_body (the (ac_json_escape 256 (ac_report_client_id 128 (re_machine_id ev) (re_hostname ev))))
       (the (ac_json_escape 64 event_type)) (the (ac_json_escape 600 detail)) (re_time ev)"

definition report_connect :: "'a report_env \<Rightarrow> ac_report_dest \<Rightarrow> int \<times> int list" where
  "report_connect ev dest =
     (if rd_is_unix dest then
        (let fd = re_unix_fd ev
         in if fd < 0 then (- 1, [])
            else if re_unix_conn ev then (fd, [fd])
            else (- 1, remove1 fd [fd]))
      else connect_loop (re_sock ev) (re_conn ev) (take AC_RESOLVE_MAX (re_addrs ev (rd_host dest) (rd_port dest))) [])"

definition report_status :: "string option \<Rightarrow> int" where
  "report_status resp =
     (case resp of
        None \<Rightarrow> - 1
      | Some r \<Rightarrow> if r = [] then - 1 else ac_http_status_code (takeWhile (\<lambda>c. c \<noteq> CHR 0x00) (take 63 r)))"

text \<open>
  From the connection on: how it ended, the descriptor and the request that it wrote or tried to write (\<open>None\<close>: nothing is
  sent), and the descriptors still open.
\<close>

definition report_send ::
  "'a report_env \<Rightarrow> ac_report_dest \<Rightarrow> string \<Rightarrow> string \<Rightarrow> report_result \<times> (int \<times> string) option \<times> int list" where
  "report_send ev dest key body =
     (case report_connect ev dest of (fd, fds) \<Rightarrow>
        if fd < 0 then (Rp_unconnected, None, fds)
        else
          (let req = report_request (rd_host dest) key body; left = remove1 fd fds
           in if length req \<ge> 2048 then (Rp_request_long, None, left)
              else case send_loop (re_write ev) req 0 of
                None \<Rightarrow> (Rp_send_failed, Some (fd, req), left)
              | Some sent \<Rightarrow>
                  if sent \<noteq> length req then (Rp_short_write, Some (fd, req), left)
                  else (Rp_status (report_status (re_read ev)), Some (fd, req), left)))"

text \<open>The last component is the set of destinations warned about.\<close>

definition ac_report ::
  "'a report_env \<Rightarrow> string \<Rightarrow> string \<Rightarrow> string list \<Rightarrow> (report_result \<times> (int \<times> string) option \<times> int list) \<times> string list" where
  "ac_report ev event_type detail warned =
     (case (re_url ev, re_key ev) of
        (Some url, Some key) \<Rightarrow>
          if url = [] \<or> key = [] then ((Rp_unconfigured, None, []), warned)
          else (case ac_report_parse_url url warned of
            (Inl e, w, _) \<Rightarrow> ((Rp_bad_url e, None, []), w)
          | (Inr dest, w, _) \<Rightarrow>
              if \<not> ac_header_value_safe (Some (rd_host dest)) \<or> \<not> ac_header_value_safe (Some key) then ((Rp_unsafe, None, []), w)
              else
                (let body = report_json ev event_type detail
                 in if length body \<ge> 1024 then ((Rp_body_long, None, []), w) else (report_send ev dest key body, w)))
      | _ \<Rightarrow> ((Rp_unconfigured, None, []), warned))"

subsection \<open>Descriptors of the resolver child\<close>

text \<open>
  \<^verbatim>\<open>ac_close_extra_fds\<close> on the list of open descriptors.  \<open>cr a b\<close> says whether \<^verbatim>\<open>close_range(a, b, 0)\<close> succeeds, \<open>names\<close> are
  the entries of \<^verbatim>\<open>/proc/self/fd\<close> with the descriptor of that directory (\<open>None\<close>: it cannot be opened), and \<open>maxfd\<close> what
  \<^verbatim>\<open>sysconf\<close> returns.
\<close>

definition UINT_MAX :: int where "UINT_MAX = 2 ^ 32 - 1"

definition close_between :: "int \<Rightarrow> int \<Rightarrow> int list \<Rightarrow> int list" where
  "close_between a b fds = filter (\<lambda>fd. \<not> (a \<le> fd \<and> fd \<le> b)) fds"

definition listed_fds :: "int \<Rightarrow> int \<Rightarrow> string list \<Rightarrow> int list" where
  "listed_fds keep dir_fd names =
     map (\<lambda>n. fst (strtol n))
       (filter (\<lambda>n. c_at n 0 \<noteq> CHR ''.'' \<and> fst (snd (strtol n)) = [] \<and>
                    \<not> (fst (strtol n) \<le> 2 \<or> fst (strtol n) = keep \<or> fst (strtol n) = dir_fd)) names)"

definition ac_close_extra_fds :: "(int \<Rightarrow> int \<Rightarrow> bool) \<Rightarrow> (int \<times> string list) option \<Rightarrow> int \<Rightarrow> int \<Rightarrow> int list \<Rightarrow> int list" where
  "ac_close_extra_fds cr names maxfd keep fds =
     (let (fin, fds1) =
        (if keep \<le> 2 then (cr 3 UINT_MAX, if cr 3 UINT_MAX then close_between 3 UINT_MAX fds else fds)
         else
           (let r1 = (keep > 3 \<longrightarrow> cr 3 (keep - 1)); r2 = cr (keep + 1) UINT_MAX;
                f1 = (if keep > 3 \<and> r1 then close_between 3 (keep - 1) fds else fds)
            in (r1 \<and> r2, if r2 then close_between (keep + 1) UINT_MAX f1 else f1)))
      in if fin then fds1
         else case names of
           Some (dir_fd, ns) \<Rightarrow> filter (\<lambda>fd. fd \<notin> set (listed_fds keep dir_fd ns)) fds1
         | None \<Rightarrow>
             (let m = (if maxfd < 0 then 1024 else maxfd)
              in filter (\<lambda>fd. \<not> (3 \<le> fd \<and> fd < m \<and> fd \<noteq> keep)) fds1))"

subsection \<open>Children that resolve host names\<close>

definition AC_MAX_STALE_RESOLVERS :: nat where "AC_MAX_STALE_RESOLVERS = 8"

text \<open>What \<^verbatim>\<open>waitpid(pid, NULL, WNOHANG)\<close> does.\<close>

datatype wait_result = W_reaped | W_running | W_eintr | W_echild | W_error

text \<open>The table, and the children that have not been reaped.\<close>

record resolvers =
  rs_stale :: "pid_t list"
  rs_children :: "pid_t set"

definition reap_stale_resolvers :: "(pid_t \<Rightarrow> wait_result) \<Rightarrow> resolvers \<Rightarrow> resolvers" where
  "reap_stale_resolvers w s =
     \<lparr>rs_stale = map (\<lambda>p. if p > 0 \<and> (w p = W_reaped \<or> w p = W_echild) then 0 else p) (rs_stale s),
      rs_children = rs_children s - {p. p \<in> set (rs_stale s) \<and> p > 0 \<and> w p = W_reaped}\<rparr>"

definition stale_resolver_slot_free :: "resolvers \<Rightarrow> bool" where
  "stale_resolver_slot_free s \<longleftrightarrow> 0 \<in> set (rs_stale s)"

fun fill_slot :: "pid_t \<Rightarrow> pid_t list \<Rightarrow> pid_t list" where
  "fill_slot pid [] = []"
| "fill_slot pid (p # ps) = (if p = 0 then pid # ps else p # fill_slot pid ps)"

definition abandon_resolver_child :: "(pid_t \<Rightarrow> wait_result) \<Rightarrow> pid_t \<Rightarrow> resolvers \<Rightarrow> resolvers" where
  "abandon_resolver_child w pid s =
     (let s1 = reap_stale_resolvers w s in s1\<lparr>rs_stale := fill_slot pid (rs_stale s1)\<rparr>)"

text \<open>\<^verbatim>\<open>waitpid_timeout\<close>: \<open>w n\<close> and \<open>el n\<close> are what the poll \<open>n\<close> returns and the milliseconds that have elapsed then.\<close>

datatype wait_end = End_reaped | End_error | End_timeout

partial_function (option) waitpid_timeout :: "(nat \<Rightarrow> wait_result) \<Rightarrow> (nat \<Rightarrow> int) \<Rightarrow> int \<Rightarrow> nat \<Rightarrow> wait_end option" where
  "waitpid_timeout w el timeout_ms n =
     (if w n = W_reaped then Some End_reaped
      else if w n = W_echild \<or> w n = W_error then Some End_error
      else if el n \<ge> timeout_ms then Some End_timeout
      else waitpid_timeout w el timeout_ms (n + 1))"

text \<open>
  The process side of \<^verbatim>\<open>ac_resolve_timeout\<close>: \<open>w1\<close> answers the sweep before the fork, \<open>pid\<close> is what \<^verbatim>\<open>fork\<close> returns, \<open>fin\<close> how
  the bounded wait for the killed child ended, \<open>w2\<close> answers the sweep of \<^verbatim>\<open>abandon_resolver_child\<close>.
\<close>

definition resolve_children ::
  "(pid_t \<Rightarrow> wait_result) \<Rightarrow> bool \<Rightarrow> pid_t \<Rightarrow> wait_end \<Rightarrow> (pid_t \<Rightarrow> wait_result) \<Rightarrow> resolvers \<Rightarrow> bool \<times> resolvers" where
  "resolve_children w1 pipe_ok pid fin w2 s =
     (let s1 = reap_stale_resolvers w1 s
      in if \<not> stale_resolver_slot_free s1 then (False, s1)
         else if \<not> pipe_ok \<or> pid < 0 then (False, s1)
         else
           (let s2 = s1\<lparr>rs_children := insert pid (rs_children s1)\<rparr>
            in (True, case fin of
                        End_reaped \<Rightarrow> s2\<lparr>rs_children := rs_children s2 - {pid}\<rparr>
                      | End_error \<Rightarrow> s2
                      | End_timeout \<Rightarrow> abandon_resolver_child w2 pid s2)))"

subsection \<open>A reader of JSON strings\<close>

text \<open>One character of a string literal, and the characters up to the closing quote (RFC 8259, byte by byte).\<close>

definition json_char :: "string \<Rightarrow> (char \<times> string) option" where
  "json_char s =
     (case s of
        [] \<Rightarrow> None
      | c # r \<Rightarrow>
          if c = DQ \<or> (of_char c :: nat) < 0x20 then None
          else if c \<noteq> BS then Some (c, r)
          else (case r of
                  e # r1 \<Rightarrow>
                    if e = DQ \<or> e = BS \<or> e = CHR ''/'' then Some (e, r1)
                    else if e = CHR ''n'' then Some (LF, r1)
                    else if e = CHR ''r'' then Some (CR, r1)
                    else if e = CHR ''t'' then Some (CHR 0x09, r1)
                    else if e = CHR ''b'' then Some (CHR 0x08, r1)
                    else if e = CHR ''f'' then Some (CHR 0x0C, r1)
                    else if e = CHR ''u'' \<and> length r1 \<ge> 4 \<and> (\<forall>d \<in> set (take 4 r1). digit_val d < 16) \<and> num_val 16 (take 4 r1) < 256
                    then Some (char_of (num_val 16 (take 4 r1)), drop 4 r1)
                    else None
                | [] \<Rightarrow> None))"

lemma json_char_shorter: "json_char s = Some (c, r) \<Longrightarrow> length r < length s"
  by (auto simp: json_char_def split: list.splits if_splits)

function json_string :: "string \<Rightarrow> (string \<times> string) option" where
  "json_string s =
     (if s \<noteq> [] \<and> hd s = DQ then Some ([], tl s)
      else (case json_char s of
              None \<Rightarrow> None
            | Some (c, r) \<Rightarrow> map_option (apfst ((#) c)) (json_string r)))"
  by pat_completeness auto
termination
  by (relation "measure length") (auto dest: json_char_shorter)

declare json_string.simps [simp del]

lemma json_char_esc: "json_char (esc_char c @ s) = Some (c, s) \<and> hd (esc_char c @ s) \<noteq> DQ \<and> esc_char c \<noteq> []"
proof (cases "c \<in> {DQ, BS, LF, CR, CHR 0x09}")
  case True
  then show ?thesis by (auto simp: esc_char_def json_char_def)
next
  case False
  define n :: nat where "n = of_char c"
  show ?thesis
  proof (cases "n < 32")
    case True
    then have d: "n div 16 < 16" "n mod 16 < 16" by auto
    have z: "digit_val (CHR ''0'') = 0" by (simp add: digit_val_def)
    have v: "num_val 16 [CHR ''0'', CHR ''0'', digit_char (n div 16), digit_char (n mod 16)] = n"
      using d z by (simp add: num_val_def digit_val_char)
    have "char_of n = c" by (simp add: n_def)
    then show ?thesis using False True d v
      by (simp add: esc_char_def json_char_def Let_def n_def [symmetric] digit_val_char z)
  next
    case False
    then show ?thesis using \<open>c \<notin> _\<close> by (auto simp: esc_char_def json_char_def Let_def n_def)
  qed
qed

lemma json_string_esc: "json_string (esc_char c @ s) = map_option (apfst ((#) c)) (json_string s)"
  using json_char_esc [of c s] by (subst json_string.simps) auto

lemma json_string_escaped: "json_string (concat (map esc_char p) @ DQ # rest) = Some (p, rest)"
proof (induction p)
  case Nil
  show ?case by (subst json_string.simps) simp
qed (simp add: json_string_esc)

text \<open>What the loop writes is the escaped form of a prefix, and it fits with its terminator.\<close>

lemma length_esc_char: "length (esc_char c) \<le> 6"
  by (simp add: esc_char_def Let_def)

lemma escape_loop_prefix:
  "length out < outsz \<Longrightarrow> \<exists>k. escape_loop outsz out s = out @ concat (map esc_char (take k s)) \<and> length (escape_loop outsz out s) < outsz \<and>
     (k < length s \<longrightarrow> outsz \<le> length (escape_loop outsz out s) + 7)"
proof (induction s arbitrary: out)
  case (Cons c s)
  show ?case
  proof (cases "length out + 7 < outsz")
    case True
    then have "length (out @ esc_char c) < outsz" using length_esc_char [of c] by simp
    from Cons.IH [OF this] obtain k where
      "escape_loop outsz (out @ esc_char c) s = (out @ esc_char c) @ concat (map esc_char (take k s))"
      "length (escape_loop outsz (out @ esc_char c) s) < outsz" "k < length s \<longrightarrow> outsz \<le> length (escape_loop outsz (out @ esc_char c) s) + 7" by blast
    then show ?thesis using True by (intro exI [of _ "Suc k"]) auto
  next
    case False
    then show ?thesis using Cons.prems by (intro exI [of _ 0]) simp
  qed
qed simp

text \<open>C35: Whatever bytes a log line contains, its escaped form fits the buffer with its terminator and reads back, as the inside of a
  JSON string literal, as a prefix of the line, ending exactly at the closing quote that follows it; the prefix
  is the whole line unless the buffer was filled to its last seven bytes.\<close>

theorem json_escape_roundtrip:
  assumes "0 < outsz"
  shows "\<exists>out k. ac_json_escape outsz s = Some out \<and> length out < outsz \<and> json_string (out @ DQ # rest) = Some (take k s, rest) \<and>
    (k < length s \<longrightarrow> outsz \<le> length out + 7)"
proof -
  obtain k where "escape_loop outsz [] s = concat (map esc_char (take k s))" "length (escape_loop outsz [] s) < outsz"
    "k < length s \<longrightarrow> outsz \<le> length (escape_loop outsz [] s) + 7" using escape_loop_prefix [of "[]" outsz s, unfolded append_Nil list.size(3), OF assms] by blast
  then show ?thesis using assms json_string_escaped [of "take k s" rest]
    by (intro exI [of _ "escape_loop outsz [] s"] exI [of _ k]) (simp add: ac_json_escape_def)
qed

theorem json_escape_roundtrip_witness:
  "\<exists>out k. ac_json_escape 64 [DQ, CR, CHR ''a'', BS] = Some out \<and> length out < 64 \<and> json_string (out @ DQ # ''}'') = Some (take k [DQ, CR, CHR ''a'', BS], ''}'') \<and>
    (k < 4 \<longrightarrow> 64 \<le> length out + 7)"
  using json_escape_roundtrip [of 64 "[DQ, CR, CHR ''a'', BS]" "''}''"] by (simp add: eval_nat_numeral)

subsection \<open>The report as its receiver reads it\<close>

lemma fmt_u_facts: "num_val 10 (fmt_u n) = n" "fmt_u n \<noteq> []"
    "c \<in> set (fmt_u n) \<Longrightarrow> digit_val c < 10 \<and> \<not> isspace c \<and> c \<noteq> CHR ''-'' \<and> c \<noteq> CHR ''+''"
proof -
  show "num_val 10 (fmt_u n) = n" "fmt_u n \<noteq> []" using digits_in_back [of 10 n] by (auto simp: fmt_u_def)
  assume "c \<in> set (fmt_u n)"
  then obtain d where "d < 10" "c = digit_char d" using digits_in_back [of 10 n] by (auto simp: fmt_u_def)
  then show "digit_val c < 10 \<and> \<not> isspace c \<and> c \<noteq> CHR ''-'' \<and> c \<noteq> CHR ''+''" by (simp add: digit_val_char digit_char_plain)
qed

lemma strto_digits:
  assumes "rest = [] \<or> \<not> digit_val (hd rest) < 10" and "take_sign (dropWhile isspace s) = (neg, fmt_u n @ rest)"
  shows "strto 10 s = Some (neg, n, rest)"
proof -
  have "takeWhile (\<lambda>c. digit_val c < 10) (fmt_u n @ rest) = fmt_u n @ takeWhile (\<lambda>c. digit_val c < 10) rest"
    using fmt_u_facts(3) by (intro takeWhile_append2) blast
  also have "takeWhile (\<lambda>c. digit_val c < 10) rest = []" using assms(1) by (cases rest) auto
  finally show ?thesis using assms(2) fmt_u_facts(1,2) by (simp add: strto_def Let_def)
qed

lemma strto_fmt_u:
  assumes "rest = [] \<or> \<not> digit_val (hd rest) < 10"
  shows "strto 10 (fmt_u n @ rest) = Some (False, n, rest)"
proof (rule strto_digits [OF assms])
  obtain c cs where c: "fmt_u n = c # cs" using fmt_u_facts(2) by (cases "fmt_u n") auto
  then show "take_sign (dropWhile isspace (fmt_u n @ rest)) = (False, fmt_u n @ rest)"
    using fmt_u_facts(3) [of c n] by (simp add: take_sign_def)
qed

lemma strtol_fmt_d:
  assumes "rest = [] \<or> \<not> digit_val (hd rest) < 10" and "- LONG_MAX \<le> i" and "i \<le> LONG_MAX"
  shows "strtol (fmt_d i @ rest) = (i, rest, False)"
proof (cases "i < 0")
  case True
  have "strto 10 (fmt_d i @ rest) = Some (True, nat (- i), rest)"
    using True by (intro strto_digits [OF assms(1)]) (simp add: fmt_d_def take_sign_def isspace_def)
  then show ?thesis using True assms by (simp add: strtol_def Let_def LONG_MAX_def)
next
  case False
  then show ?thesis using strto_fmt_u [OF assms(1), of "nat i"] assms by (simp add: fmt_d_def strtol_def Let_def LONG_MAX_def)
qed

text \<open>The reader of the report's object: its four members in order, strings by \<open>json_string\<close>.\<close>

definition lit :: "string \<Rightarrow> string \<Rightarrow> string option" where
  "lit p s = (if take (length p) s = p then Some (drop (length p) s) else None)"

lemma lit_append [simp]: "lit p (p @ s) = Some s"
  by (simp add: lit_def)

definition json_report :: "string \<Rightarrow> (string \<times> string \<times> string \<times> int) option" where
  "json_report s =
     Option.bind (lit (''{'' @ [DQ] @ ''client_id'' @ [DQ] @ '':'' @ [DQ]) s) (\<lambda>s.
     Option.bind (json_string s) (\<lambda>(cid, s).
     Option.bind (lit ('','' @ [DQ] @ ''event_type'' @ [DQ] @ '':'' @ [DQ]) s) (\<lambda>s.
     Option.bind (json_string s) (\<lambda>(et, s).
     Option.bind (lit ('','' @ [DQ] @ ''detail'' @ [DQ] @ '':'' @ [DQ]) s) (\<lambda>s.
     Option.bind (json_string s) (\<lambda>(det, s).
     Option.bind (lit ('','' @ [DQ] @ ''ts'' @ [DQ] @ '':'') s) (\<lambda>s.
       case strtol s of (v, r, er) \<Rightarrow> if r = ''}'' \<and> \<not> er then Some (cid, et, det, v) else None)))))))"

definition escaped :: "string \<Rightarrow> string \<Rightarrow> bool" where
  "escaped out s \<longleftrightarrow> (\<forall>rest. json_string (out @ DQ # rest) = Some (s, rest))"

text \<open>How much of a field a buffer of \<open>outsz\<close> bytes takes: all of it, unless the escaped form of the prefix before some character
  leaves no room for the longest escape; then the prefix up to the first such character.\<close>

definition esc_len :: "string \<Rightarrow> nat" where
  "esc_len s = length (concat (map esc_char s))"

definition json_kept :: "nat \<Rightarrow> string \<Rightarrow> nat \<Rightarrow> bool" where
  "json_kept outsz s k \<longleftrightarrow>
     k \<le> length s \<and> (k < length s \<longrightarrow> outsz \<le> esc_len (take k s) + 7) \<and> (\<forall>m < k. esc_len (take m s) + 7 < outsz)"

lemma escape_loop_kept:
  "\<exists>k. escape_loop outsz out s = out @ concat (map esc_char (take k s)) \<and> k \<le> length s \<and>
     (k < length s \<longrightarrow> outsz \<le> length out + esc_len (take k s) + 7) \<and> (\<forall>m < k. length out + esc_len (take m s) + 7 < outsz)"
proof (induction s arbitrary: out)
  case (Cons c s)
  show ?case
  proof (cases "length out + 7 < outsz")
    case True
    from Cons.IH [of "out @ esc_char c"] obtain k where k: "escape_loop outsz (out @ esc_char c) s = (out @ esc_char c) @ concat (map esc_char (take k s))" "k \<le> length s"
      "k < length s \<longrightarrow> outsz \<le> length (out @ esc_char c) + esc_len (take k s) + 7"
      "\<forall>m < k. length (out @ esc_char c) + esc_len (take m s) + 7 < outsz" by blast
    have "length out + esc_len (take m (c # s)) + 7 < outsz" if "m < Suc k" for m
      using that True k(4) by (cases m) (auto simp: esc_len_def)
    then show ?thesis using True k(1-3) by (intro exI [of _ "Suc k"]) (auto simp: esc_len_def)
  next
    case False
    then show ?thesis by (intro exI [of _ 0]) (simp add: esc_len_def)
  qed
qed simp

lemma json_escape_escaped:
  assumes "0 < outsz"
  shows "\<exists>k. json_kept outsz s k \<and> escaped (the (ac_json_escape outsz s)) (take k s)"
proof -
  obtain k where "escape_loop outsz [] s = concat (map esc_char (take k s))" "json_kept outsz s k"
    using escape_loop_kept [of outsz "[]" s] by (auto simp: json_kept_def)
  then show ?thesis using assms json_string_escaped by (auto simp: escaped_def ac_json_escape_def)
qed

lemma json_report_body:
  assumes "escaped a cid" "escaped b et" "escaped c det" "- LONG_MAX \<le> ts" "ts \<le> LONG_MAX"
  shows "json_report (report_body a b c ts) = Some (cid, et, det, ts)"
proof -
  have t: "strtol (fmt_d ts @ ''}'') = (ts, ''}'', False)" using assms by (intro strtol_fmt_d) (simp_all add: digit_val_def)
  let ?l1 = "''{'' @ [DQ] @ ''client_id'' @ [DQ] @ '':'' @ [DQ]" and ?l2 = "'','' @ [DQ] @ ''event_type'' @ [DQ] @ '':'' @ [DQ]"
  let ?l3 = "'','' @ [DQ] @ ''detail'' @ [DQ] @ '':'' @ [DQ]" and ?l4 = "'','' @ [DQ] @ ''ts'' @ [DQ] @ '':''"
  have b: "report_body a b c ts = ?l1 @ (a @ DQ # (?l2 @ (b @ DQ # (?l3 @ (c @ DQ # (?l4 @ fmt_d ts @ ''}''))))))"
    by (simp add: report_body_def)
  have j: "json_string (a @ DQ # r) = Some (cid, r)" "json_string (b @ DQ # r) = Some (et, r)" "json_string (c @ DQ # r) = Some (det, r)" for r
    using assms(1-3) by (simp_all add: escaped_def)
  show ?thesis unfolding b json_report_def lit_append j Option.bind.simps prod.case t by simp
qed

text \<open>The most permissive reader of an HTTP message, for which a carriage return, a line feed or both end a line: the lines up to
  the empty one, and what follows.\<close>

fun head_line :: "string \<Rightarrow> (string \<times> string) option" where
  "head_line [] = None"
| "head_line (c # s) =
     (if c = LF then Some ([], s)
      else if c = CR then Some ([], if s \<noteq> [] \<and> hd s = LF then tl s else s)
      else map_option (apfst ((#) c)) (head_line s))"

lemma head_line_shorter: "head_line s = Some (l, r) \<Longrightarrow> length r < length s"
  by (induction s arbitrary: l) (auto split: if_splits)

function http_head :: "string \<Rightarrow> (string list \<times> string) option" where
  "http_head s =
     (case head_line s of
        None \<Rightarrow> None
      | Some (l, r) \<Rightarrow> if l = [] then Some ([], r) else map_option (apfst ((#) l)) (http_head r))"
  by pat_completeness auto
termination
  by (relation "measure length") (auto dest: head_line_shorter)

declare http_head.simps [simp del]

text \<open>A text that cannot break a line.\<close>

definition one_line :: "string \<Rightarrow> bool" where
  "one_line s \<longleftrightarrow> CR \<notin> set s \<and> LF \<notin> set s"

lemma one_line_append: "one_line (a @ b) \<longleftrightarrow> one_line a \<and> one_line b"
  by (auto simp: one_line_def)

lemma head_line_append: "one_line l \<Longrightarrow> head_line (l @ CR # LF # r) = Some (l, r)"
  by (induction l) (auto simp: one_line_def)

lemma http_head_line: "one_line l \<Longrightarrow> l \<noteq> [] \<Longrightarrow> http_head (l @ CR # LF # r) = map_option (apfst ((#) l)) (http_head r)"
  by (subst http_head.simps) (simp add: head_line_append)

lemma http_head_end: "http_head (CR # LF # r) = Some ([], r)"
  by (subst http_head.simps) simp

lemma http_head_request:
  assumes "one_line host" "one_line key"
  shows "http_head (report_request host key body) =
    Some ([''POST /report HTTP/1.1'', ''Host: '' @ host, ''Authorization: Bearer '' @ key, ''Content-Type: application/json'',
           ''Content-Length: '' @ fmt_u (length body), ''Connection: close''], body)"
proof -
  have n: "one_line (fmt_u (length body))" using fmt_u_facts(3) [of CR "length body"] fmt_u_facts(3) [of LF "length body"] by (auto simp: one_line_def isspace_def)
  have r: "report_request host key body = ''POST /report HTTP/1.1'' @ CR # LF # (''Host: '' @ host) @ CR # LF # (''Authorization: Bearer '' @ key) @ CR # LF #
     ''Content-Type: application/json'' @ CR # LF # (''Content-Length: '' @ fmt_u (length body)) @ CR # LF # ''Connection: close'' @ CR # LF # CR # LF # body"
    by (simp add: report_request_def)
  have c: "one_line ''POST /report HTTP/1.1''" "one_line (''Host: '' @ host)" "one_line (''Authorization: Bearer '' @ key)"
    "one_line ''Content-Type: application/json''" "one_line (''Content-Length: '' @ fmt_u (length body))" "one_line ''Connection: close''"
    unfolding one_line_append using assms n by (simp_all add: one_line_def)
  note h = http_head_line [OF c(1)] http_head_line [OF c(2)] http_head_line [OF c(3)] http_head_line [OF c(4)] http_head_line [OF c(5)] http_head_line [OF c(6)]
  show ?thesis unfolding r by (simp only: h http_head_end append_is_Nil_conv list.distinct simp_thms option.map apfst_conv)
qed

lemma connect_loop_fds: "connect_loop sock conn as [] = (fd, fds) \<Longrightarrow> (fd < 0 \<longrightarrow> fds = []) \<and> remove1 fd fds = []"
  by (induction as) (auto simp: Let_def split: if_splits)

lemma report_connect_fds: "report_connect ev dest = (fd, fds) \<Longrightarrow> (fd < 0 \<longrightarrow> fds = []) \<and> remove1 fd fds = []"
  by (auto simp: report_connect_def Let_def split: if_splits dest: connect_loop_fds)

text \<open>What the receiver reads from the body, given the client identifier.\<close>

definition reads_report :: "string \<Rightarrow> string \<Rightarrow> string \<Rightarrow> int \<Rightarrow> string \<Rightarrow> bool" where
  "reads_report cid event_type detail ts body \<longleftrightarrow>
     (\<exists>i j k. json_kept 256 cid i \<and> json_kept 64 event_type j \<and> json_kept 600 detail k \<and>
        json_report body = Some (take i cid, take j event_type, take k detail, ts))"

lemma report_json_read:
  assumes "- LONG_MAX \<le> re_time ev" "re_time ev \<le> LONG_MAX"
  shows "reads_report (ac_report_client_id 128 (re_machine_id ev) (re_hostname ev)) event_type detail (re_time ev) (report_json ev event_type detail)"
proof -
  define cid where "cid = ac_report_client_id 128 (re_machine_id ev) (re_hostname ev)"
  obtain i j k where k: "json_kept 256 cid i" "json_kept 64 event_type j" "json_kept 600 detail k"
    and e: "escaped (the (ac_json_escape 256 cid)) (take i cid)" "escaped (the (ac_json_escape 64 event_type)) (take j event_type)"
      "escaped (the (ac_json_escape 600 detail)) (take k detail)"
    using json_escape_escaped [of 256] json_escape_escaped [of 64] json_escape_escaped [of 600] by (metis zero_less_numeral)
  from json_report_body [OF e assms] k show ?thesis unfolding reads_report_def report_json_def cid_def [symmetric] by blast
qed

lemma report_send_sent:
  assumes "report_send ev dest key body = (res, sent, fds)"
  shows "fds = []" "res \<noteq> Rp_body_long" "sent = Some (fd, req) \<Longrightarrow> req = report_request (rd_host dest) key body \<and> length req < 2048"
    "res = Rp_status n \<Longrightarrow> \<exists>fd req. sent = Some (fd, req) \<and> send_loop (re_write ev) req 0 = Some (length req)"
proof -
  obtain c l where c: "report_connect ev dest = (c, l)" by fastforce
  define q where "q = report_request (rd_host dest) key body"
  note d = assms [unfolded report_send_def c Let_def prod.case, folded q_def]
  show "fds = []" using d report_connect_fds [OF c] by (auto split: if_splits option.splits)
  show "res \<noteq> Rp_body_long" using d by (auto split: if_splits option.splits)
  show "sent = Some (fd, req) \<Longrightarrow> req = report_request (rd_host dest) key body \<and> length req < 2048"
    using d unfolding q_def [symmetric] by (auto split: if_splits option.splits)
  show "res = Rp_status n \<Longrightarrow> \<exists>fd req. sent = Some (fd, req) \<and> send_loop (re_write ev) req 0 = Some (length req)"
    using d by (auto split: if_splits option.splits)
qed

text \<open>A call either stops before the connection with nothing sent, or is one run of \<open>report_send\<close> on safe values.\<close>

lemma ac_report_cases:
  assumes "ac_report ev event_type detail warned = ((res, sent, fds), w)"
  obtains (stop) "sent = None" "fds = []" "\<forall>n. res \<noteq> Rp_status n" "res = Rp_body_long \<Longrightarrow> 1024 \<le> length (report_json ev event_type detail)"
    | (send) url dest key where "re_url ev = Some url" "re_key ev = Some key" "fst (ac_report_parse_url url warned) = Inr dest"
        "one_line (rd_host dest)" "one_line key"
        "report_send ev dest key (report_json ev event_type detail) = (res, sent, fds)"
  using assms unfolding ac_report_def
  by (auto simp: Let_def ac_header_value_safe_def one_line_def split: option.splits prod.splits sum.splits if_splits)

text \<open>What the receiver must read: six header lines with the host of the configured URL, the key and the length of the body, and an
  object with the report's four members.\<close>

definition framed :: "'a report_env \<Rightarrow> string list \<Rightarrow> string \<Rightarrow> string \<Rightarrow> string \<Rightarrow> bool" where
  "framed ev warned event_type detail req \<longleftrightarrow>
     (\<exists>url dest key body. re_url ev = Some url \<and> re_key ev = Some key \<and> fst (ac_report_parse_url url warned) = Inr dest \<and> length req < 2048 \<and>
        http_head req = Some ([''POST /report HTTP/1.1'', ''Host: '' @ rd_host dest, ''Authorization: Bearer '' @ key, ''Content-Type: application/json'',
            ''Content-Length: '' @ fmt_u (length body), ''Connection: close''], body) \<and>
        reads_report (ac_report_client_id 128 (re_machine_id ev) (re_hostname ev)) event_type detail (re_time ev) body)"

text \<open>The buffers bound the body, so it is never too long to be sent.\<close>

lemma length_fmt_d:
  assumes "- LONG_MAX \<le> i" "i \<le> LONG_MAX"
  shows "length (fmt_d i) \<le> 20"
proof -
  have "length (digits_in 10 (nat j)) \<le> 19" if "j \<le> LONG_MAX" for j
    using that by (intro length_digits_in) (auto simp: LONG_MAX_def nat_less_iff)
  from this [of i] this [of "- i"] show ?thesis using assms by (auto simp: fmt_d_def fmt_u_def)
qed

lemma json_escape_fits: "0 < outsz \<Longrightarrow> length (the (ac_json_escape outsz s)) < outsz"
  using escape_loop_prefix [of "[]" outsz s] by (auto simp: ac_json_escape_def)

lemma report_json_fits:
  assumes "- LONG_MAX \<le> re_time ev" "re_time ev \<le> LONG_MAX"
  shows "length (report_json ev event_type detail) < 1024"
  using json_escape_fits [of 256 "ac_report_client_id 128 (re_machine_id ev) (re_hostname ev)"] json_escape_fits [of 64 event_type]
    json_escape_fits [of 600 detail] length_fmt_d [OF assms]
  by (simp add: report_json_def report_body_def)

text \<open>C34: A report is framed as it was meant, whatever the log line, host name, URL or key contain.  Even a receiver that takes a
  bare carriage return or line feed for the end of a line reads six header lines and no more: the fixed ones, the
  host of the configured URL, the key, and the length of the body.  The body is one object with four members: the
  client identifier, the event type, the detail and the time, each string whole unless its escaped form reaches
  the last seven bytes of its buffer of 256, 64 or 600 bytes, and then the prefix up to there.  A status is only
  taken after the whole request was written; the body is never too long; and no descriptor stays open.\<close>

theorem report_framed:
  assumes "ac_report ev event_type detail warned = ((res, sent, fds), w)" and "- LONG_MAX \<le> re_time ev" "re_time ev \<le> LONG_MAX"
  shows "fds = [] \<and> (\<forall>fd req. sent = Some (fd, req) \<longrightarrow> framed ev warned event_type detail req) \<and> res \<noteq> Rp_body_long \<and>
    (\<forall>n. res = Rp_status n \<longrightarrow> (\<exists>fd req. sent = Some (fd, req) \<and> send_loop (re_write ev) req 0 = Some (length req)))"
  using assms(1)
proof (cases rule: ac_report_cases)
  case (send url dest key)
  note s = report_send_sent [OF send(6)]
  have "framed ev warned event_type detail req" if "sent = Some (fd, req)" for fd req
    using s(3) [OF that] report_json_read [OF assms(2,3)] http_head_request [OF send(4,5)] send(1-3) unfolding framed_def by blast
  then show ?thesis using s(1,2,4) by blast
next
  case stop
  then show ?thesis using report_json_fits [OF assms(2,3), of event_type detail] by auto
qed

text \<open>A peer behind a socket that accepts ten bytes at a time and answers 201.\<close>

definition demo_report :: "nat report_env" where
  "demo_report = \<lparr>re_url = Some ''unix:///s'', re_key = Some ''k'', re_machine_id = None, re_hostname = Some ''box 1'', re_time = 1700000000,
     re_unix_fd = 5, re_unix_conn = True, re_addrs = (\<lambda>_ _. []), re_sock = (\<lambda>a. - 1), re_conn = (\<lambda>fd. False),
     re_write = (\<lambda>s. min 10 (int (length s))), re_read = Some ''HTTP/1.1 201 Created''\<rparr>"

theorem report_framed_witness:
  "\<exists>req. fst (snd (fst (ac_report demo_report ''ALERT'' [DQ, LF] []))) = Some (5, req) \<and> framed demo_report [] ''ALERT'' [DQ, LF] req"
proof -
  let ?b = "report_json demo_report ''ALERT'' [DQ, LF]"
  obtain res sent fds w where r: "ac_report demo_report ''ALERT'' [DQ, LF] [] = ((res, sent, fds), w)" by (metis prod.collapse)
  have b: "length ?b < 1024" by (rule report_json_fits) (simp_all add: demo_report_def LONG_MAX_def)
  have "length (fmt_u (length ?b)) \<le> 4" unfolding fmt_u_def using b by (intro length_digits_in) auto
  then have q: "length (report_request ''localhost'' ''k'' ?b) < 2048" using b by (simp add: report_request_def)
  have p: "ac_report_parse_url ''unix:///s'' [] = (Inr \<lparr>rd_is_unix = True, rd_host = ''localhost'', rd_port = [], rd_sock_path = ''/s''\<rparr>, [], False)"
    by (simp add: ac_report_parse_url_def SUN_PATH_def)
  have "\<exists>req. sent = Some (5, req)"
    using r b q by (auto simp: ac_report_def report_send_def report_connect_def demo_report_def p ac_header_value_safe_def Let_def split: option.splits if_splits)
  then show ?thesis using report_framed [OF r] r by (auto simp: demo_report_def LONG_MAX_def)
qed

subsection \<open>Destinations\<close>





lemma takeWhile_all: "\<forall>x \<in> set xs. P x \<Longrightarrow> takeWhile P xs = xs"
  by (simp add: takeWhile_eq_all_conv)












text \<open>Without brackets the host ends at the last colon, so a colon in the path moves the path into the host name and takes the
  port from it, although the comment on the scheme says that the path after the port is ignored.\<close>

lemma report_url_path_colon:
  "fst (ac_report_parse_url ''http://h:80/a:90'' []) =
     Inr \<lparr>rd_is_unix = False, rd_host = ''h:80/a'', rd_port = ''90'', rd_sock_path = []\<rparr>"
  by (simp add: ac_report_parse_url_def url_split_def url_port_def strtoul_def strto_def take_sign_def strrchr_def strchr_def c_at_def
      isspace_def digit_val_def num_val_def)

text \<open>C37: The port is not checked to be a number: leading line breaks, a sign and even a negative number that wraps into the range are
  accepted, although the comment on the header check relies on the port being numeric.\<close>

theorem report_url_port_unchecked:
  "fst (ac_report_parse_url (''h:'' @ [CR, LF] @ ''80'') []) =
     Inr \<lparr>rd_is_unix = False, rd_host = ''h'', rd_port = [CR, LF] @ ''80'', rd_sock_path = []\<rparr> \<and>
   fst (ac_report_parse_url ''h:-18446744073709551615'' []) =
     Inr \<lparr>rd_is_unix = False, rd_host = ''h'', rd_port = ''-18446744073709551615'', rd_sock_path = []\<rparr>"
  by (simp add: ac_report_parse_url_def url_split_def url_port_def strtoul_def strto_def take_sign_def strrchr_def strchr_def c_at_def
      isspace_def digit_val_def num_val_def)

subsection \<open>Status lines\<close>

lemma of_digit_char: "d < 16 \<Longrightarrow> (of_char (digit_char d) :: nat) = (if d < 10 then d + 48 else d + 87)"
  by (rule digit_char_cases [of d]) (simp_all add: digit_char_def)

lemma isdigit_iff: "isdigit c \<longleftrightarrow> (\<exists>d < 10. c = digit_char d)"
proof
  assume "isdigit c"
  then have n: "48 \<le> (of_char c :: nat)" "(of_char c :: nat) \<le> 57" by (simp_all add: isdigit_def Let_def)
  define d where "d = (of_char c :: nat) - 48"
  have "d < 10" "(of_char (digit_char d) :: nat) = of_char c" using n of_digit_char [of d] by (auto simp: d_def)
  moreover from this have "digit_char d = c" by (metis char_of_char)
  ultimately show "\<exists>d < 10. c = digit_char d" by auto
next
  assume "\<exists>d < 10. c = digit_char d"
  then show "isdigit c" by (auto simp: isdigit_def Let_def of_digit_char)
qed

lemma of_digit_char_int: "d < 16 \<Longrightarrow> (of_char (digit_char d) :: int) = (if d < 10 then int d + 48 else int d + 87)"
  by (rule digit_char_cases [of d]) (simp_all add: digit_char_def)

lemma digit_char_int: "d < 10 \<Longrightarrow> (of_char (digit_char d) :: int) - 48 = int d"
  by (simp add: of_digit_char_int)

lemma status_line_split:
  assumes "take 7 r = ''HTTP/1.''" "c_at r 7 = a" "c_at r 8 = CHR '' ''" "c_at r 9 = x" "c_at r 10 = y" "c_at r 11 = z" "z \<noteq> CHR 0x00"
  shows "r = ''HTTP/1.'' @ [a, CHR '' '', x, y, z] @ drop 12 r"
proof -
  have l: "12 \<le> length r" using assms(6,7) by (auto simp: c_at_def split: if_splits)
  have "drop 7 r = r ! 7 # r ! 8 # r ! 9 # r ! 10 # r ! 11 # drop 12 r" using l by (simp add: Cons_nth_drop_Suc numeral_eq_Suc)
  moreover have "r ! 7 = a" "r ! 8 = CHR '' ''" "r ! 9 = x" "r ! 10 = y" "r ! 11 = z" using assms l by (simp_all add: c_at_def)
  ultimately show ?thesis using assms(1) append_take_drop_id [of 7 r] by simp
qed

text \<open>A status code is taken from exactly the well-formed status lines: version 1 with one digit, three digits, and then a space,
  a line end or nothing; everything else is \<open>- 1\<close>, which is no success.\<close>

theorem http_status_exact:
  assumes "CHR 0x00 \<notin> set resp"
  shows "ac_http_status_code resp = n \<and> n \<noteq> - 1 \<longleftrightarrow>
    (\<exists>v a b c rest. v < 10 \<and> a < 10 \<and> b < 10 \<and> c < 10 \<and> n = int (100 * a + 10 * b + c) \<and>
       resp = ''HTTP/1.'' @ [digit_char v, CHR '' '', digit_char a, digit_char b, digit_char c] @ rest \<and>
       (rest = [] \<or> hd rest = CHR '' '' \<or> hd rest = CR \<or> hd rest = LF))"
  (is "?l \<longleftrightarrow> ?r")
proof
  assume ?l
  then have f: "take 7 resp = ''HTTP/1.''" "isdigit (c_at resp 7)" "c_at resp 8 = CHR '' ''" "isdigit (c_at resp 9)" "isdigit (c_at resp 10)" "isdigit (c_at resp 11)"
    "c_at resp 12 \<in> {CHR '' '', CR, LF, CHR 0x00}"
    "n = (of_char (c_at resp 9) - 48) * 100 + (of_char (c_at resp 10) - 48) * 10 + (of_char (c_at resp 11) - 48)"
    by (auto simp: ac_http_status_code_def split: if_splits)
  from f(2,4-6) obtain v a b c where d: "v < 10" "c_at resp 7 = digit_char v" "a < 10" "c_at resp 9 = digit_char a" "b < 10" "c_at resp 10 = digit_char b"
    "c < 10" "c_at resp 11 = digit_char c" by (auto simp: isdigit_iff)
  have "digit_char c \<noteq> CHR 0x00" using of_digit_char [of c] d(7) by auto
  from status_line_split [OF f(1) d(2) f(3) d(4) d(6) d(8) this]
  have r: "resp = ''HTTP/1.'' @ [digit_char v, CHR '' '', digit_char a, digit_char b, digit_char c] @ drop 12 resp" .
  have "drop 12 resp = [] \<or> hd (drop 12 resp) \<in> {CHR '' '', CR, LF}"
    using f(7) assms by (auto simp: c_at_def hd_drop_conv_nth in_set_conv_nth split: if_splits)
  moreover have "n = int (100 * a + 10 * b + c)" using f(8) d by (simp add: digit_char_int)
  ultimately show ?r using r d by blast
next
  assume ?r
  then obtain v a b c rest where d: "v < 10" "a < 10" "b < 10" "c < 10" "n = int (100 * a + 10 * b + c)"
    "resp = ''HTTP/1.'' @ [digit_char v, CHR '' '', digit_char a, digit_char b, digit_char c] @ rest"
    "rest = [] \<or> hd rest = CHR '' '' \<or> hd rest = CR \<or> hd rest = LF" by blast
  have c: "c_at resp 7 = digit_char v" "c_at resp 8 = CHR '' ''" "c_at resp 9 = digit_char a" "c_at resp 10 = digit_char b" "c_at resp 11 = digit_char c"
    "c_at resp 12 = (if rest = [] then CHR 0x00 else hd rest)" "take 7 resp = ''HTTP/1.''"
    unfolding d(6) by (simp_all add: c_at_def hd_conv_nth)
  have i: "isdigit (digit_char v)" "isdigit (digit_char a)" "isdigit (digit_char b)" "isdigit (digit_char c)" using d by (auto simp: isdigit_iff)
  show ?l using d(1-5,7) by (auto simp: ac_http_status_code_def c i digit_char_int)
qed

theorem http_status_exact_witness: "ac_http_status_code ''HTTP/1.1 201 Created'' = 201"
proof -
  have "digit_char 1 = CHR ''1''" "digit_char 2 = CHR ''2''" "digit_char 0 = CHR ''0''" by (simp_all add: digit_char_def)
  then have "\<exists>v a b c rest. v < 10 \<and> a < 10 \<and> b < 10 \<and> c < 10 \<and> 201 = int (100 * a + 10 * b + c) \<and>
       ''HTTP/1.1 201 Created'' = ''HTTP/1.'' @ [digit_char v, CHR '' '', digit_char a, digit_char b, digit_char c] @ rest \<and>
       (rest = [] \<or> hd rest = CHR '' '' \<or> hd rest = CR \<or> hd rest = LF)"
    by (intro exI [of _ 1] exI [of _ 2] exI [of _ 0] exI [of _ 1] exI [of _ "'' Created''"]) simp
  then show ?thesis using http_status_exact [of "''HTTP/1.1 201 Created''" 201] by simp
qed

subsection \<open>Resolver children\<close>

text \<open>The bounded wait ends as soon as the clock has passed the bound.\<close>

lemma waitpid_timeout_returns:
  assumes "el m \<ge> timeout_ms" and "n \<le> m"
  shows "\<exists>e. waitpid_timeout w el timeout_ms n = Some e"
  using assms(2)
proof (induction "m - n" arbitrary: n)
  case 0
  then show ?case using assms(1) by (subst waitpid_timeout.simps) simp
next
  case (Suc k)
  then have "\<exists>e. waitpid_timeout w el timeout_ms (n + 1) = Some e" by (intro Suc.hyps(1)) auto
  then show ?case by (subst waitpid_timeout.simps) auto
qed

text \<open>The documented behaviour of \<^verbatim>\<open>waitpid\<close>: only a process that is no child of the caller is \<^verbatim>\<open>ECHILD\<close>.\<close>

definition waits_children :: "(pid_t \<Rightarrow> wait_result) \<Rightarrow> pid_t set \<Rightarrow> bool" where
  "waits_children w ch \<longleftrightarrow> (\<forall>p \<in> ch. w p \<noteq> W_echild)"

text \<open>The states that a sequence of resolutions reaches; \<^verbatim>\<open>fork\<close> returns a positive number that is no child's yet.\<close>

inductive resolver_reach :: "resolvers \<Rightarrow> bool" where
  start: "resolver_reach \<lparr>rs_stale = replicate AC_MAX_STALE_RESOLVERS 0, rs_children = {}\<rparr>"
| resolve: "resolver_reach s \<Longrightarrow> waits_children w1 (rs_children s) \<Longrightarrow> waits_children w2 (insert pid (rs_children s)) \<Longrightarrow>
    pid \<noteq> 0 \<Longrightarrow> pid > 0 \<longrightarrow> pid \<notin> rs_children s \<Longrightarrow> fin \<noteq> End_error \<Longrightarrow>
    resolver_reach (snd (resolve_children w1 pipe_ok pid fin w2 s))"

definition children_tracked :: "resolvers \<Rightarrow> bool" where
  "children_tracked s \<longleftrightarrow> length (rs_stale s) = AC_MAX_STALE_RESOLVERS \<and> (\<forall>p \<in> rs_children s. 0 < p \<and> p \<in> set (rs_stale s))"

lemma reap_tracked:
  assumes "children_tracked s" and "waits_children w (rs_children s)"
  shows "children_tracked (reap_stale_resolvers w s)"
  using assms by (auto simp: children_tracked_def reap_stale_resolvers_def waits_children_def image_iff)

lemma reap_children: "rs_children (reap_stale_resolvers w s) \<subseteq> rs_children s"
  by (auto simp: reap_stale_resolvers_def)

lemma reap_keeps_free: "stale_resolver_slot_free s \<Longrightarrow> stale_resolver_slot_free (reap_stale_resolvers w s)"
  by (auto simp: stale_resolver_slot_free_def reap_stale_resolvers_def image_iff intro!: bexI [of _ 0])

lemma length_fill_slot [simp]: "length (fill_slot pid ps) = length ps"
  by (induction ps) auto

lemma set_fill_slot: "0 \<in> set ps \<Longrightarrow> insert pid {p \<in> set ps. p \<noteq> 0} \<subseteq> set (fill_slot pid ps)"
  by (induction ps) auto

lemma abandon_tracked:
  assumes "children_tracked (s\<lparr>rs_children := rs_children s - {pid}\<rparr>)" and "0 < pid" and "stale_resolver_slot_free s" and "waits_children w (insert pid (rs_children s))"
  shows "children_tracked (abandon_resolver_child w pid s)"
proof -
  let ?s1 = "reap_stale_resolvers w s"
  have free: "0 \<in> set (rs_stale ?s1)" using reap_keeps_free [OF assms(3)] by (simp add: stale_resolver_slot_free_def)
  have l: "length (rs_stale ?s1) = AC_MAX_STALE_RESOLVERS" using assms(1) by (simp add: children_tracked_def reap_stale_resolvers_def)
  have "0 < p \<and> (p = pid \<or> p \<in> set (rs_stale ?s1))" if "p \<in> rs_children ?s1" for p
    using that assms(1,2,4) by (auto simp: children_tracked_def reap_stale_resolvers_def waits_children_def image_iff)
  then have "0 < p \<and> p \<in> set (fill_slot pid (rs_stale ?s1))" if "p \<in> rs_children ?s1" for p
    using that set_fill_slot [OF free, of pid] by force
  then show ?thesis using l by (auto simp: children_tracked_def abandon_resolver_child_def Let_def)
qed

lemma resolve_tracked:
  assumes "children_tracked s" and "waits_children w1 (rs_children s)" "waits_children w2 (insert pid (rs_children s))" and "pid \<noteq> 0" and "fin \<noteq> End_error"
  shows "children_tracked (snd (resolve_children w1 pipe_ok pid fin w2 s))"
proof -
  let ?s1 = "reap_stale_resolvers w1 s"
  let ?s2 = "?s1\<lparr>rs_children := insert pid (rs_children ?s1)\<rparr>"
  have t: "children_tracked ?s1" by (rule reap_tracked [OF assms(1,2)])
  have w: "waits_children w2 (insert pid (rs_children ?s2))" using assms(3) reap_children [of w1 s] by (auto simp: waits_children_def)
  have d: "children_tracked (?s2\<lparr>rs_children := rs_children ?s2 - {pid}\<rparr>)" using t by (auto simp: children_tracked_def)
  show ?thesis
  proof (cases "stale_resolver_slot_free ?s1 \<and> pipe_ok \<and> 0 < pid")
    case True
    then have "stale_resolver_slot_free ?s2" by (simp add: stale_resolver_slot_free_def)
    with abandon_tracked [OF d] True w have "children_tracked (abandon_resolver_child w2 pid ?s2)" by blast
    then show ?thesis using True d assms(5) by (cases fin) (simp_all add: resolve_children_def Let_def)
  next
    case False
    then show ?thesis using t assms(4) by (auto simp: resolve_children_def Let_def)
  qed
qed

text \<open>C38: However the resolver children behave, every child that has not been reaped is in the table, so there are never more than eight
  of them and none is lost as a zombie; and the bounded wait returns once the clock passes its bound.\<close>

theorem resolver_children_tracked:
  assumes "resolver_reach s"
  shows "(\<forall>p \<in> rs_children s. p \<in> set (rs_stale s)) \<and> card (rs_children s) \<le> AC_MAX_STALE_RESOLVERS \<and>
    (el m \<ge> timeout_ms \<longrightarrow> (\<exists>e. waitpid_timeout w el timeout_ms 0 = Some e))"
proof -
  have t: "children_tracked s" using assms
  proof (induction rule: resolver_reach.induct)
    case start
    show ?case by (simp add: children_tracked_def)
  next
    case (resolve s w1 w2 pid fin pipe_ok)
    then show ?case using resolve_tracked by blast
  qed
  then have "rs_children s \<subseteq> set (rs_stale s)" by (auto simp: children_tracked_def)
  then have "card (rs_children s) \<le> length (rs_stale s)" by (meson List.finite_set card_length card_mono order.trans)
  then show ?thesis using t waitpid_timeout_returns [of timeout_ms el m 0 w] by (auto simp: children_tracked_def)
qed

theorem resolver_children_tracked_witness:
  "let s = snd (resolve_children (\<lambda>_. W_running) True 42 End_timeout (\<lambda>_. W_running) \<lparr>rs_stale = replicate AC_MAX_STALE_RESOLVERS 0, rs_children = {}\<rparr>)
   in 42 \<in> rs_children s \<and> 42 \<in> set (rs_stale s)"
proof -
  let ?s = "snd (resolve_children (\<lambda>_. W_running) True 42 End_timeout (\<lambda>_. W_running) \<lparr>rs_stale = replicate AC_MAX_STALE_RESOLVERS 0, rs_children = {}\<rparr>)"
  have "resolver_reach ?s" by (rule resolver_reach.resolve [OF resolver_reach.start]) (simp_all add: waits_children_def)
  moreover have "42 \<in> rs_children ?s"
    by (simp add: resolve_children_def abandon_resolver_child_def reap_stale_resolvers_def stale_resolver_slot_free_def AC_MAX_STALE_RESOLVERS_def Let_def)
  ultimately show ?thesis using resolver_children_tracked [of ?s] by (simp add: Let_def)
qed

subsection \<open>Descriptors\<close>

text \<open>
  The child keeps its standard streams and the pipe only: by \<^verbatim>\<open>close_range\<close>, by the directory if it lists every
  descriptor, or by the sweep for descriptors below the limit.
\<close>

lemma close_extra_keeps:
  assumes "\<forall>fd \<in> set fds. 0 \<le> fd \<and> fd \<le> UINT_MAX" and "keep \<in> set fds"
    and "\<And>dir_fd ns fd. names = Some (dir_fd, ns) \<Longrightarrow> fd \<in> set fds \<Longrightarrow> fd \<noteq> dir_fd \<and> fmt_d fd \<in> set ns"
    and "names = None \<Longrightarrow> \<forall>fd \<in> set fds. fd < (if maxfd < 0 then 1024 else maxfd)"
  shows "set (ac_close_extra_fds cr names maxfd keep fds) = {fd \<in> set fds. fd \<le> 2 \<or> fd = keep}"
proof -
  have st: "c_at (fmt_d fd) 0 \<noteq> CHR ''.'' \<and> strtol (fmt_d fd) = (fd, [], False)" if "0 \<le> fd" "fd \<le> UINT_MAX" for fd
  proof -
    obtain c cs where c: "fmt_u (nat fd) = c # cs" using fmt_u_facts(2) by (cases "fmt_u (nat fd)") auto
    have "\<not> digit_val (CHR ''.'') < 10" by (simp add: digit_val_def)
    then have "c \<noteq> CHR ''.''" using fmt_u_facts(3) [of c "nat fd"] c by auto
    then show ?thesis using strtol_fmt_d [of "[]" fd] that c by (simp add: fmt_d_def c_at_def UINT_MAX_def LONG_MAX_def)
  qed
  have dir: "fd \<in> set (listed_fds keep dir_fd ns) \<longleftrightarrow> \<not> (fd \<le> 2 \<or> fd = keep)" if "names = Some (dir_fd, ns)" "fd \<in> set fds" for fd dir_fd ns
  proof
    assume "fd \<in> set (listed_fds keep dir_fd ns)"
    then show "\<not> (fd \<le> 2 \<or> fd = keep)" by (auto simp: listed_fds_def)
  next
    assume "\<not> (fd \<le> 2 \<or> fd = keep)"
    then show "fd \<in> set (listed_fds keep dir_fd ns)"
      using that assms(1) assms(3) [OF that] st [of fd] unfolding listed_fds_def by (auto simp: image_iff intro!: bexI [of _ "fmt_d fd"])
  qed
  show ?thesis using assms(1,2,4) dir
    by (auto simp: ac_close_extra_fds_def close_between_def Let_def split: option.splits if_splits)
qed

text \<open>An identifier from the host name is one that the server accepts: letters, digits, dot, underscore and minus.\<close>

lemma client_id_safe:
  assumes "1 < outsz" and "machine_id = None"
  shows "ac_report_client_id outsz machine_id host \<noteq> [] \<and> length (ac_report_client_id outsz machine_id host) < outsz \<and>
    (\<forall>c \<in> set (ac_report_client_id outsz machine_id host). id_char c)"
proof -
  have "\<forall>c \<in> set ''unknown''. id_char c" "id_char (CHR ''_'')" by (simp_all add: id_char_def)
  then show ?thesis using assms by (auto simp: ac_report_client_id_def Let_def split: option.split dest: in_set_takeD)
qed

end
