(* ===== verification/AC_Elf.thy ===== *)
theory AC_Elf
  imports AC_Prelude
begin

text \<open>
  Locating a symbol in a library file, \<^verbatim>\<open>src/src/anticheat_daemon.c\<close>: the reader of ELF64 headers, section and symbol
  tables and program headers.  The file is chosen by the process that is checked, so it is not trusted.

  A value of type \<open>'a option option\<close> is the outcome of a function that works on buffers: the outer \<open>None\<close> is an access
  outside a buffer, \<open>Some None\<close> the error return \<open>- 1\<close>.
\<close>

subsection \<open>Buffers\<close>

definition le_val :: "byte list \<Rightarrow> nat" where
  "le_val bs = foldr (\<lambda>b n. unat b + 256 * n) bs 0"

text \<open>The little-endian field of \<open>n\<close> bytes at an offset, and entry \<open>i\<close> of an array of entries of \<open>sz\<close> bytes.\<close>

definition fld :: "nat \<Rightarrow> nat \<Rightarrow> byte list \<Rightarrow> 'a::len word" where
  "fld off n bs = of_nat (le_val (take n (drop off bs)))"

definition chunk :: "nat \<Rightarrow> byte list \<Rightarrow> nat \<Rightarrow> byte list option" where
  "chunk sz buf i = (if (i + 1) * sz \<le> length buf then Some (take sz (drop (i * sz) buf)) else None)"

text \<open>\<^verbatim>\<open>memchr(buf + i, 0, n) != NULL\<close> and \<^verbatim>\<open>strcmp(buf + i, str) == 0\<close>.  Both read the buffer byte by byte, as far as
  they need to; a byte that is not in it is an access outside the buffer.\<close>

fun memchr0 :: "byte list \<Rightarrow> nat \<Rightarrow> nat \<Rightarrow> bool option" where
  "memchr0 buf i 0 = Some False"
| "memchr0 buf i (Suc n) = (if i < length buf then (if buf ! i = 0 then Some True else memchr0 buf (Suc i) n) else None)"

fun strcmp0 :: "byte list \<Rightarrow> nat \<Rightarrow> string \<Rightarrow> bool option" where
  "strcmp0 buf i [] = (if i < length buf then Some (buf ! i = 0) else None)"
| "strcmp0 buf i (c # cs) =
     (if i < length buf then (if char_of (unat (buf ! i)) \<noteq> c then Some False else if buf ! i = 0 then Some True else strcmp0 buf (Suc i) cs)
      else None)"

text \<open>What they mean: whether there is a terminator at or after \<open>i\<close>, and the C string at \<open>i\<close>.\<close>

definition terminated :: "byte list \<Rightarrow> nat \<Rightarrow> bool" where
  "terminated buf i \<longleftrightarrow> 0 \<in> set (drop i buf)"

definition buf_str :: "byte list \<Rightarrow> nat \<Rightarrow> string option" where
  "buf_str buf i = (if terminated buf i then Some (map (\<lambda>b. char_of (unat b)) (takeWhile (\<lambda>b. b \<noteq> 0) (drop i buf))) else None)"

lemma memchr0_eq: "i + n = length buf \<Longrightarrow> memchr0 buf i n = Some (terminated buf i)"
proof (induction n arbitrary: i)
  case (Suc n)
  then have "drop i buf = buf ! i # drop (Suc i) buf" by (simp add: Cons_nth_drop_Suc)
  with Suc show ?case by (auto simp: terminated_def)
qed (simp add: terminated_def)

lemma byte_char_zero: "char_of (unat (b :: byte)) = CHR 0x00 \<longleftrightarrow> b = 0"
proof
  assume "char_of (unat b) = CHR 0x00"
  then have "(of_char (char_of (unat b)) :: nat) = 0" by simp
  moreover have "unat b < 256" using unsigned_less [of b, where ?'a = nat] by simp
  ultimately show "b = 0" by (simp add: unat_eq_zero)
qed (simp add: char_of_def)

lemma strcmp0_eq: "terminated buf i \<Longrightarrow> strcmp0 buf i cs = Some (buf_str buf i = Some (takeWhile (\<lambda>c. c \<noteq> CHR 0x00) cs))"
proof (induction cs arbitrary: i)
  case Nil
  then have i: "i < length buf" by (cases "i < length buf") (auto simp: terminated_def)
  then have "drop i buf = buf ! i # drop (Suc i) buf" by (simp add: Cons_nth_drop_Suc)
  with Nil i show ?case by (auto simp: buf_str_def)
next
  case (Cons c cs)
  then have i: "i < length buf" by (cases "i < length buf") (auto simp: terminated_def)
  then have d: "drop i buf = buf ! i # drop (Suc i) buf" by (simp add: Cons_nth_drop_Suc)
  show ?case
  proof (cases "buf ! i = 0")
    case True
    then show ?thesis using i d byte_char_zero [of "buf ! i"] Cons.prems by (auto simp: buf_str_def)
  next
    case False
    then have "terminated buf (Suc i)" using Cons.prems d by (auto simp: terminated_def)
    with Cons.IH [OF this] False show ?thesis using i d byte_char_zero [of "buf ! i"] Cons.prems by (auto simp: buf_str_def)
  qed
qed

text \<open>\<open>rd off n\<close> is \<^verbatim>\<open>pread\<close> on the file; the callers require all \<open>n\<close> bytes.\<close>

definition pread_all :: "(u64 \<Rightarrow> nat \<Rightarrow> byte list option) \<Rightarrow> u64 \<Rightarrow> nat \<Rightarrow> byte list option" where
  "pread_all rd off n = (case rd off n of None \<Rightarrow> None | Some bs \<Rightarrow> if length bs = n then Some bs else None)"

subsection \<open>ELF structures\<close>

record elf_ehdr =
  e_ident :: "byte list"
  e_phoff :: u64
  e_shoff :: u64
  e_phentsize :: nat
  e_phnum :: nat
  e_shentsize :: nat
  e_shnum :: nat
  e_shstrndx :: nat

record elf_shdr =
  sh_name :: u32
  sh_type :: u32
  sh_offset :: u64
  sh_size :: u64
  sh_entsize :: u64

record elf_phdr =
  p_type :: u32
  p_flags :: u32
  p_offset :: u64
  p_vaddr :: u64
  p_filesz :: u64

record elf_sym =
  st_name :: u32
  st_value :: u64
  st_size :: u64

definition fldn :: "nat \<Rightarrow> byte list \<Rightarrow> nat" where
  "fldn off bs = le_val (take 2 (drop off bs))"

definition get_ehdr :: "byte list \<Rightarrow> elf_ehdr" where
  "get_ehdr bs = \<lparr>e_ident = take 16 bs, e_phoff = fld 32 8 bs, e_shoff = fld 40 8 bs, e_phentsize = fldn 54 bs, e_phnum = fldn 56 bs,
     e_shentsize = fldn 58 bs, e_shnum = fldn 60 bs, e_shstrndx = fldn 62 bs\<rparr>"

definition get_shdr :: "byte list \<Rightarrow> elf_shdr" where
  "get_shdr bs = \<lparr>sh_name = fld 0 4 bs, sh_type = fld 4 4 bs, sh_offset = fld 24 8 bs, sh_size = fld 32 8 bs, sh_entsize = fld 56 8 bs\<rparr>"

definition get_phdr :: "byte list \<Rightarrow> elf_phdr" where
  "get_phdr bs = \<lparr>p_type = fld 0 4 bs, p_flags = fld 4 4 bs, p_offset = fld 8 8 bs, p_vaddr = fld 16 8 bs, p_filesz = fld 32 8 bs\<rparr>"

definition get_sym :: "byte list \<Rightarrow> elf_sym" where
  "get_sym bs = \<lparr>st_name = fld 0 4 bs, st_value = fld 8 8 bs, st_size = fld 16 8 bs\<rparr>"

definition EHDR_SIZE :: nat where "EHDR_SIZE = 64"
definition SHDR_SIZE :: nat where "SHDR_SIZE = 64"
definition PHDR_SIZE :: nat where "PHDR_SIZE = 56"
definition SYM_SIZE :: nat where "SYM_SIZE = 24"

definition AC_ELF_MAX_SHNUM :: nat where "AC_ELF_MAX_SHNUM = 2048"
definition AC_ELF_MAX_STRTAB :: u64 where "AC_ELF_MAX_STRTAB = 4 * 1024 * 1024"
definition AC_ELF_MAX_SYMS :: u32 where "AC_ELF_MAX_SYMS = 500000"
definition AC_ELF_MAX_PHNUM :: nat where "AC_ELF_MAX_PHNUM = 256"

definition PT_LOAD :: u32 where "PT_LOAD = 1"
definition PF_X :: u32 where "PF_X = 1"
definition SHT_STRTAB :: u32 where "SHT_STRTAB = 3"
definition SHT_DYNSYM :: u32 where "SHT_DYNSYM = 11"

subsection \<open>From an address to a file offset\<close>

record ac_elf_loc =
  el_file_off :: u64
  el_seg_off :: u64
  el_seg_end :: u64

text \<open>Whether the loop stops at this program header.\<close>

definition phdr_holds :: "u64 \<Rightarrow> elf_phdr \<Rightarrow> bool" where
  "phdr_holds vaddr ph \<longleftrightarrow>
     \<not> (p_type ph \<noteq> PT_LOAD \<or> p_flags ph AND PF_X = 0) \<and>
     \<not> (vaddr < p_vaddr ph \<or> vaddr - p_vaddr ph \<ge> p_filesz ph) \<and>
     \<not> p_offset ph > - 1 - p_filesz ph"

definition phdr_loc :: "u64 \<Rightarrow> elf_phdr \<Rightarrow> ac_elf_loc" where
  "phdr_loc vaddr ph =
     \<lparr>el_file_off = p_offset ph + (vaddr - p_vaddr ph), el_seg_off = p_offset ph, el_seg_end = p_offset ph + p_filesz ph\<rparr>"

fun phdr_loop :: "byte list \<Rightarrow> u64 \<Rightarrow> nat list \<Rightarrow> ac_elf_loc option option" where
  "phdr_loop buf vaddr [] = Some None"
| "phdr_loop buf vaddr (i # is) =
     (case chunk PHDR_SIZE buf i of
        None \<Rightarrow> None
      | Some c \<Rightarrow> if phdr_holds vaddr (get_phdr c) then Some (Some (phdr_loc vaddr (get_phdr c))) else phdr_loop buf vaddr is)"

definition elf_vaddr_to_file_off ::
  "(u64 \<Rightarrow> nat \<Rightarrow> byte list option) \<Rightarrow> (nat \<Rightarrow> bool) \<Rightarrow> elf_ehdr \<Rightarrow> u64 \<Rightarrow> ac_elf_loc option option" where
  "elf_vaddr_to_file_off rd alloc eh vaddr =
     (if e_phentsize eh \<noteq> PHDR_SIZE \<or> e_phnum eh = 0 \<or> e_phnum eh > AC_ELF_MAX_PHNUM then Some None
      else if \<not> alloc (e_phnum eh * PHDR_SIZE) then Some None
      else case pread_all rd (e_phoff eh) (e_phnum eh * PHDR_SIZE) of
        None \<Rightarrow> Some None
      | Some buf \<Rightarrow> phdr_loop buf vaddr [0..<e_phnum eh])"

subsection \<open>Finding a symbol\<close>

text \<open>The loop over the section headers: the last \<^verbatim>\<open>.dynsym\<close> and \<^verbatim>\<open>.dynstr\<close> that it sees.\<close>

fun section_loop :: "byte list \<Rightarrow> byte list \<Rightarrow> u64 \<Rightarrow> nat list \<Rightarrow> elf_shdr option \<times> elf_shdr option \<Rightarrow> (elf_shdr option \<times> elf_shdr option) option" where
  "section_loop shdrs shstrtab strsz [] found = Some found"
| "section_loop shdrs shstrtab strsz (i # is) found =
     (case chunk SHDR_SIZE shdrs i of
        None \<Rightarrow> None
      | Some c \<Rightarrow>
          (let sh = get_shdr c
           in if ucast (sh_name sh) \<ge> strsz then section_loop shdrs shstrtab strsz is found
              else case memchr0 shstrtab (unat (sh_name sh)) (unat (strsz - ucast (sh_name sh))) of
                None \<Rightarrow> None
              | Some False \<Rightarrow> section_loop shdrs shstrtab strsz is found
              | Some True \<Rightarrow>
                  if sh_type sh = SHT_DYNSYM
                  then (case strcmp0 shstrtab (unat (sh_name sh)) ''.dynsym'' of
                          None \<Rightarrow> None
                        | Some eq \<Rightarrow> section_loop shdrs shstrtab strsz is (if eq then (Some sh, snd found) else found))
                  else if sh_type sh = SHT_STRTAB
                  then (case strcmp0 shstrtab (unat (sh_name sh)) ''.dynstr'' of
                          None \<Rightarrow> None
                        | Some eq \<Rightarrow> section_loop shdrs shstrtab strsz is (if eq then (fst found, Some sh) else found))
                  else section_loop shdrs shstrtab strsz is found))"

text \<open>The loop over the symbols: it stops at the first one with the name, whether or not it can be located.\<close>

fun symbol_loop ::
  "(elf_sym \<Rightarrow> ac_elf_loc option option) \<Rightarrow> string \<Rightarrow> byte list \<Rightarrow> byte list \<Rightarrow> u64 \<Rightarrow> nat list \<Rightarrow> (ac_elf_loc \<times> u64) option option" where
  "symbol_loop locate symbol syms dynstrtab strsz [] = Some None"
| "symbol_loop locate symbol syms dynstrtab strsz (i # is) =
     (case chunk SYM_SIZE syms i of
        None \<Rightarrow> None
      | Some c \<Rightarrow>
          (let sym = get_sym c
           in if st_name sym = 0 \<or> ucast (st_name sym) \<ge> strsz \<or> st_value sym = 0 then symbol_loop locate symbol syms dynstrtab strsz is
              else case memchr0 dynstrtab (unat (st_name sym)) (unat (strsz - ucast (st_name sym))) of
                None \<Rightarrow> None
              | Some False \<Rightarrow> symbol_loop locate symbol syms dynstrtab strsz is
              | Some True \<Rightarrow>
                  (case strcmp0 dynstrtab (unat (st_name sym)) symbol of
                     None \<Rightarrow> None
                   | Some True \<Rightarrow>
                       (case locate sym of
                          None \<Rightarrow> None
                        | Some None \<Rightarrow> Some None
                        | Some (Some loc) \<Rightarrow> Some (Some (loc, st_size sym)))
                   | Some False \<Rightarrow> symbol_loop locate symbol syms dynstrtab strsz is)))"

text \<open>From the section headers on: the string table, the two sections, and the symbols.\<close>

definition find_sections ::
  "(u64 \<Rightarrow> nat \<Rightarrow> byte list option) \<Rightarrow> (nat \<Rightarrow> bool) \<Rightarrow> elf_ehdr \<Rightarrow> byte list \<Rightarrow> (elf_shdr \<times> elf_shdr) option option" where
  "find_sections rd alloc eh shdrs =
     (case chunk SHDR_SIZE shdrs (e_shstrndx eh) of
        None \<Rightarrow> None
      | Some c \<Rightarrow>
          (let shstr = get_shdr c
           in if sh_size shstr = 0 \<or> sh_size shstr > AC_ELF_MAX_STRTAB \<or> \<not> alloc (unat (sh_size shstr)) then Some None
              else case pread_all rd (sh_offset shstr) (unat (sh_size shstr)) of
                None \<Rightarrow> Some None
              | Some shstrtab \<Rightarrow>
                  (case section_loop shdrs shstrtab (sh_size shstr) [0..<e_shnum eh] (None, None) of
                     None \<Rightarrow> None
                   | Some (Some dynsym, Some dynstr) \<Rightarrow> Some (Some (dynsym, dynstr))
                   | Some _ \<Rightarrow> Some None)))"

definition find_symbol ::
  "(u64 \<Rightarrow> nat \<Rightarrow> byte list option) \<Rightarrow> (nat \<Rightarrow> bool) \<Rightarrow> elf_ehdr \<Rightarrow> string \<Rightarrow> elf_shdr \<Rightarrow> elf_shdr \<Rightarrow> (ac_elf_loc \<times> u64) option option" where
  "find_symbol rd alloc eh symbol dynsym dynstr =
     (if sh_entsize dynsym \<noteq> of_nat SYM_SIZE \<or> sh_size dynstr = 0 \<or> sh_size dynstr > AC_ELF_MAX_STRTAB then Some None
      else
        (let nsyms = ucast (sh_size dynsym div of_nat SYM_SIZE) :: u32
         in if nsyms = 0 \<or> nsyms > AC_ELF_MAX_SYMS then Some None
            else if \<not> alloc (unat (sh_size dynsym)) \<or> \<not> alloc (unat (sh_size dynstr)) then Some None
            else case pread_all rd (sh_offset dynsym) (unat (sh_size dynsym)) of
              None \<Rightarrow> Some None
            | Some syms \<Rightarrow>
                (case pread_all rd (sh_offset dynstr) (unat (sh_size dynstr)) of
                   None \<Rightarrow> Some None
                 | Some dynstrtab \<Rightarrow>
                     symbol_loop (\<lambda>sym. elf_vaddr_to_file_off rd alloc eh (st_value sym)) symbol syms dynstrtab (sh_size dynstr) [0..<unat nsyms])))"

definition elf_find_symbol_offset ::
  "(u64 \<Rightarrow> nat \<Rightarrow> byte list option) \<Rightarrow> (nat \<Rightarrow> bool) \<Rightarrow> string \<Rightarrow> (ac_elf_loc \<times> u64) option option" where
  "elf_find_symbol_offset rd alloc symbol =
     (case pread_all rd 0 EHDR_SIZE of
        None \<Rightarrow> Some None
      | Some bs \<Rightarrow>
          (let eh = get_ehdr bs
           in if take 4 (e_ident eh) \<noteq> [0x7F, 0x45, 0x4C, 0x46] then Some None
              else if e_ident eh ! 4 \<noteq> 2 \<or> e_ident eh ! 5 \<noteq> 1 then Some None
              else if e_shentsize eh \<noteq> SHDR_SIZE \<or> e_shnum eh = 0 \<or> e_shnum eh > AC_ELF_MAX_SHNUM \<or> e_shstrndx eh \<ge> e_shnum eh then Some None
              else if \<not> alloc (e_shnum eh * SHDR_SIZE) then Some None
              else case pread_all rd (e_shoff eh) (e_shnum eh * SHDR_SIZE) of
                None \<Rightarrow> Some None
              | Some shdrs \<Rightarrow>
                  (case find_sections rd alloc eh shdrs of
                     None \<Rightarrow> None
                   | Some None \<Rightarrow> Some None
                   | Some (Some (dynsym, dynstr)) \<Rightarrow> find_symbol rd alloc eh symbol dynsym dynstr)))"

subsection \<open>How much is compared\<close>

definition AC_HOOK_CHECK_DEFAULT_BYTES :: u64 where "AC_HOOK_CHECK_DEFAULT_BYTES = 32"
definition AC_HOOK_CHECK_MIN_BYTES :: u64 where "AC_HOOK_CHECK_MIN_BYTES = 8"
definition AC_HOOK_CHECK_MAX_BYTES :: u64 where "AC_HOOK_CHECK_MAX_BYTES = 512"

definition hook_checklen :: "ac_elf_loc \<Rightarrow> u64 \<Rightarrow> u64" where
  "hook_checklen loc sz =
     (let len = (if sz = 0 then AC_HOOK_CHECK_DEFAULT_BYTES
                 else if sz < AC_HOOK_CHECK_MIN_BYTES then AC_HOOK_CHECK_MIN_BYTES
                 else if sz > AC_HOOK_CHECK_MAX_BYTES then AC_HOOK_CHECK_MAX_BYTES
                 else sz)
      in if len > el_seg_end loc - el_file_off loc then el_seg_end loc - el_file_off loc else len)"

subsection \<open>No access outside a buffer\<close>

lemma chunk_Some: "(i + 1) * sz \<le> length buf \<Longrightarrow> \<exists>c. chunk sz buf i = Some c"
  by (simp add: chunk_def)

lemma chunk_array: "i < n \<Longrightarrow> length buf = n * sz \<Longrightarrow> \<exists>c. chunk sz buf i = Some c"
proof (rule chunk_Some)
  assume "i < n" "length buf = n * sz"
  then have "(i + 1) * sz \<le> n * sz" by (intro mult_le_mono1) auto
  then show "(i + 1) * sz \<le> length buf" using \<open>length buf = n * sz\<close> by simp
qed

lemma pread_all_length: "pread_all rd off n = Some bs \<Longrightarrow> length bs = n"
  by (auto simp: pread_all_def split: option.splits if_splits)

text \<open>A loop over program headers ends at the first that holds the address.\<close>

lemma phdr_loop_cases:
  assumes "\<forall>i \<in> set is. \<exists>c. chunk PHDR_SIZE buf i = Some c"
  shows "phdr_loop buf vaddr is = Some None \<or>
    (\<exists>i c. i \<in> set is \<and> chunk PHDR_SIZE buf i = Some c \<and> phdr_holds vaddr (get_phdr c) \<and> phdr_loop buf vaddr is = Some (Some (phdr_loc vaddr (get_phdr c))))"
  using assms
proof (induction "is")
  case (Cons j js)
  then obtain c where c: "chunk PHDR_SIZE buf j = Some c" by auto
  show ?case
  proof (cases "phdr_holds vaddr (get_phdr c)")
    case True
    then show ?thesis using c by (intro disjI2 exI [of _ j] exI [of _ c]) simp
  next
    case False
    then have "phdr_loop buf vaddr (j # js) = phdr_loop buf vaddr js" using c by simp
    then show ?thesis using Cons by (metis list.set_intros(2))
  qed
qed simp

text \<open>A location is inside its executable segment, without wrap-around.\<close>

definition loc_wf :: "ac_elf_loc \<Rightarrow> bool" where
  "loc_wf loc \<longleftrightarrow> el_seg_off loc \<le> el_file_off loc \<and> el_file_off loc < el_seg_end loc"

lemma phdr_loc_wf:
  assumes "phdr_holds vaddr ph"
  shows "loc_wf (phdr_loc vaddr ph)"
proof -
  define v where "v = vaddr - p_vaddr ph"
  have v: "v < p_filesz ph" and o: "p_offset ph \<le> - 1 - p_filesz ph" using assms by (auto simp: phdr_holds_def v_def)
  have "unat (p_offset ph) + unat (p_filesz ph) < 2 ^ 64"
  proof -
    have "unat (- 1 - p_filesz ph) = 2 ^ 64 - 1 - unat (p_filesz ph)"
      using unat_sub [of "p_filesz ph" "- 1"] by (simp add: unsigned_minus_1_eq_mask mask_eq_exp_minus_1)
    moreover have "unat (p_filesz ph) < 2 ^ 64" using unsigned_less [of "p_filesz ph", where ?'a = nat] by simp
    ultimately show ?thesis using o by (simp add: word_le_nat_alt)
  qed
  moreover have "unat v < unat (p_filesz ph)" using v by (simp add: word_less_nat_alt)
  ultimately show ?thesis unfolding loc_wf_def phdr_loc_def v_def [symmetric]
    by (simp add: word_le_nat_alt word_less_nat_alt unat_word_ariths)
qed

lemma checklen_bounds:
  assumes "loc_wf loc"
  shows "1 \<le> hook_checklen loc sz \<and> hook_checklen loc sz \<le> AC_HOOK_CHECK_MAX_BYTES \<and>
    unat (el_file_off loc) + unat (hook_checklen loc sz) \<le> unat (el_seg_end loc)"
proof -
  define left where "left = el_seg_end loc - el_file_off loc"
  define len where "len = (if sz = 0 then AC_HOOK_CHECK_DEFAULT_BYTES else if sz < AC_HOOK_CHECK_MIN_BYTES then AC_HOOK_CHECK_MIN_BYTES
     else if sz > AC_HOOK_CHECK_MAX_BYTES then AC_HOOK_CHECK_MAX_BYTES else sz)"
  have h: "hook_checklen loc sz = (if len > left then left else len)" by (simp add: hook_checklen_def len_def left_def Let_def)
  have "1 \<le> len" "len \<le> 512"
    by (auto simp: len_def AC_HOOK_CHECK_DEFAULT_BYTES_def AC_HOOK_CHECK_MIN_BYTES_def AC_HOOK_CHECK_MAX_BYTES_def word_less_nat_alt word_le_nat_alt unat_eq_zero [symmetric])
  moreover have "unat left = unat (el_seg_end loc) - unat (el_file_off loc)" "unat (el_file_off loc) < unat (el_seg_end loc)"
    using assms by (simp_all add: loc_wf_def left_def unat_sub word_less_nat_alt word_le_nat_alt)
  ultimately show ?thesis unfolding h by (auto simp: AC_HOOK_CHECK_MAX_BYTES_def word_less_nat_alt word_le_nat_alt)
qed

declare memchr0.simps [simp del] strcmp0.simps [simp del]

text \<open>The start-offset guards make both searches stay in the string table.\<close>

lemma name_bounded:
  fixes nm :: u32 and strsz :: u64
  assumes "length tab = unat strsz" and "\<not> ucast nm \<ge> strsz"
  shows "memchr0 tab (unat nm) (unat (strsz - ucast nm)) = Some (terminated tab (unat nm))"
proof -
  have u: "unat (ucast nm :: u64) = unat nm" by (simp add: unsigned_ucast_eq take_bit_nat_eq_self less_le_trans [OF unsigned_less])
  have "unat nm < unat strsz" using assms(2) u by (simp add: word_le_nat_alt)
  moreover from this have "unat (strsz - ucast nm) = unat strsz - unat nm" using u by (subst unat_sub) (simp_all add: word_le_nat_alt)
  ultimately show ?thesis using assms(1) by (intro memchr0_eq) simp
qed

lemma section_loop_safe:
  assumes "length strtab = unat strsz" and "\<forall>i \<in> set is. \<exists>c. chunk SHDR_SIZE shdrs i = Some c"
  shows "\<exists>f. section_loop shdrs strtab strsz is found = Some f"
  using assms(2)
proof (induction "is" arbitrary: found)
  case (Cons i "is")
  then obtain c where c: "chunk SHDR_SIZE shdrs i = Some c" by auto
  let ?sh = "get_shdr c"
  note m = name_bounded [OF assms(1), of "sh_name ?sh"]
  have ih: "\<exists>f. section_loop shdrs strtab strsz is g = Some f" for g using Cons by simp
  show ?case
  proof (cases "ucast (sh_name ?sh) \<ge> strsz \<or> \<not> terminated strtab (unat (sh_name ?sh))")
    case True
    then show ?thesis using ih [of found] c m by (cases "ucast (sh_name ?sh) \<ge> strsz") (simp_all add: Let_def)
  next
    case False
    then show ?thesis using ih c m strcmp0_eq [of strtab "unat (sh_name ?sh)"] by (simp add: Let_def)
  qed
qed simp

lemma symbol_loop_cases:
  assumes len: "length strtab = unat strsz" and "\<forall>i \<in> set is. \<exists>c. chunk SYM_SIZE syms i = Some c" and "\<And>s. locate s \<noteq> None"
  shows "symbol_loop locate symbol syms strtab strsz is = Some None \<or>
    (\<exists>i c loc. i \<in> set is \<and> chunk SYM_SIZE syms i = Some c \<and> buf_str strtab (unat (st_name (get_sym c))) = Some (takeWhile (\<lambda>c. c \<noteq> CHR 0x00) symbol) \<and>
       locate (get_sym c) = Some (Some loc) \<and> symbol_loop locate symbol syms strtab strsz is = Some (Some (loc, st_size (get_sym c))))"
  using assms(2)
proof (induction "is")
  case (Cons j js)
  then obtain c where c: "chunk SYM_SIZE syms j = Some c" by auto
  let ?s = "get_sym c"
  let ?skip = "st_name ?s = 0 \<or> ucast (st_name ?s) \<ge> strsz \<or> st_value ?s = 0"
  have m: "\<not> ?skip \<Longrightarrow> memchr0 strtab (unat (st_name ?s)) (unat (strsz - ucast (st_name ?s))) = Some (terminated strtab (unat (st_name ?s)))"
    using name_bounded [OF len, of "st_name ?s"] by blast
  note e = strcmp0_eq [of strtab "unat (st_name ?s)" symbol]
  show ?case
  proof (cases "?skip \<or> buf_str strtab (unat (st_name ?s)) \<noteq> Some (takeWhile (\<lambda>c. c \<noteq> CHR 0x00) symbol)")
    case True
    then have "symbol_loop locate symbol syms strtab strsz (j # js) = symbol_loop locate symbol syms strtab strsz js"
      using c m e by (cases ?skip; cases "terminated strtab (unat (st_name ?s))") (simp_all add: Let_def)
    then show ?thesis using Cons by (metis list.set_intros(2))
  next
    case False
    then have "terminated strtab (unat (st_name ?s))" by (auto simp: buf_str_def split: if_splits)
    then have l: "symbol_loop locate symbol syms strtab strsz (j # js) = (case locate ?s of None \<Rightarrow> None | Some None \<Rightarrow> Some None | Some (Some loc) \<Rightarrow> Some (Some (loc, st_size ?s)))"
      using False c m e by (simp add: Let_def)
    obtain r where r: "locate ?s = Some r" using assms(3) by blast
    show ?thesis
    proof (cases r)
      case (Some loc)
      then show ?thesis using False c l r by (intro disjI2 exI [of _ j] exI [of _ c] exI [of _ loc]) simp
    qed (use l r in simp)
  qed
qed simp

lemma vaddr_cases:
  "elf_vaddr_to_file_off rd alloc eh vaddr = Some None \<or>
    (\<exists>buf i c. pread_all rd (e_phoff eh) (e_phnum eh * PHDR_SIZE) = Some buf \<and> i < e_phnum eh \<and> chunk PHDR_SIZE buf i = Some c \<and>
       phdr_holds vaddr (get_phdr c) \<and> elf_vaddr_to_file_off rd alloc eh vaddr = Some (Some (phdr_loc vaddr (get_phdr c))))"
proof (cases "e_phentsize eh \<noteq> PHDR_SIZE \<or> e_phnum eh = 0 \<or> e_phnum eh > AC_ELF_MAX_PHNUM \<or> \<not> alloc (e_phnum eh * PHDR_SIZE) \<or>
    pread_all rd (e_phoff eh) (e_phnum eh * PHDR_SIZE) = None")
  case True
  then show ?thesis by (auto simp: elf_vaddr_to_file_off_def)
next
  case False
  then obtain buf where b: "pread_all rd (e_phoff eh) (e_phnum eh * PHDR_SIZE) = Some buf" by auto
  then have "\<forall>i \<in> set [0..<e_phnum eh]. \<exists>c. chunk PHDR_SIZE buf i = Some c" using chunk_array pread_all_length by auto
  from phdr_loop_cases [OF this, of vaddr] False b show ?thesis by (auto simp: elf_vaddr_to_file_off_def)
qed

text \<open>The 32-bit count of symbols never exceeds what the section holds.\<close>

lemma nsyms_fit:
  fixes sz :: u64
  assumes "length syms = unat sz" and "i < unat (ucast (sz div of_nat SYM_SIZE) :: u32)"
  shows "\<exists>c. chunk SYM_SIZE syms i = Some c"
proof (rule chunk_Some)
  have "unat (ucast (sz div of_nat SYM_SIZE) :: u32) \<le> unat (sz div of_nat SYM_SIZE)"
    by (simp add: unsigned_ucast_eq take_bit_eq_mod)
  also have "\<dots> = unat sz div SYM_SIZE" by (simp add: unat_div SYM_SIZE_def)
  finally have "i < unat sz div SYM_SIZE" using assms(2) by simp
  then have "(i + 1) * SYM_SIZE \<le> unat sz div SYM_SIZE * SYM_SIZE" by (intro mult_le_mono1) simp
  also have "\<dots> \<le> unat sz" by (rule div_times_less_eq_dividend)
  finally show "(i + 1) * SYM_SIZE \<le> length syms" using assms(1) by simp
qed

text \<open>
  What a location is: the first bytes of the file are a header, a symbol read from the file has the name in a string table
  read from the file, one of the program headers is loaded executable and holds the symbol's address, and the
  location is that address in the file.
\<close>

definition located :: "(u64 \<Rightarrow> nat \<Rightarrow> byte list option) \<Rightarrow> string \<Rightarrow> ac_elf_loc \<Rightarrow> u64 \<Rightarrow> bool" where
  "located rd symbol loc sz \<longleftrightarrow>
     (\<exists>hdr phdrs i p syms k s strtab. pread_all rd 0 EHDR_SIZE = Some hdr \<and>
        pread_all rd (e_phoff (get_ehdr hdr)) (e_phnum (get_ehdr hdr) * PHDR_SIZE) = Some phdrs \<and>
        i < e_phnum (get_ehdr hdr) \<and> chunk PHDR_SIZE phdrs i = Some p \<and>
        (\<exists>o1 n1 o2 n2. pread_all rd o1 n1 = Some syms \<and> pread_all rd o2 n2 = Some strtab) \<and> chunk SYM_SIZE syms k = Some s \<and>
        buf_str strtab (unat (st_name (get_sym s))) = Some (takeWhile (\<lambda>c. c \<noteq> CHR 0x00) symbol) \<and> sz = st_size (get_sym s) \<and>
        phdr_holds (st_value (get_sym s)) (get_phdr p) \<and> loc = phdr_loc (st_value (get_sym s)) (get_phdr p))"

lemma find_symbol_cases:
  assumes "pread_all rd 0 EHDR_SIZE = Some hdr"
  shows "find_symbol rd alloc (get_ehdr hdr) symbol dynsym dynstr = Some None \<or>
    (\<exists>loc sz. find_symbol rd alloc (get_ehdr hdr) symbol dynsym dynstr = Some (Some (loc, sz)) \<and> located rd symbol loc sz)"
proof -
  let ?eh = "get_ehdr hdr" and ?n = "ucast (sh_size dynsym div of_nat SYM_SIZE) :: u32"
  let ?loc = "\<lambda>sym. elf_vaddr_to_file_off rd alloc ?eh (st_value sym)"
  show ?thesis
  proof (cases "find_symbol rd alloc ?eh symbol dynsym dynstr = Some None")
    case False
    then obtain syms strtab where s: "pread_all rd (sh_offset dynsym) (unat (sh_size dynsym)) = Some syms"
      "pread_all rd (sh_offset dynstr) (unat (sh_size dynstr)) = Some strtab"
      "find_symbol rd alloc ?eh symbol dynsym dynstr = symbol_loop ?loc symbol syms strtab (sh_size dynstr) [0..<unat ?n]"
      by (auto simp: find_symbol_def Let_def split: if_splits option.splits)
    have c: "\<forall>i \<in> set [0..<unat ?n]. \<exists>c. chunk SYM_SIZE syms i = Some c" using nsyms_fit pread_all_length [OF s(1)] by auto
    have l: "?loc sym \<noteq> None" for sym using vaddr_cases [of rd alloc ?eh "st_value sym"] by auto
    obtain j c loc where r: "chunk SYM_SIZE syms j = Some c" "buf_str strtab (unat (st_name (get_sym c))) = Some (takeWhile (\<lambda>c. c \<noteq> CHR 0x00) symbol)" "?loc (get_sym c) = Some (Some loc)"
      "find_symbol rd alloc ?eh symbol dynsym dynstr = Some (Some (loc, st_size (get_sym c)))"
      using symbol_loop_cases [where locate = ?loc, OF pread_all_length [OF s(2)] c l, where symbol = symbol] s(3) False by auto
    from vaddr_cases [of rd alloc ?eh "st_value (get_sym c)"] r(3) obtain phdrs i p where
      "pread_all rd (e_phoff ?eh) (e_phnum ?eh * PHDR_SIZE) = Some phdrs" "i < e_phnum ?eh" "chunk PHDR_SIZE phdrs i = Some p"
      "phdr_holds (st_value (get_sym c)) (get_phdr p)" "loc = phdr_loc (st_value (get_sym c)) (get_phdr p)" by auto
    then have "located rd symbol loc (st_size (get_sym c))" using r(1,2) s(1,2) assms unfolding located_def by blast
    then show ?thesis using r(4) by blast
  qed simp
qed

lemma find_sections_safe:
  assumes "length shdrs = e_shnum eh * SHDR_SIZE" "e_shstrndx eh < e_shnum eh"
  shows "\<exists>r. find_sections rd alloc eh shdrs = Some r"
proof -
  have "\<forall>i \<in> set [0..<e_shnum eh]. \<exists>c. chunk SHDR_SIZE shdrs i = Some c" using chunk_array assms by auto
  then have "\<exists>f. section_loop shdrs t sz [0..<e_shnum eh] (None, None) = Some f" if "length t = unat sz" for t sz using section_loop_safe [OF that] by blast
  moreover obtain c where "chunk SHDR_SIZE shdrs (e_shstrndx eh) = Some c" using chunk_array assms by blast
  ultimately show ?thesis using pread_all_length [of rd "sh_offset (get_shdr c)" "unat (sh_size (get_shdr c))"]
    by (auto simp: find_sections_def Let_def split: option.split) (metis option.distinct(1))
qed

text \<open>C33: Whatever the library file contains, and even if it changes while it is read, finding a symbol never reads outside a
  buffer, neither for a table entry nor in the byte-wise searches and comparisons of the two string tables; a
  location that is returned is the address of a symbol with that name carried through an executable segment of the file, inside the
  segment and without wrap-around, and the bytes to compare are between one and 512 and end in the segment.\<close>

theorem elf_symbol_safe:
  "case elf_find_symbol_offset rd alloc symbol of
     None \<Rightarrow> False
   | Some None \<Rightarrow> True
   | Some (Some (loc, sz)) \<Rightarrow>
       located rd symbol loc sz \<and> el_seg_off loc \<le> el_file_off loc \<and> el_file_off loc < el_seg_end loc \<and>
       1 \<le> hook_checklen loc sz \<and> hook_checklen loc sz \<le> AC_HOOK_CHECK_MAX_BYTES \<and>
       unat (el_file_off loc) + unat (hook_checklen loc sz) \<le> unat (el_seg_end loc)"
proof (cases "pread_all rd 0 EHDR_SIZE")
  case None
  then show ?thesis by (simp add: elf_find_symbol_offset_def)
next
  case (Some hdr)
  let ?eh = "get_ehdr hdr"
  have wf: "located rd symbol loc sz \<Longrightarrow> loc_wf loc" for loc sz by (auto simp: located_def phdr_loc_wf)
  have f: "find_symbol rd alloc ?eh symbol dynsym dynstr = Some None \<or>
    (\<exists>loc sz. find_symbol rd alloc ?eh symbol dynsym dynstr = Some (Some (loc, sz)) \<and> located rd symbol loc sz)" for dynsym dynstr
    by (rule find_symbol_cases [OF Some])
  have "elf_find_symbol_offset rd alloc symbol = Some None \<or>
    (\<exists>loc sz. elf_find_symbol_offset rd alloc symbol = Some (Some (loc, sz)) \<and> located rd symbol loc sz)"
  proof (cases "elf_find_symbol_offset rd alloc symbol = Some None")
    case False
    then obtain shdrs where s: "pread_all rd (e_shoff ?eh) (e_shnum ?eh * SHDR_SIZE) = Some shdrs" "e_shstrndx ?eh < e_shnum ?eh"
      "elf_find_symbol_offset rd alloc symbol = (case find_sections rd alloc ?eh shdrs of None \<Rightarrow> None | Some None \<Rightarrow> Some None
         | Some (Some (dynsym, dynstr)) \<Rightarrow> find_symbol rd alloc ?eh symbol dynsym dynstr)"
      using Some by (auto simp: elf_find_symbol_offset_def Let_def split: if_splits option.splits)
    obtain r where r: "find_sections rd alloc ?eh shdrs = Some r" using find_sections_safe [OF pread_all_length [OF s(1)] s(2)] by blast
    show ?thesis using False s(3) r f by (cases r) auto
  qed simp
  then show ?thesis using wf checklen_bounds by (auto simp: loc_wf_def)
qed

text \<open>A library with one section of each kind and one symbol; every table at its own offset.\<close>

definition demo_hdr :: "byte list" where "demo_hdr = [127, 69, 76, 70, 2, 1, 0, 0, 0, 0, 0, 0, 0, 0, 0, 0, 3, 0, 62, 0, 1, 0, 0, 0, 0, 0, 0, 0, 0, 0, 0, 0, 1, 0, 0, 0, 0, 0, 0, 0, 2, 0, 0, 0, 0, 0, 0, 0, 0, 0, 0, 0, 64, 0, 56, 0, 1, 0, 64, 0, 3, 0, 0, 0]"
definition demo_ph :: "byte list" where "demo_ph = [1, 0, 0, 0, 5, 0, 0, 0, 0, 16, 0, 0, 0, 0, 0, 0, 0, 16, 0, 0, 0, 0, 0, 0, 0, 16, 0, 0, 0, 0, 0, 0, 0, 1, 0, 0, 0, 0, 0, 0, 0, 1, 0, 0, 0, 0, 0, 0, 0, 16, 0, 0, 0, 0, 0, 0]"
definition demo_sh0 :: "byte list" where "demo_sh0 = [0, 0, 0, 0, 3, 0, 0, 0, 0, 0, 0, 0, 0, 0, 0, 0, 0, 0, 0, 0, 0, 0, 0, 0, 3, 0, 0, 0, 0, 0, 0, 0, 17, 0, 0, 0, 0, 0, 0, 0, 0, 0, 0, 0, 0, 0, 0, 0, 0, 0, 0, 0, 0, 0, 0, 0, 0, 0, 0, 0, 0, 0, 0, 0]"
definition demo_sh1 :: "byte list" where "demo_sh1 = [1, 0, 0, 0, 11, 0, 0, 0, 0, 0, 0, 0, 0, 0, 0, 0, 0, 0, 0, 0, 0, 0, 0, 0, 4, 0, 0, 0, 0, 0, 0, 0, 24, 0, 0, 0, 0, 0, 0, 0, 0, 0, 0, 0, 0, 0, 0, 0, 0, 0, 0, 0, 0, 0, 0, 0, 24, 0, 0, 0, 0, 0, 0, 0]"
definition demo_sh2 :: "byte list" where "demo_sh2 = [9, 0, 0, 0, 3, 0, 0, 0, 0, 0, 0, 0, 0, 0, 0, 0, 0, 0, 0, 0, 0, 0, 0, 0, 5, 0, 0, 0, 0, 0, 0, 0, 4, 0, 0, 0, 0, 0, 0, 0, 0, 0, 0, 0, 0, 0, 0, 0, 0, 0, 0, 0, 0, 0, 0, 0, 0, 0, 0, 0, 0, 0, 0, 0]"
definition demo_sym :: "byte list" where "demo_sym = [1, 0, 0, 0, 0, 0, 0, 0, 16, 16, 0, 0, 0, 0, 0, 0, 32, 0, 0, 0, 0, 0, 0, 0]"
definition demo_shstr :: "byte list" where "demo_shstr = [0, 46, 100, 121, 110, 115, 121, 109, 0, 46, 100, 121, 110, 115, 116, 114, 0]"

definition demo_elf :: "u64 \<Rightarrow> nat \<Rightarrow> byte list option" where
  "demo_elf off n =
     (if off = 0 then Some demo_hdr
      else if off = 1 then Some demo_ph
      else if off = 2 then Some (demo_sh0 @ demo_sh1 @ demo_sh2)
      else if off = 3 then Some demo_shstr
      else if off = 4 then Some demo_sym
      else if off = 0x1010 then Some (replicate n 0x90)
      else Some [0, 97, 98, 0])"

lemmas demo_lists = demo_hdr_def demo_ph_def demo_sh0_def demo_sh1_def demo_sh2_def demo_sym_def demo_shstr_def

lemma demo_lengths: "length demo_hdr = 64" "length demo_ph = 56" "length demo_sh0 = 64" "length demo_sh1 = 64" "length demo_sh2 = 64" "length demo_sym = 24" "length demo_shstr = 17"
  by (simp_all add: demo_lists)

lemma demo_elf_entries:
  "get_ehdr demo_hdr = \<lparr>e_ident = [127, 69, 76, 70, 2, 1, 0, 0, 0, 0, 0, 0, 0, 0, 0, 0], e_phoff = 1, e_shoff = 2, e_phentsize = 56, e_phnum = 1, e_shentsize = 64, e_shnum = 3, e_shstrndx = 0\<rparr>"
  "get_phdr demo_ph = \<lparr>p_type = 1, p_flags = 5, p_offset = 0x1000, p_vaddr = 0x1000, p_filesz = 0x100\<rparr>"
  "get_shdr demo_sh0 = \<lparr>sh_name = 0, sh_type = 3, sh_offset = 3, sh_size = 17, sh_entsize = 0\<rparr>"
  "get_shdr demo_sh1 = \<lparr>sh_name = 1, sh_type = 11, sh_offset = 4, sh_size = 24, sh_entsize = 24\<rparr>"
  "get_shdr demo_sh2 = \<lparr>sh_name = 9, sh_type = 3, sh_offset = 5, sh_size = 4, sh_entsize = 0\<rparr>"
  "get_sym demo_sym = \<lparr>st_name = 1, st_value = 0x1010, st_size = 0x20\<rparr>"
  by (simp_all add: demo_lists get_ehdr_def get_phdr_def get_shdr_def get_sym_def fld_def fldn_def le_val_def)

lemma demo_chunks:
  "chunk SHDR_SIZE (demo_sh0 @ demo_sh1 @ demo_sh2) 0 = Some demo_sh0" "chunk SHDR_SIZE (demo_sh0 @ demo_sh1 @ demo_sh2) 1 = Some demo_sh1"
  "chunk SHDR_SIZE (demo_sh0 @ demo_sh1 @ demo_sh2) 2 = Some demo_sh2" "chunk PHDR_SIZE demo_ph 0 = Some demo_ph" "chunk SYM_SIZE demo_sym 0 = Some demo_sym"
  by (simp_all add: chunk_def SHDR_SIZE_def PHDR_SIZE_def SYM_SIZE_def demo_lengths)

lemma demo_strs:
  "buf_str demo_shstr 0 = Some []" "buf_str demo_shstr 1 = Some ''.dynsym''" "buf_str demo_shstr 9 = Some ''.dynstr''" "buf_str [0, 97, 98, 0] 1 = Some ''ab''"
  "terminated demo_shstr 0" "terminated demo_shstr 1" "terminated demo_shstr 9" "terminated [0, 97, 98, 0] 1"
  by (simp_all add: buf_str_def terminated_def demo_shstr_def char_of_def bit_simps)

lemma demo_strings:
  "memchr0 demo_shstr 0 17 = Some True" "memchr0 demo_shstr 1 16 = Some True" "memchr0 demo_shstr 9 8 = Some True" "memchr0 [0, 97, 98, 0] 1 3 = Some True"
  "strcmp0 demo_shstr 0 ''.dynstr'' = Some False" "strcmp0 demo_shstr 1 ''.dynsym'' = Some True" "strcmp0 demo_shstr 9 ''.dynstr'' = Some True"
  "strcmp0 [0, 97, 98, 0] 1 ''ab'' = Some True"
  by (simp_all add: memchr0_eq demo_lengths demo_strs strcmp0_eq del: One_nat_def)

lemma demo_elf_reads:
  "pread_all demo_elf 0 64 = Some demo_hdr" "pread_all demo_elf 1 56 = Some demo_ph" "pread_all demo_elf 2 192 = Some (demo_sh0 @ demo_sh1 @ demo_sh2)"
  "pread_all demo_elf 3 17 = Some demo_shstr" "pread_all demo_elf 4 24 = Some demo_sym" "pread_all demo_elf 5 4 = Some [0, 97, 98, 0]"
  by (simp_all add: pread_all_def demo_elf_def demo_lengths)

lemma demo_elf_finds:
  "elf_find_symbol_offset demo_elf (\<lambda>_. True) ''ab'' =
     Some (Some (\<lparr>el_file_off = 0x1010, el_seg_off = 0x1000, el_seg_end = 0x1100\<rparr>, 0x20))"
proof -
  define eh where "eh = get_ehdr demo_hdr"
  have f: "e_ident eh = [127, 69, 76, 70, 2, 1, 0, 0, 0, 0, 0, 0, 0, 0, 0, 0]" "e_phoff eh = 1" "e_shoff eh = 2" "e_phentsize eh = 56" "e_phnum eh = 1"
    "e_shentsize eh = 64" "e_shnum eh = 3" "e_shstrndx eh = 0" by (simp_all add: eh_def demo_elf_entries)
  have u: "[0..<3] = [0, 1, 2 :: nat]" "[0..<1] = [0 :: nat]" by (simp_all add: upt_rec)
  have s: "find_sections demo_elf (\<lambda>_. True) eh (demo_sh0 @ demo_sh1 @ demo_sh2) = Some (Some (get_shdr demo_sh1, get_shdr demo_sh2))"
    by (simp add: find_sections_def f demo_elf_entries demo_chunks demo_elf_reads demo_strings u AC_ELF_MAX_STRTAB_def SHT_DYNSYM_def SHT_STRTAB_def
        Let_def word_le_nat_alt del: One_nat_def)
  have "phdr_loop demo_ph 0x1010 [0] = Some (Some \<lparr>el_file_off = 0x1010, el_seg_off = 0x1000, el_seg_end = 0x1100\<rparr>)"
    by (simp add: demo_chunks demo_elf_entries phdr_holds_def phdr_loc_def PT_LOAD_def PF_X_def word_le_nat_alt word_less_nat_alt)
  then have l: "elf_vaddr_to_file_off demo_elf (\<lambda>_. True) eh 0x1010 = Some (Some \<lparr>el_file_off = 0x1010, el_seg_off = 0x1000, el_seg_end = 0x1100\<rparr>)"
    unfolding elf_vaddr_to_file_off_def f PHDR_SIZE_def AC_ELF_MAX_PHNUM_def mult_1 demo_elf_reads u by simp
  have y: "find_symbol demo_elf (\<lambda>_. True) eh ''ab'' (get_shdr demo_sh1) (get_shdr demo_sh2) =
      Some (Some (\<lparr>el_file_off = 0x1010, el_seg_off = 0x1000, el_seg_end = 0x1100\<rparr>, 0x20))"
    by (simp add: find_symbol_def demo_elf_entries AC_ELF_MAX_STRTAB_def AC_ELF_MAX_SYMS_def demo_elf_reads demo_chunks [unfolded SYM_SIZE_def] demo_strings l u Let_def word_le_nat_alt word_less_nat_alt
        SYM_SIZE_def del: One_nat_def)
  show ?thesis
    by (simp add: elf_find_symbol_offset_def EHDR_SIZE_def SHDR_SIZE_def demo_elf_reads eh_def [symmetric] f AC_ELF_MAX_SHNUM_def Let_def s y)
qed

theorem elf_symbol_safe_witness:
  "located demo_elf ''ab'' \<lparr>el_file_off = 0x1010, el_seg_off = 0x1000, el_seg_end = 0x1100\<rparr> 0x20"
  using elf_symbol_safe [of demo_elf "''ab''" "\<lambda>_. True"] by (simp add: demo_elf_finds)

end
