(* ===== verification/AC_Client.thy ===== *)
theory AC_Client
  imports AC_Device AC_Report
begin

text \<open>
  The daemon's side of the device, \<^verbatim>\<open>src/src/anticheat_daemon.c\<close>: its log, the clamps on counts that come from the
  module, and the walks over a snapshot of a process's mappings.  The device is a parameter of type \<open>'w ac_dio\<close>; the
  locale \<open>scan_device\<close> states what a walk relies on, and the module's own \<^const>\<open>ac_ioctl\<close> is shown to provide it.
\<close>

subsection \<open>Device, log and state\<close>

type_synonym 'w ac_dio = "ac_cmd \<Rightarrow> ac_user \<Rightarrow> 'w \<Rightarrow> int \<times> ac_reply \<times> 'w"
type_synonym ac_log = "(nat \<times> string) list"

text \<open>The calls of \<^verbatim>\<open>logmsg\<close> so far (priority and text before truncation), and the world behind the device.\<close>

record 'w ac_client =
  cl_log :: ac_log
  cl_dev :: 'w

definition log_at :: "nat \<Rightarrow> string \<Rightarrow> ('w, 'a) ac_client_scheme \<Rightarrow> ('w, 'a) ac_client_scheme" where
  "log_at pri msg d = d\<lparr>cl_log := cl_log d @ [(pri, msg)]\<rparr>"

definition dev_ioctl :: "'w ac_dio \<Rightarrow> ac_cmd \<Rightarrow> ac_user \<Rightarrow> ('w, 'a) ac_client_scheme \<Rightarrow> int \<times> ac_reply \<times> ('w, 'a) ac_client_scheme" where
  "dev_ioctl io cmd ub d = (case io cmd ub (cl_dev d) of (ret, r, w) \<Rightarrow> (ret, r, d\<lparr>cl_dev := w\<rparr>))"

text \<open>An argument in the daemon's memory: nothing to read, and writable.\<close>

definition user0 :: ac_user where
  "user0 = \<lparr>ub_proc = None, ub_scan_begin = None, ub_scan_get = None, ub_mod_get = None, ub_events = None, ub_writable = True\<rparr>"

subsection \<open>Clamps\<close>

definition clamp_event_count :: "nat \<Rightarrow> ('w, 'a) ac_client_scheme \<Rightarrow> nat \<times> ('w, 'a) ac_client_scheme" where
  "clamp_event_count n d =
     (if n > AC_MAX_EVENTS
      then (AC_MAX_EVENTS, log_at LOG_WARNING (''kernel reported '' @ fmt_u n @ '' events (max '' @ fmt_u AC_MAX_EVENTS @ ''); truncating'') d)
      else (n, d))"

definition clamp_prot_count :: "nat \<Rightarrow> ('w, 'a) ac_client_scheme \<Rightarrow> nat \<times> ('w, 'a) ac_client_scheme" where
  "clamp_prot_count n d =
     (if n > AC_MAX_PROTS
      then (AC_MAX_PROTS, log_at LOG_WARNING (''kernel reported '' @ fmt_u n @ '' protected processes (max '' @ fmt_u AC_MAX_PROTS @ ''); truncating'') d)
      else (n, d))"

definition clamp_vma_count :: "nat \<Rightarrow> ('w, 'a) ac_client_scheme \<Rightarrow> nat \<times> ('w, 'a) ac_client_scheme" where
  "clamp_vma_count n d =
     (if n > AC_MAX_VMAS
      then (AC_MAX_VMAS, log_at LOG_WARNING (''kernel reported '' @ fmt_u n @ '' VMAs (max '' @ fmt_u AC_MAX_VMAS @ ''); truncating'') d)
      else (n, d))"

subsection \<open>Calls with their structures\<close>

text \<open>
  Each call zeroes its structure, fills in the request and passes its address; what the structure holds afterwards is
  what the module copied out, or what was passed in when it copied nothing.
\<close>

definition scan_begin_arg :: "pid_t \<Rightarrow> pid_t \<Rightarrow> int \<Rightarrow> ac_scan_begin" where
  "scan_begin_arg pid ref_pid emit =
     \<lparr>sb_pid = pid, sb_ref_pid = ref_pid, sb_emit_events = emit, sb_resolved_pid = 0, sb_n_vmas = 0, sb_rwx_count = 0,
      sb_exec_count = 0, sb_anon_exec_count = 0, sb_truncated = 0\<rparr>"

definition vma_zero :: ac_vma_info where
  "vma_zero = \<lparr>vi_start = 0, vi_end = 0, vi_offset = 0, vi_inode = 0, vi_flags = 0, vi_is_file = 0, vi_path = []\<rparr>"

definition call_scan_begin ::
  "'w ac_dio \<Rightarrow> pid_t \<Rightarrow> pid_t \<Rightarrow> int \<Rightarrow> ('w, 'a) ac_client_scheme \<Rightarrow> int \<times> ac_scan_begin \<times> ('w, 'a) ac_client_scheme" where
  "call_scan_begin io pid ref_pid emit d =
     (let b = scan_begin_arg pid ref_pid emit
      in case dev_ioctl io AC_IOCTL_SCAN_BEGIN (user0\<lparr>ub_scan_begin := Some b\<rparr>) d of (ret, r, d1) \<Rightarrow>
           (ret, (case r of R_scan_begin b' \<Rightarrow> b' | _ \<Rightarrow> b), d1))"

definition call_scan_get ::
  "'w ac_dio \<Rightarrow> pid_t \<Rightarrow> nat \<Rightarrow> ('w, 'a) ac_client_scheme \<Rightarrow> int \<times> ac_vma_info \<times> ('w, 'a) ac_client_scheme" where
  "call_scan_get io pid v d =
     (let g = \<lparr>sg_pid = pid, sg_index = of_nat v, sg_vma = vma_zero\<rparr>
      in case dev_ioctl io AC_IOCTL_SCAN_GET (user0\<lparr>ub_scan_get := Some g\<rparr>) d of (ret, r, d1) \<Rightarrow>
           (ret, (case r of R_scan_get g' \<Rightarrow> sg_vma g' | _ \<Rightarrow> vma_zero), d1))"

definition call_scan_end :: "'w ac_dio \<Rightarrow> ('w, 'a) ac_client_scheme \<Rightarrow> ('w, 'a) ac_client_scheme" where
  "call_scan_end io d = snd (snd (dev_ioctl io AC_IOCTL_SCAN_END user0 d))"

definition call_list_protected :: "'w ac_dio \<Rightarrow> ('w, 'a) ac_client_scheme \<Rightarrow> int \<times> ac_prot_list \<times> ('w, 'a) ac_client_scheme" where
  "call_list_protected io d =
     (case dev_ioctl io AC_IOCTL_LIST_PROTECTED user0 d of (ret, r, d1) \<Rightarrow>
        (ret, (case r of R_prots pl \<Rightarrow> pl | _ \<Rightarrow> \<lparr>pl_count = 0, pl_items = []\<rparr>), d1))"

text \<open>
  The loop over \<^verbatim>\<open>AC_IOCTL_SCAN_GET\<close> that every walk has: a failed call leaves it at once (the result says so), otherwise
  the body sees the entry and says whether to break.
\<close>

fun scan_loop ::
  "'w ac_dio \<Rightarrow> pid_t \<Rightarrow> (ac_vma_info \<Rightarrow> 'r \<Rightarrow> bool \<times> 'r) \<Rightarrow> nat list \<Rightarrow> 'r \<Rightarrow> ('w, 'a) ac_client_scheme \<Rightarrow>
     bool \<times> 'r \<times> ('w, 'a) ac_client_scheme" where
  "scan_loop io pid body [] r d = (False, r, d)"
| "scan_loop io pid body (v # vs) r d =
     (case call_scan_get io pid v d of (ret, vi, d1) \<Rightarrow>
        if ret < 0 then (True, r, d1)
        else case body vi r of (brk, r1) \<Rightarrow> if brk then (False, r1, d1) else scan_loop io pid body vs r1 d1)"

text \<open>The same loop over the entries themselves.\<close>

fun walk_list :: "(ac_vma_info \<Rightarrow> 'r \<Rightarrow> bool \<times> 'r) \<Rightarrow> ac_vma_info list \<Rightarrow> 'r \<Rightarrow> 'r" where
  "walk_list body [] r = r"
| "walk_list body (vi # vis) r = (case body vi r of (brk, r1) \<Rightarrow> if brk then r1 else walk_list body vis r1)"

subsection \<open>What a walk relies on\<close>

text \<open>
  \<open>walk\<close> says what a scan of a process finds: the process it resolved to, its first entries and whether there are more,
  or \<open>None\<close> when the scan fails; \<open>held\<close> is the snapshot that the open file holds.
\<close>

locale scan_device =
  fixes io :: "'w ac_dio"
    and ready :: "'w \<Rightarrow> bool"
    and held :: "'w \<Rightarrow> ac_vma_info list option"
    and walk :: "pid_t \<Rightarrow> pid_t \<Rightarrow> (pid_t \<times> ac_vma_info list \<times> bool) option"
  assumes begin_fails: "ready w \<Longrightarrow> walk pid ref_pid = None \<Longrightarrow>
      \<exists>ret w'. io AC_IOCTL_SCAN_BEGIN (user0\<lparr>ub_scan_begin := Some (scan_begin_arg pid ref_pid emit)\<rparr>) w = (ret, R_none, w') \<and>
        ret < 0 \<and> ready w'"
    and begin_succeeds: "ready w \<Longrightarrow> walk pid ref_pid = Some (rp, vs, trunc) \<Longrightarrow>
      \<exists>b w'. io AC_IOCTL_SCAN_BEGIN (user0\<lparr>ub_scan_begin := Some (scan_begin_arg pid ref_pid emit)\<rparr>) w = (0, R_scan_begin b, w') \<and>
        sb_n_vmas b = length vs \<and> sb_truncated b = of_bool trunc \<and> sb_resolved_pid b = rp \<and>
        sb_anon_exec_count b = length (filter (\<lambda>v. vi_is_file v = 0 \<and> is_exec (vi_flags v)) vs) \<and>
        ready w' \<and> held w' = Some vs"
    and get_entry: "ready w \<Longrightarrow> held w = Some vs \<Longrightarrow> v < length vs \<Longrightarrow> v < 2 ^ 32 \<Longrightarrow>
      \<exists>g w'. io AC_IOCTL_SCAN_GET (user0\<lparr>ub_scan_get := Some \<lparr>sg_pid = pid, sg_index = of_nat v, sg_vma = vma_zero\<rparr>\<rparr>) w = (0, R_scan_get g, w') \<and>
        sg_vma g = vs ! v \<and> ready w' \<and> held w' = Some vs"
    and end_ready: "ready w \<Longrightarrow> ready (snd (snd (io AC_IOCTL_SCAN_END user0 w)))"
    and walk_bound: "walk pid ref_pid = Some (rp, vs, trunc) \<Longrightarrow> length vs \<le> AC_MAX_VMAS"
begin

lemma scan_loop_walk:
  assumes "ready (cl_dev d)" and "held (cl_dev d) = Some vs" and "n \<le> length vs" and "length vs \<le> AC_MAX_VMAS"
  shows "\<exists>w'. scan_loop io pid body [n..<length vs] r d = (False, walk_list body (drop n vs) r, d\<lparr>cl_dev := w'\<rparr>) \<and> ready w'"
  using assms
proof (induction "length vs - n" arbitrary: n r d)
  case 0
  then have "n = length vs" by simp
  with 0 show ?case by (intro exI [of _ "cl_dev d"]) simp
next
  case (Suc k)
  then have n: "n < length vs" "n < 2 ^ 32" by (auto simp: AC_MAX_VMAS_def)
  obtain g w1 where g: "io AC_IOCTL_SCAN_GET (user0\<lparr>ub_scan_get := Some \<lparr>sg_pid = pid, sg_index = of_nat n, sg_vma = vma_zero\<rparr>\<rparr>) (cl_dev d) = (0, R_scan_get g, w1)"
    "sg_vma g = vs ! n" "ready w1" "held w1 = Some vs"
    using get_entry [OF Suc.prems(1,2) n] by blast
  have c: "call_scan_get io pid n d = (0, vs ! n, d\<lparr>cl_dev := w1\<rparr>)"
    using g by (simp add: call_scan_get_def dev_ioctl_def)
  have d: "drop n vs = vs ! n # drop (Suc n) vs" and u: "[n..<length vs] = n # [Suc n..<length vs]"
    using n by (simp_all add: Cons_nth_drop_Suc upt_conv_Cons)
  obtain brk r1 where b: "body (vs ! n) r = (brk, r1)" by fastforce
  show ?case
  proof (cases brk)
    case True
    then show ?thesis using c b g by (intro exI [of _ w1]) (simp add: d u)
  next
    case False
    have "\<exists>w'. scan_loop io pid body [Suc n..<length vs] r1 (d\<lparr>cl_dev := w1\<rparr>) =
        (False, walk_list body (drop (Suc n) vs) r1, d\<lparr>cl_dev := w1\<rparr>\<lparr>cl_dev := w'\<rparr>) \<and> ready w'"
      using Suc g n by (intro Suc.hyps(1)) auto
    then show ?thesis using c b False by (auto simp: d u)
  qed
qed

end

subsection \<open>The module is such a device\<close>

text \<open>The daemon's calls reach \<^const>\<open>ac_ioctl\<close> with its privilege and the native ABI, on the state of its open file and of the module.\<close>

definition kernel_io :: "'a ac_dev_scheme def_ops \<Rightarrow> 'a ac_dev_scheme dev_env \<Rightarrow> (ac_fd_state option \<times> 'a ac_dev_scheme) ac_dio" where
  "kernel_io k ev cmd ub w =
     (case ac_ioctl k (ev\<lparr>de_capable := True, de_compat := False\<rparr>) cmd ub (fst w) (snd w) of
        Some (ret, r, pd, s) \<Rightarrow> (ret, r, pd, s)
      | None \<Rightarrow> (- EFAULT, R_none, w))"

definition kernel_ready :: "'a dev_env \<Rightarrow> ac_fd_state option \<times> 's \<Rightarrow> bool" where
  "kernel_ready ev w \<longleftrightarrow> pd_wf (fst w) \<and> (fst w \<noteq> None \<or> de_alloc_fd ev)"

definition kernel_held :: "ac_fd_state option \<times> 's \<Rightarrow> ac_vma_info list option" where
  "kernel_held w = Option.bind (fst w) fs_vmas"

definition scan_target :: "'a dev_env \<Rightarrow> pid_t \<Rightarrow> pid_t \<Rightarrow> ktask option" where
  "scan_target ev pid ref_pid =
     (if ref_pid > 0 then ac_find_task_in_ns_of (de_tasks ev) pid ref_pid else ac_find_task (de_tasks ev) pid)"

definition kernel_walk :: "'a dev_env \<Rightarrow> pid_t \<Rightarrow> pid_t \<Rightarrow> (pid_t \<times> ac_vma_info list \<times> bool) option" where
  "kernel_walk ev pid ref_pid =
     (case scan_target ev pid ref_pid of
        None \<Rightarrow> None
      | Some t \<Rightarrow>
          if tk_mm t = 0 \<or> \<not> de_alloc_snapshot ev then None
          else Some (tk_pid t, map (vma_entry (de_alloc_path ev)) (take AC_MAX_VMAS (de_vmas ev (tk_mm t))),
                     AC_MAX_VMAS < length (de_vmas ev (tk_mm t))))"

lemma vma_entry_fields:
  "vi_start (vma_entry p v) = vm_start v" "vi_end (vma_entry p v) = vm_end v" "vi_flags (vma_entry p v) = vm_flags v"
  "vi_offset (vma_entry p v) = push_bit 12 (vm_pgoff v)" "vi_is_file (vma_entry p v) = 0 \<longleftrightarrow> vm_file v = None"
  by (simp_all add: vma_entry_def Let_def split: option.split)

lemma anon_entries:
  "length (filter (\<lambda>v. vi_is_file v = 0 \<and> is_exec (vi_flags v)) (map (vma_entry p) vs)) =
     length (filter (\<lambda>v. vm_file v = None \<and> is_exec (vm_flags v)) vs)"
  by (simp add: filter_map comp_def vma_entry_fields)

interpretation kdev: scan_device "kernel_io k ev" "kernel_ready ev" kernel_held "kernel_walk ev" for k ev
proof
  fix w :: "ac_fd_state option \<times> 'a ac_dev_scheme" and pid ref_pid :: pid_t and emit :: int
  assume r: "kernel_ready ev w"
  then obtain st where st: "ac_get_fd_state (de_alloc_fd ev) (fst w) = Some st" "fd_wf st"
    by (cases "fst w") (auto simp: kernel_ready_def ac_get_fd_state_def)
  {
    assume "kernel_walk ev pid ref_pid = None"
    with st show "\<exists>ret w'. kernel_io k ev AC_IOCTL_SCAN_BEGIN (user0\<lparr>ub_scan_begin := Some (scan_begin_arg pid ref_pid emit)\<rparr>) w = (ret, R_none, w') \<and>
        ret < 0 \<and> kernel_ready ev w'"
      by (auto simp: kernel_walk_def scan_target_def kernel_io_def ac_ioctl_def ioctl_scan_begin_def vma_snapshot_cases user0_def
          scan_begin_arg_def scan_reset_def kernel_ready_def fd_wf_def ESRCH_def ENOMEM_def split: option.splits if_splits)
  next
    fix rp vs trunc
    assume "kernel_walk ev pid ref_pid = Some (rp, vs, trunc)"
    then obtain t where t: "scan_target ev pid ref_pid = Some t" "tk_mm t \<noteq> 0" "de_alloc_snapshot ev" "rp = tk_pid t"
      "vs = map (vma_entry (de_alloc_path ev)) (take AC_MAX_VMAS (de_vmas ev (tk_mm t)))" "trunc = (AC_MAX_VMAS < length (de_vmas ev (tk_mm t)))"
      by (auto simp: kernel_walk_def split: option.splits if_splits)
    let ?st = "scan_state (de_alloc_path ev) (tk_pid t) (de_vmas ev (tk_mm t)) st"
    have e: "\<exists>s1. kernel_io k ev AC_IOCTL_SCAN_BEGIN (user0\<lparr>ub_scan_begin := Some (scan_begin_arg pid ref_pid emit)\<rparr>) w =
        (0, R_scan_begin ((scan_begin_arg pid ref_pid emit)\<lparr>sb_resolved_pid := fs_resolved_pid ?st, sb_n_vmas := fs_n_vmas ?st,
           sb_rwx_count := fs_rwx_count ?st, sb_exec_count := fs_exec_count ?st, sb_anon_exec_count := fs_anon_exec_count ?st,
           sb_truncated := fs_truncated ?st\<rparr>), Some ?st, s1)"
      using st(1) t(1-3) by (simp add: kernel_io_def ac_ioctl_def ioctl_scan_begin_def vma_snapshot_cases scan_target_def user0_def
          scan_begin_arg_def copy_out_def Let_def)
    have f: "fs_n_vmas ?st = length vs" "fs_truncated ?st = of_bool trunc" "fs_resolved_pid ?st = rp" "fs_vmas ?st = Some vs"
      "fs_anon_exec_count ?st = length (filter (\<lambda>v. vi_is_file v = 0 \<and> is_exec (vi_flags v)) vs)"
      using anon_entries [of "de_alloc_path ev" "take AC_MAX_VMAS (de_vmas ev (tk_mm t))"] by (simp_all add: scan_state_def t(4-6) Let_def)
    have g: "fd_wf ?st" using st(2) by (rule fd_wf_scan)
    show "\<exists>b w'. kernel_io k ev AC_IOCTL_SCAN_BEGIN (user0\<lparr>ub_scan_begin := Some (scan_begin_arg pid ref_pid emit)\<rparr>) w = (0, R_scan_begin b, w') \<and>
        sb_n_vmas b = length vs \<and> sb_truncated b = of_bool trunc \<and> sb_resolved_pid b = rp \<and>
        sb_anon_exec_count b = length (filter (\<lambda>v. vi_is_file v = 0 \<and> is_exec (vi_flags v)) vs) \<and>
        kernel_ready ev w' \<and> kernel_held w' = Some vs"
      using e f g by (auto simp: kernel_ready_def kernel_held_def simp del: filter_map)
  }
next
  fix w :: "ac_fd_state option \<times> 'a ac_dev_scheme" and vs v pid
  assume "kernel_ready ev w" "kernel_held w = Some vs" "v < length vs" "v < (2 :: nat) ^ 32"
  then show "\<exists>g w'. kernel_io k ev AC_IOCTL_SCAN_GET (user0\<lparr>ub_scan_get := Some \<lparr>sg_pid = pid, sg_index = of_nat v, sg_vma = vma_zero\<rparr>\<rparr>) w = (0, R_scan_get g, w') \<and>
        sg_vma g = vs ! v \<and> kernel_ready ev w' \<and> kernel_held w' = Some vs"
    by (cases w; cases "fst w") (auto simp: kernel_ready_def kernel_held_def kernel_io_def ac_ioctl_def ioctl_scan_get_def user0_def copy_out_def
        fd_wf_def unat_of_nat)
next
  fix w :: "ac_fd_state option \<times> 'a ac_dev_scheme"
  assume "kernel_ready ev w"
  then show "kernel_ready ev (snd (snd (kernel_io k ev AC_IOCTL_SCAN_END user0 w)))"
    using scan_end_wf [of "fst w"] by (cases "fst w") (auto simp: kernel_ready_def kernel_io_def ac_ioctl_def ioctl_scan_end_def)
next
  fix pid ref_pid rp vs trunc
  assume "kernel_walk ev pid ref_pid = Some (rp, vs, trunc)"
  then show "length vs \<le> AC_MAX_VMAS" by (auto simp: kernel_walk_def split: option.splits if_splits)
qed

end
