(* ===== verification/AC_Render.thy ===== *)
theory AC_Render
  imports AC_Client AC_Elf
begin

text \<open>
  The render-hook check of \<^verbatim>\<open>src/src/anticheat_daemon.c\<close>: for every executable mapping of a rendering library, the bytes of
  its present call in memory are compared with the mapped file, and a difference counts only inside the library's own span.
\<close>

subsection \<open>Mapped files\<close>

record file_stat =
  fs_reg :: bool
  fs_dev :: u64
  fs_ino :: u64

record ac_map_id =
  id_dev :: u64
  id_ino :: u64

text \<open>
  What the daemon sees of the system during a check: \<^verbatim>\<open>stat\<close>, \<^verbatim>\<open>open\<close> with the \<^verbatim>\<open>fstat\<close> and \<^verbatim>\<open>pread\<close> of the opened file, allocation,
  whether \<^verbatim>\<open>kill(pid, 0)\<close> finds the process, and the reads from its memory.
\<close>

record render_fs =
  rf_stat :: "string \<Rightarrow> file_stat option"
  rf_open :: "string \<Rightarrow> (file_stat option \<times> (u64 \<Rightarrow> nat \<Rightarrow> byte list option)) option"
  rf_alloc :: "nat \<Rightarrow> bool"
  rf_alive :: "pid_t \<Rightarrow> bool"
  rf_mem :: "string \<Rightarrow> (u64 \<Rightarrow> nat \<Rightarrow> byte list option) option"

definition map_files_path :: "nat \<Rightarrow> pid_t \<Rightarrow> u64 \<Rightarrow> u64 \<Rightarrow> string" where
  "map_files_path len pid start stop =
     take (len - 1) (''/proc/'' @ fmt_d pid @ ''/map_files/'' @ fmt_lx start @ ''-'' @ fmt_lx stop)"

text \<open>The results -1, -2 and 0 with the filled structure.\<close>

datatype map_ident = Id_unknown | Id_other | Id_file ac_map_id

definition map_file_identity :: "render_fs \<Rightarrow> pid_t \<Rightarrow> u64 \<Rightarrow> u64 \<Rightarrow> map_ident" where
  "map_file_identity fs pid start stop =
     (case rf_stat fs (map_files_path 64 pid start stop) of
        None \<Rightarrow> Id_unknown
      | Some st \<Rightarrow> if \<not> fs_reg st then Id_other else Id_file \<lparr>id_dev = fs_dev st, id_ino = fs_ino st\<rparr>)"

record ac_render_map =
  rm_start :: u64
  rm_end :: u64
  rm_offset :: u64
  rm_inode :: u64
  rm_path :: string

definition AC_RENDER_MAX_MAPS :: nat where "AC_RENDER_MAX_MAPS = 16"

text \<open>\<open>Some\<close> the location, the reference bytes and their number; the lookup never leaves its buffers (\<^theory_text>\<open>AC_Elf\<close>), so its outer \<open>None\<close>
  does not occur.\<close>

definition load_render_reference ::
  "render_fs \<Rightarrow> pid_t \<Rightarrow> ac_render_map \<Rightarrow> ac_map_id \<Rightarrow> string \<Rightarrow> (ac_elf_loc \<times> byte list \<times> u64) option" where
  "load_render_reference fs pid m mid symbol =
     (case rf_open fs (map_files_path 64 pid (rm_start m) (rm_end m)) of
        None \<Rightarrow> None
      | Some (None, rd) \<Rightarrow> None
      | Some (Some st, rd) \<Rightarrow>
          if \<not> fs_reg st \<or> fs_dev st \<noteq> id_dev mid \<or> fs_ino st \<noteq> id_ino mid then None
          else case elf_find_symbol_offset rd (rf_alloc fs) symbol of
            Some (Some (loc, sz)) \<Rightarrow>
              (let checklen = hook_checklen loc sz
               in case pread_all rd (el_file_off loc) (unat checklen) of
                    None \<Rightarrow> None
                  | Some expected \<Rightarrow> Some (loc, expected, checklen))
          | _ \<Rightarrow> None)"

subsection \<open>Whether an address belongs to the load\<close>

text \<open>1: the mapping is of this file, 0: it is not, -1: its identity cannot be read.\<close>

definition same_file :: "render_fs \<Rightarrow> pid_t \<Rightarrow> ac_map_id \<Rightarrow> ac_vma_info \<Rightarrow> int" where
  "same_file fs pid mid vi =
     (if vi_is_file vi \<noteq> 0
      then (case map_file_identity fs pid (vi_start vi) (vi_end vi) of
              Id_file vid \<Rightarrow> if id_dev vid = id_dev mid \<and> id_ino vid = id_ino mid then 1 else 0
            | Id_unknown \<Rightarrow> -1
            | Id_other \<Rightarrow> 0)
      else 0)"

record in_load_state =
  il_prev_end :: u64
  il_left_ok :: int
  il_right_unknown :: bool
  il_in_hole :: bool
  il_ret :: int

definition in_load_start :: in_load_state where
  "in_load_start = \<lparr>il_prev_end = 0, il_left_ok = 0, il_right_unknown = False, il_in_hole = False, il_ret = -2\<rparr>"

definition in_load_step :: "(ac_vma_info \<Rightarrow> int) \<Rightarrow> u64 \<Rightarrow> u64 \<Rightarrow> ac_vma_info \<Rightarrow> in_load_state \<Rightarrow> bool \<times> in_load_state" where
  "in_load_step same delta addr vi st =
     (let sf = same vi
      in if il_in_hole st
         then (if vi_start vi \<noteq> il_prev_end st then (True, st\<lparr>il_ret := if il_right_unknown st then -1 else 0\<rparr>)
               else if sf = 1 then (True, st\<lparr>il_ret := 1\<rparr>)
               else (False, st\<lparr>il_right_unknown := sf < 0 \<or> il_right_unknown st, il_prev_end := vi_end vi\<rparr>))
         else if vi_end vi \<le> addr
         then (let l0 = (if vi_start vi \<noteq> il_prev_end st then 0 else il_left_ok st);
                   l1 = (if sf = 1 then 1 else if sf < 0 \<and> l0 = 0 then -1 else l0)
               in (False, st\<lparr>il_left_ok := l1, il_prev_end := vi_end vi\<rparr>))
         else if vi_start vi > addr then (True, st\<lparr>il_ret := 0\<rparr>)
         else if sf \<noteq> 0 \<and> vi_start vi - vi_offset vi = delta then (True, st\<lparr>il_ret := if sf = 1 then 1 else -1\<rparr>)
         else if vi_start vi \<noteq> il_prev_end st \<or> il_left_ok st = 0 then (True, st\<lparr>il_ret := 0\<rparr>)
         else if il_left_ok st < 0 then (True, st\<lparr>il_ret := -1\<rparr>)
         else (False, st\<lparr>il_in_hole := True, il_prev_end := vi_end vi\<rparr>))"

definition in_load_result :: "bool \<Rightarrow> in_load_state \<Rightarrow> int" where
  "in_load_result complete st =
     (if il_ret st = -2 then (if complete \<and> \<not> il_right_unknown st then 0 else -1) else il_ret st)"

definition render_addr_in_load ::
  "'w ac_dio \<Rightarrow> render_fs \<Rightarrow> pid_t \<Rightarrow> ac_map_id \<Rightarrow> u64 \<Rightarrow> u64 \<Rightarrow> ('w, 'a) ac_client_scheme \<Rightarrow> int \<times> ('w, 'a) ac_client_scheme" where
  "render_addr_in_load io fs pid mid delta addr d =
     (case call_scan_begin io pid 0 0 d of (ret, b, d1) \<Rightarrow>
        if ret < 0 then (-1, d1)
        else
          (let complete = (sb_truncated b = 0 \<and> sb_n_vmas b \<le> AC_MAX_VMAS)
           in case clamp_vma_count (sb_n_vmas b) d1 of (n, d2) \<Rightarrow>
              case scan_loop io pid (in_load_step (same_file fs pid mid) delta addr) [0..<n] in_load_start d2 of (failed, st, d3) \<Rightarrow>
                (in_load_result complete (if failed then st\<lparr>il_ret := -1\<rparr> else st), call_scan_end io d3)))"

subsection \<open>Comparing one mapping, and all of a library\<close>

definition compare_render_map ::
  "'w ac_dio \<Rightarrow> render_fs \<Rightarrow> pid_t \<Rightarrow> (u64 \<Rightarrow> nat \<Rightarrow> byte list option) \<Rightarrow> ac_render_map \<Rightarrow> ac_map_id \<Rightarrow> ac_elf_loc \<Rightarrow> byte list \<Rightarrow> u64 \<Rightarrow>
     ('w, 'a) ac_client_scheme \<Rightarrow> int \<times> ('w, 'a) ac_client_scheme" where
  "compare_render_map io fs pid mem m mid loc expected checklen d =
     (if rm_end m \<le> rm_start m \<or> rm_offset m \<ge> el_seg_end loc \<or> rm_end m - rm_start m > - 1 - rm_offset m \<or>
         rm_offset m + (rm_end m - rm_start m) \<le> el_seg_off loc
      then (-2, d)
      else
        (let delta = rm_start m - rm_offset m;
             addr = delta + el_file_off loc
         in case pread_all mem addr (unat checklen) of
              None \<Rightarrow> (-1, d)
            | Some actual \<Rightarrow>
                if expected = actual then (0, d)
                else
                  (case (case render_addr_in_load io fs pid mid delta addr d of (r, d1) \<Rightarrow>
                           if r = 1 then render_addr_in_load io fs pid mid delta (addr + checklen - 1) d1 else (r, d1)) of (in_load, d2) \<Rightarrow>
                     (if in_load < 0 then -1 else if in_load \<noteq> 0 then 1 else -2, d2))))"

record ac_lib_result =
  lr_maps :: "ac_render_map list"
  lr_incomplete :: bool

record lib_check =
  lc_hooked :: bool
  lc_inconclusive :: bool
  lc_clean :: bool
  lc_path :: string

definition lib_note :: "ac_render_map \<Rightarrow> int \<Rightarrow> lib_check \<Rightarrow> lib_check" where
  "lib_note m r c =
     (if r = 1 \<and> \<not> lc_hooked c then c\<lparr>lc_hooked := True, lc_path := take (AC_VMA_PATH - 1) (rm_path m)\<rparr>
      else if r = 0 then c\<lparr>lc_clean := True\<rparr>
      else if r = -1 then c\<lparr>lc_inconclusive := True\<rparr>
      else c)"

text \<open>The inner loop over the mappings of one file, from the one that its reference was read through.\<close>

fun group_loop ::
  "(ac_render_map \<Rightarrow> ('w, 'a) ac_client_scheme \<Rightarrow> int \<times> ('w, 'a) ac_client_scheme) \<Rightarrow> ac_map_id \<Rightarrow> (ac_render_map \<times> ac_map_id option) list \<Rightarrow>
     lib_check \<Rightarrow> ('w, 'a) ac_client_scheme \<Rightarrow> lib_check \<times> ('w, 'a) ac_client_scheme" where
  "group_loop cmp mid [] c d = (c, d)"
| "group_loop cmp mid ((m, i) # ms) c d =
     (if i \<noteq> Some mid then group_loop cmp mid ms c d
      else case cmp m d of (r, d1) \<Rightarrow> group_loop cmp mid ms (lib_note m r c) d1)"

text \<open>The outer loop; \<open>seen\<close> are the identities of the mappings before.\<close>

fun lib_loop ::
  "'w ac_dio \<Rightarrow> render_fs \<Rightarrow> pid_t \<Rightarrow> (u64 \<Rightarrow> nat \<Rightarrow> byte list option) \<Rightarrow> string \<Rightarrow> ac_map_id option list \<Rightarrow> (ac_render_map \<times> ac_map_id option) list \<Rightarrow>
     lib_check \<Rightarrow> ('w, 'a) ac_client_scheme \<Rightarrow> lib_check \<times> ('w, 'a) ac_client_scheme" where
  "lib_loop io fs pid mem symbol seen [] c d = (c, d)"
| "lib_loop io fs pid mem symbol seen ((m, i) # ms) c d =
     (case i of
        None \<Rightarrow> lib_loop io fs pid mem symbol (seen @ [i]) ms c d
      | Some mid \<Rightarrow>
          if i \<in> set seen then lib_loop io fs pid mem symbol (seen @ [i]) ms c d
          else
            (let cmp = (case load_render_reference fs pid m mid symbol of
                          Some (loc, expected, checklen) \<Rightarrow> (\<lambda>mj. compare_render_map io fs pid mem mj mid loc expected checklen)
                        | None \<Rightarrow> (\<lambda>mj d. (-1, d)))
             in case group_loop cmp mid ((m, i) # ms) c d of (c1, d1) \<Rightarrow> lib_loop io fs pid mem symbol (seen @ [i]) ms c1 d1))"

definition render_map_id :: "render_fs \<Rightarrow> pid_t \<Rightarrow> ac_render_map \<Rightarrow> ac_map_id option" where
  "render_map_id fs pid m = (case map_file_identity fs pid (rm_start m) (rm_end m) of Id_file mid \<Rightarrow> Some mid | _ \<Rightarrow> None)"

definition lib_verdict :: "lib_check \<Rightarrow> int" where
  "lib_verdict c = (if lc_hooked c then 1 else if lc_inconclusive c \<or> \<not> lc_clean c then -1 else 0)"

definition proc_mem_path :: "pid_t \<Rightarrow> string" where
  "proc_mem_path pid = take 63 (''/proc/'' @ fmt_d pid @ ''/mem'')"

definition check_render_lib ::
  "'w ac_dio \<Rightarrow> render_fs \<Rightarrow> pid_t \<Rightarrow> ac_lib_result \<Rightarrow> string \<Rightarrow> ('w, 'a) ac_client_scheme \<Rightarrow> (int \<times> string) \<times> ('w, 'a) ac_client_scheme" where
  "check_render_lib io fs pid res symbol d =
     (let libpath = (case lr_maps res of [] \<Rightarrow> [] | m # _ \<Rightarrow> take (AC_VMA_PATH - 1) (rm_path m))
      in if \<not> rf_alive fs pid then ((-1, libpath), d)
         else case rf_mem fs (proc_mem_path pid) of
           None \<Rightarrow> ((-1, libpath), d)
         | Some mem \<Rightarrow>
             (let ms = map (\<lambda>m. (m, render_map_id fs pid m)) (lr_maps res);
                  c0 = \<lparr>lc_hooked = False, lc_inconclusive = lr_incomplete res \<or> None \<in> set (map snd ms), lc_clean = False, lc_path = libpath\<rparr>
              in case lib_loop io fs pid mem symbol [] ms c0 d of (c, d1) \<Rightarrow> ((lib_verdict c, lc_path c), d1)))"

subsection \<open>Finding the libraries\<close>

definition AC_RENDER_APIS :: "(string \<times> string \<times> string) list" where
  "AC_RENDER_APIS =
     [(''libvulkan.so'', ''vkQueuePresentKHR'', ''Vulkan''),
      (''libGL.so'', ''glXSwapBuffers'', ''GLX/OpenGL''),
      (''libEGL.so'', ''eglSwapBuffers'', ''EGL'')]"

definition render_lib_name_matches :: "string \<Rightarrow> string \<Rightarrow> bool" where
  "render_lib_name_matches base soname =
     (let deleted = '' (deleted)'';
          l0 = length base;
          len = (if l0 \<ge> length deleted \<and> drop (l0 - length deleted) base = deleted then l0 - length deleted else l0);
          sl = length soname
      in if len < sl \<or> take sl base \<noteq> soname then False
         else if len = sl then True
         else if base ! sl \<noteq> CHR ''.'' \<or> len = sl + 1 then False
         else (\<forall>i \<in> set [sl + 1..<len]. isdigit (base ! i) \<or> base ! i = CHR ''.''))"

definition basename_of :: "string \<Rightarrow> string" where
  "basename_of path = (case strrchr CHR ''/'' path of Some (_, rest) \<Rightarrow> rest | None \<Rightarrow> path)"

definition vma_render_map :: "ac_vma_info \<Rightarrow> ac_render_map" where
  "vma_render_map vi = \<lparr>rm_start = vi_start vi, rm_end = vi_end vi, rm_offset = vi_offset vi, rm_inode = vi_inode vi,
     rm_path = take (AC_VMA_PATH - 1) (vi_path vi)\<rparr>"

definition lib_add :: "ac_vma_info \<Rightarrow> string \<Rightarrow> ac_lib_result \<Rightarrow> ac_lib_result" where
  "lib_add vi soname res =
     (if \<not> render_lib_name_matches (basename_of (vi_path vi)) soname then res
      else if length (lr_maps res) \<ge> AC_RENDER_MAX_MAPS then res\<lparr>lr_incomplete := True\<rparr>
      else res\<lparr>lr_maps := lr_maps res @ [vma_render_map vi]\<rparr>)"

definition find_step :: "ac_vma_info \<Rightarrow> ac_lib_result list \<Rightarrow> bool \<times> ac_lib_result list" where
  "find_step vi results =
     (False,
      if vi_is_file vi = 0 \<or> vi_path vi = [] \<or> vi_flags vi AND AC_VM_EXEC = 0 then results
      else map (\<lambda>((soname, _), res). lib_add vi soname res) (zip AC_RENDER_APIS results))"

definition find_render_lib_maps ::
  "'w ac_dio \<Rightarrow> pid_t \<Rightarrow> ('w, 'a) ac_client_scheme \<Rightarrow> ac_lib_result list option \<times> ('w, 'a) ac_client_scheme" where
  "find_render_lib_maps io pid d =
     (case call_scan_begin io pid 0 0 d of (ret, b, d1) \<Rightarrow>
        if ret < 0 then (None, d1)
        else
          (let incomplete = (sb_truncated b \<noteq> 0 \<or> sb_n_vmas b > AC_MAX_VMAS)
           in case clamp_vma_count (sb_n_vmas b) d1 of (n, d2) \<Rightarrow>
              case scan_loop io pid find_step [0..<n] (map (\<lambda>_. \<lparr>lr_maps = [], lr_incomplete = False\<rparr>) AC_RENDER_APIS) d2 of (failed, results, d3) \<Rightarrow>
                (Some (if failed \<or> incomplete then map (\<lambda>res. res\<lparr>lr_incomplete := True\<rparr>) results else results), call_scan_end io d3)))"

subsection \<open>Verdicts for a process\<close>

fun statuses_loop ::
  "'w ac_dio \<Rightarrow> render_fs \<Rightarrow> pid_t \<Rightarrow> ((string \<times> string \<times> string) \<times> ac_lib_result) list \<Rightarrow> ('w, 'a) ac_client_scheme \<Rightarrow>
     (int \<times> string) list \<times> ('w, 'a) ac_client_scheme" where
  "statuses_loop io fs pid [] d = ([], d)"
| "statuses_loop io fs pid (((soname, symbol, label), res) # rs) d =
     (case (if lr_maps res = [] then ((if lr_incomplete res then -1 else -2, []), d) else check_render_lib io fs pid res symbol d) of (s, d1) \<Rightarrow>
      case statuses_loop io fs pid rs d1 of (ss, d2) \<Rightarrow> (s # ss, d2))"

definition render_hook_statuses_for ::
  "'w ac_dio \<Rightarrow> render_fs \<Rightarrow> bool \<Rightarrow> pid_t \<Rightarrow> ('w, 'a) ac_client_scheme \<Rightarrow> (int \<times> string) list \<times> ('w, 'a) ac_client_scheme" where
  "render_hook_statuses_for io fs calloc pid d =
     (let unknown = map (\<lambda>_. (-1, [])) AC_RENDER_APIS
      in if \<not> calloc then (unknown, d)
         else case find_render_lib_maps io pid d of
           (None, d1) \<Rightarrow> (unknown, d1)
         | (Some results, d1) \<Rightarrow> statuses_loop io fs pid (zip AC_RENDER_APIS results) d1)"

definition print_render_hook_result :: "pid_t \<Rightarrow> string \<Rightarrow> string \<Rightarrow> string \<Rightarrow> int \<Rightarrow> string \<times> bool" where
  "print_render_hook_result pid label symbol libpath status =
     (if status = -2 then (''  render-hook check ('' @ label @ ''): not loaded in this process, skipping'' @ [LF], False)
      else if status = -1
      then (''  render-hook check ('' @ label @ ''): could not verify '' @ symbol @ '' in '' @
            (if libpath \<noteq> [] then libpath else ''(not located)'') @ '', skipping'' @ [LF], False)
      else if status = 1
      then (''  [!] render hook ('' @ label @ ''): '' @ symbol @ '' in '' @ libpath @ '' (target pid '' @ fmt_d pid @ '') differs'' @ [LF] @
            ''      from a freshly-loaded reference copy of the same file --'' @ [LF] @
            ''      possible ESP/overlay/render hijack'' @ [LF], True)
      else (''  render-hook check ('' @ label @ ''): '' @ symbol @ '' clean ('' @ libpath @ '')'' @ [LF], False))"

text \<open>Result and output of \<^verbatim>\<open>check_render_hooks\<close>.\<close>

definition check_render_hooks ::
  "'w ac_dio \<Rightarrow> render_fs \<Rightarrow> bool \<Rightarrow> pid_t \<Rightarrow> ('w, 'a) ac_client_scheme \<Rightarrow> int \<times> string \<times> ('w, 'a) ac_client_scheme" where
  "check_render_hooks io fs calloc pid d =
     (case render_hook_statuses_for io fs calloc pid d of (ss, d1) \<Rightarrow>
        let rs = map (\<lambda>((soname, symbol, label), (status, libpath)). print_render_hook_result pid label symbol libpath status) (zip AC_RENDER_APIS ss)
        in (if True \<in> set (map snd rs) then 1 else 0, concat (map fst rs), d1))"

definition log_hooks :: "ac_prot_item \<Rightarrow> (int \<times> string) list \<Rightarrow> ('w, 'a) ac_client_scheme \<Rightarrow> ('w, 'a) ac_client_scheme" where
  "log_hooks it ss d =
     fold (\<lambda>((soname, symbol, label), (status, libpath)) d.
             if status = 1
             then log_at LOG_CRIT (''pid '' @ fmt_d (pt_pid it) @ '' ('' @ pt_comm it @ ''): render hook detected in '' @ libpath @ '' ('' @ symbol @
                    '' differs from a freshly-loaded reference copy -- possible ESP/overlay/render hijack)'') d
             else d) (zip AC_RENDER_APIS ss) d"

fun periodic_loop ::
  "'w ac_dio \<Rightarrow> render_fs \<Rightarrow> bool \<Rightarrow> ac_prot_item list \<Rightarrow> ('w, 'a) ac_client_scheme \<Rightarrow> ('w, 'a) ac_client_scheme" where
  "periodic_loop io fs calloc [] d = d"
| "periodic_loop io fs calloc (it # its) d =
     (case render_hook_statuses_for io fs calloc (pt_pid it) d of (ss, d1) \<Rightarrow> periodic_loop io fs calloc its (log_hooks it ss d1))"

definition check_render_hooks_periodic ::
  "'w ac_dio \<Rightarrow> render_fs \<Rightarrow> bool \<Rightarrow> ('w, 'a) ac_client_scheme \<Rightarrow> ('w, 'a) ac_client_scheme" where
  "check_render_hooks_periodic io fs calloc d =
     (case call_list_protected io d of (ret, pl, d1) \<Rightarrow>
        if ret < 0 then d1
        else case clamp_prot_count (pl_count pl) d1 of (n, d2) \<Rightarrow> periodic_loop io fs calloc (take n (pl_items pl)) d2)"

subsection \<open>What it means to be in the load\<close>

text \<open>
  The mapping that holds the address is of this file at this displacement, or it lies in a gap-free run of mappings
  between two of this file.
\<close>

definition adjacent :: "ac_vma_info \<Rightarrow> ac_vma_info \<Rightarrow> bool" where
  "adjacent x y \<longleftrightarrow> vi_end x = vi_start y"

definition left_bounded :: "(ac_vma_info \<Rightarrow> bool) \<Rightarrow> ac_vma_info list \<Rightarrow> ac_vma_info \<Rightarrow> bool" where
  "left_bounded mine pre m \<longleftrightarrow> (\<exists>p l q. pre = p @ l # q \<and> mine l \<and> successively adjacent (l # q @ [m]))"

definition right_bounded :: "(ac_vma_info \<Rightarrow> bool) \<Rightarrow> ac_vma_info \<Rightarrow> ac_vma_info list \<Rightarrow> bool" where
  "right_bounded mine m post \<longleftrightarrow> (\<exists>q r p. post = q @ r # p \<and> mine r \<and> successively adjacent (m # q @ [r]))"

definition in_load :: "(ac_vma_info \<Rightarrow> bool) \<Rightarrow> u64 \<Rightarrow> u64 \<Rightarrow> ac_vma_info list \<Rightarrow> bool" where
  "in_load mine delta addr vs \<longleftrightarrow>
     (\<exists>pre m post. vs = pre @ m # post \<and> vi_start m \<le> addr \<and> addr < vi_end m \<and>
        (mine m \<and> vi_start m - vi_offset m = delta \<or> left_bounded mine pre m \<and> right_bounded mine m post))"

text \<open>The mappings of an address space: non-empty, in order and disjoint.\<close>

definition vmas_ordered :: "ac_vma_info list \<Rightarrow> bool" where
  "vmas_ordered vs \<longleftrightarrow> (\<forall>v \<in> set vs. vi_start v < vi_end v) \<and> sorted_wrt (\<lambda>x y. vi_end x \<le> vi_start y) vs"

lemma left_bounded_Nil [simp]: "\<not> left_bounded mine [] m"
  by (simp add: left_bounded_def)

lemma left_bounded_snoc: "left_bounded mine (pre @ [x]) m \<longleftrightarrow> adjacent x m \<and> (mine x \<or> left_bounded mine pre x)"
proof
  assume "left_bounded mine (pre @ [x]) m"
  then obtain p l q where e: "pre @ [x] = p @ l # q" "mine l" "successively adjacent (l # q @ [m])"
    by (auto simp: left_bounded_def)
  show "adjacent x m \<and> (mine x \<or> left_bounded mine pre x)"
  proof (cases q rule: rev_cases)
    case Nil
    with e show ?thesis by simp
  next
    case (snoc q' y)
    with e have "y = x" "pre = p @ l # q'" by auto
    with e snoc show ?thesis using successively_append_iff [of adjacent "l # q' @ [x]" "[m]"] by (auto simp: left_bounded_def)
  qed
next
  assume a: "adjacent x m \<and> (mine x \<or> left_bounded mine pre x)"
  then consider "mine x" | p l q where "pre = p @ l # q" "mine l" "successively adjacent (l # q @ [x])"
    by (auto simp: left_bounded_def)
  then show "left_bounded mine (pre @ [x]) m"
  proof cases
    case 1
    with a show ?thesis by (auto simp: left_bounded_def intro!: exI [of _ pre])
  next
    case 2
    moreover have "successively adjacent (l # (q @ [x]) @ [m])"
      using a 2(3) successively_append_iff [of adjacent "l # q @ [x]" "[m]"] by simp
    moreover have "pre @ [x] = p @ l # (q @ [x])" using 2(1) by simp
    ultimately show ?thesis unfolding left_bounded_def by blast
  qed
qed

lemma right_bounded_Nil [simp]: "\<not> right_bounded mine m []"
  by (simp add: right_bounded_def)

lemma right_bounded_Cons: "right_bounded mine m (x # post) \<longleftrightarrow> adjacent m x \<and> (mine x \<or> right_bounded mine x post)"
proof
  assume "right_bounded mine m (x # post)"
  then obtain q r p where e: "x # post = q @ r # p" "mine r" "successively adjacent (m # q @ [r])"
    by (auto simp: right_bounded_def)
  then show "adjacent m x \<and> (mine x \<or> right_bounded mine x post)"
    by (cases q) (auto simp: right_bounded_def)
next
  assume a: "adjacent m x \<and> (mine x \<or> right_bounded mine x post)"
  then consider "mine x" | q r p where "post = q @ r # p" "mine r" "successively adjacent (x # q @ [r])"
    by (auto simp: right_bounded_def)
  then show "right_bounded mine m (x # post)"
  proof cases
    case 1
    with a show ?thesis by (auto simp: right_bounded_def intro!: exI [of _ "[]"])
  next
    case 2
    moreover have "successively adjacent (m # (x # q) @ [r])" "x # post = (x # q) @ r # p" using a 2 by simp_all
    ultimately show ?thesis unfolding right_bounded_def by blast
  qed
qed

text \<open>At most one mapping holds the address.\<close>

lemma in_load_at:
  assumes "vmas_ordered (pre @ m # post)" and "\<forall>v \<in> set pre. vi_end v \<le> addr" and "vi_start m \<le> addr" "addr < vi_end m"
  shows "in_load mine delta addr (pre @ m # post) \<longleftrightarrow>
    mine m \<and> vi_start m - vi_offset m = delta \<or> left_bounded mine pre m \<and> right_bounded mine m post"
proof -
  have n: "m' = m \<and> pre' = pre \<and> post' = post"
    if e: "pre @ m # post = pre' @ m' # post'" and b: "vi_start m' \<le> addr" "addr < vi_end m'" for pre' m' post'
  proof -
    have "\<forall>v \<in> set post. vi_end m \<le> vi_start v" using assms(1) by (simp add: vmas_ordered_def sorted_wrt_append)
    then have np: "\<not> (vi_start v \<le> addr \<and> addr < vi_end v)" if "v \<in> set pre \<union> set post" for v
      using that assms(2,4) by (auto simp: not_less not_le dest: order.strict_trans1 order.strict_trans2)
    have "m' \<in> set (pre @ m # post)" using e by simp
    then have m': "m' = m" using np b by auto
    moreover have "m \<notin> set pre" "m \<notin> set post" using np assms(3,4) by blast+
    ultimately show ?thesis using e by (metis append_Cons_eq_iff)
  qed
  show ?thesis
  proof
    assume "in_load mine delta addr (pre @ m # post)"
    then show "mine m \<and> vi_start m - vi_offset m = delta \<or> left_bounded mine pre m \<and> right_bounded mine m post"
      unfolding in_load_def using n by blast
  next
    assume "mine m \<and> vi_start m - vi_offset m = delta \<or> left_bounded mine pre m \<and> right_bounded mine m post"
    then show "in_load mine delta addr (pre @ m # post)" unfolding in_load_def using assms(3,4) by blast
  qed
qed

lemma in_load_none:
  assumes "\<forall>v \<in> set vs. vi_end v \<le> addr \<or> addr < vi_start v"
  shows "\<not> in_load mine delta addr vs"
  using assms by (auto simp: in_load_def linorder_not_le)

subsection \<open>The walk decides it\<close>

text \<open>
  \<open>mine\<close> is the truth behind \<open>same\<close>, which may not know: \<open>agrees\<close> leaves the mappings of unknown identity open.  The walk
  sees \<open>vs\<close>; the address space has \<open>rest\<close> beyond, which is empty when the snapshot is complete.
\<close>

definition agrees :: "(ac_vma_info \<Rightarrow> int) \<Rightarrow> (ac_vma_info \<Rightarrow> bool) \<Rightarrow> bool" where
  "agrees same mine \<longleftrightarrow> (\<forall>v. same v \<in> {-1, 0, 1} \<and> (same v = 1 \<longrightarrow> mine v) \<and> (same v = 0 \<longrightarrow> \<not> mine v))"

lemma agreesD: "agrees same mine \<Longrightarrow> same v = -1 \<or> same v = 0 \<and> \<not> mine v \<or> same v = 1 \<and> mine v"
  by (auto simp: agrees_def)

text \<open>What a result says of a fact: 1 and 0 decide it, -1 leaves it open.\<close>

definition decides :: "int \<Rightarrow> bool \<Rightarrow> bool" where
  "decides r P \<longleftrightarrow> r = -1 \<or> r = 0 \<and> \<not> P \<or> r = 1 \<and> P"

lemma walk_in_hole:
  assumes "agrees same mine" and "complete \<Longrightarrow> rest = []"
    and "il_in_hole st" "il_ret st = -2" "il_prev_end st = vi_end m"
  shows "decides (in_load_result complete (walk_list (in_load_step same delta addr) vs st)) (right_bounded mine m (vs @ rest)) \<and>
    (in_load_result complete (walk_list (in_load_step same delta addr) vs st) = 0 \<longrightarrow> \<not> il_right_unknown st) \<and>
    (complete \<and> \<not> il_right_unknown st \<and> (\<forall>v \<in> set vs. same v \<noteq> -1) \<longrightarrow>
       in_load_result complete (walk_list (in_load_step same delta addr) vs st) \<noteq> -1)"
  using assms(3-)
proof (induction vs arbitrary: st m)
  case Nil
  then show ?case using assms(2) by (auto simp: decides_def in_load_result_def)
next
  case (Cons x vs)
  show ?case
  proof (cases "adjacent m x \<and> same x \<noteq> 1")
    case True
    let ?st = "st\<lparr>il_right_unknown := same x < 0 \<or> il_right_unknown st, il_prev_end := vi_end x\<rparr>"
    have s: "in_load_step same delta addr x st = (False, ?st)"
      using Cons.prems True by (simp add: in_load_step_def Let_def adjacent_def)
    have "decides (in_load_result complete (walk_list (in_load_step same delta addr) vs ?st)) (right_bounded mine x (vs @ rest)) \<and>
      (in_load_result complete (walk_list (in_load_step same delta addr) vs ?st) = 0 \<longrightarrow> \<not> il_right_unknown ?st) \<and>
      (complete \<and> \<not> il_right_unknown ?st \<and> (\<forall>v \<in> set vs. same v \<noteq> -1) \<longrightarrow>
         in_load_result complete (walk_list (in_load_step same delta addr) vs ?st) \<noteq> -1)"
      by (rule Cons.IH) (use Cons.prems in simp_all)
    then show ?thesis using True agreesD [OF assms(1), of x] by (auto simp: s decides_def right_bounded_Cons)
  next
    case False
    then show ?thesis using Cons.prems agreesD [OF assms(1), of x]
      by (auto simp: in_load_step_def Let_def adjacent_def decides_def in_load_result_def right_bounded_Cons)
  qed
qed

text \<open>Whether the run of mappings that ends at the last one reaches back to one of this file.\<close>

definition reaches :: "(ac_vma_info \<Rightarrow> bool) \<Rightarrow> ac_vma_info list \<Rightarrow> bool" where
  "reaches mine pre \<longleftrightarrow> pre \<noteq> [] \<and> (mine (last pre) \<or> left_bounded mine (butlast pre) (last pre))"

lemma reaches_Nil [simp]: "\<not> reaches mine []"
  by (simp add: reaches_def)

lemma reaches_snoc: "reaches mine (pre @ [x]) \<longleftrightarrow> mine x \<or> left_bounded mine pre x"
  by (simp add: reaches_def)

lemma left_bounded_last: "left_bounded mine pre m \<longleftrightarrow> pre \<noteq> [] \<and> adjacent (last pre) m \<and> reaches mine pre"
  by (cases pre rule: rev_cases) (auto simp: left_bounded_snoc reaches_snoc)

definition walked :: "(ac_vma_info \<Rightarrow> int) \<Rightarrow> (ac_vma_info \<Rightarrow> bool) \<Rightarrow> u64 \<Rightarrow> ac_vma_info list \<Rightarrow> in_load_state \<Rightarrow> bool" where
  "walked same mine addr pre st \<longleftrightarrow>
     (\<forall>v \<in> set pre. vi_end v \<le> addr) \<and> \<not> il_in_hole st \<and> il_ret st = -2 \<and> \<not> il_right_unknown st \<and>
     il_prev_end st = (if pre = [] then 0 else vi_end (last pre)) \<and> decides (il_left_ok st) (reaches mine pre) \<and>
     (il_left_ok st = -1 \<longrightarrow> (\<exists>v \<in> set pre. same v = -1))"

lemma walked_step:
  assumes "agrees same mine" and "walked same mine addr pre st" and "vi_end x \<le> addr"
  shows "\<exists>st'. in_load_step same delta addr x st = (False, st') \<and> walked same mine addr (pre @ [x]) st'"
  using assms agreesD [OF assms(1), of x]
  by (auto simp: walked_def in_load_step_def Let_def decides_def reaches_snoc left_bounded_last adjacent_def)

lemma walk_in_load:
  assumes a: "agrees same mine" and c: "complete \<Longrightarrow> rest = []"
    and "walked same mine addr pre st" and "vmas_ordered (pre @ vs @ rest)"
  shows "decides (in_load_result complete (walk_list (in_load_step same delta addr) vs st)) (in_load mine delta addr (pre @ vs @ rest)) \<and>
    (complete \<and> (\<forall>v \<in> set (pre @ vs). same v \<noteq> -1) \<longrightarrow>
       in_load_result complete (walk_list (in_load_step same delta addr) vs st) \<noteq> -1)"
  using assms(3-)
proof (induction vs arbitrary: pre st)
  case Nil
  then show ?case using c in_load_none [of "pre @ rest" addr mine delta] by (auto simp: walked_def decides_def in_load_result_def)
next
  case (Cons x vs)
  show ?case
  proof (cases "vi_end x \<le> addr")
    case True
    then obtain st' where "in_load_step same delta addr x st = (False, st')" "walked same mine addr (pre @ [x]) st'"
      using walked_step [OF a Cons.prems(1)] by blast
    then show ?thesis using Cons.IH [of "pre @ [x]" st'] Cons.prems by simp
  next
    case False
    show ?thesis
    proof (cases "vi_start x \<le> addr")
      case True
      have e: "pre @ (x # vs) @ rest = pre @ x # (vs @ rest)" by simp
      have il: "in_load mine delta addr (pre @ x # (vs @ rest)) \<longleftrightarrow>
          mine x \<and> vi_start x - vi_offset x = delta \<or> left_bounded mine pre x \<and> right_bounded mine x (vs @ rest)"
        using Cons.prems False True by (intro in_load_at) (auto simp: walked_def)
      let ?r = "in_load_result complete (walk_list (in_load_step same delta addr) (x # vs) st)"
      show ?thesis
      proof (cases "same x \<noteq> 0 \<and> vi_start x - vi_offset x = delta \<or> \<not> (vi_start x = il_prev_end st \<and> il_left_ok st = 1)")
        case stops: True
        have w: "\<not> il_in_hole st" "il_ret st = -2" "pre \<noteq> [] \<Longrightarrow> il_prev_end st = vi_end (last pre)"
          "decides (il_left_ok st) (reaches mine pre)" "il_left_ok st = -1 \<Longrightarrow> \<exists>v \<in> set pre. same v = -1"
          using Cons.prems(1) by (auto simp: walked_def)
        have st: "in_load_step same delta addr x st =
          (if same x \<noteq> 0 \<and> vi_start x - vi_offset x = delta then (True, st\<lparr>il_ret := if same x = 1 then 1 else -1\<rparr>)
           else if vi_start x \<noteq> il_prev_end st \<or> il_left_ok st = 0 then (True, st\<lparr>il_ret := 0\<rparr>)
           else (True, st\<lparr>il_ret := -1\<rparr>))"
          using w(1,4) stops True \<open>\<not> vi_end x \<le> addr\<close> by (auto simp: in_load_step_def Let_def decides_def)
        consider "same x \<noteq> 0" "vi_start x - vi_offset x = delta"
          | "\<not> (same x \<noteq> 0 \<and> vi_start x - vi_offset x = delta)" "vi_start x \<noteq> il_prev_end st \<or> il_left_ok st = 0"
          | "\<not> (same x \<noteq> 0 \<and> vi_start x - vi_offset x = delta)" "\<not> (vi_start x \<noteq> il_prev_end st \<or> il_left_ok st = 0)" by blast
        then show ?thesis
        proof cases
          case 1
          then show ?thesis unfolding e il using agreesD [OF a, of x] by (auto simp: st decides_def in_load_result_def)
        next
          case 2
          then have "\<not> (mine x \<and> vi_start x - vi_offset x = delta)" "\<not> left_bounded mine pre x"
            using agreesD [OF a, of x] w(3,4) by (auto simp: decides_def left_bounded_last adjacent_def)
          with 2 show ?thesis unfolding e il by (auto simp: st decides_def in_load_result_def)
        next
          case 3
          then have "il_left_ok st = -1" using w(4) stops by (auto simp: decides_def)
          with 3 w(5) show ?thesis by (auto simp: st decides_def in_load_result_def)
        qed
      next
        case hole: False
        let ?st = "st\<lparr>il_in_hole := True, il_prev_end := vi_end x\<rparr>"
        have s: "in_load_step same delta addr x st = (False, ?st)" and lb: "left_bounded mine pre x"
          and own: "\<not> (mine x \<and> vi_start x - vi_offset x = delta)" and ru: "\<not> il_right_unknown ?st"
          using Cons.prems(1) hole True \<open>\<not> vi_end x \<le> addr\<close> agreesD [OF a, of x]
          by (auto simp: walked_def in_load_step_def Let_def decides_def left_bounded_last adjacent_def split: if_splits)
        have "il_in_hole ?st" "il_ret ?st = -2" "il_prev_end ?st = vi_end x" using Cons.prems(1) by (simp_all add: walked_def)
        note walk_in_hole [where complete = complete and rest = rest and delta = delta and addr = addr and vs = vs, OF a c this]
        then show ?thesis unfolding e il using lb own ru by (auto simp: s decides_def)
      qed
    next
      case False
      have "\<forall>v \<in> set (vs @ rest). addr < vi_start v"
      proof
        fix v assume v: "v \<in> set (vs @ rest)"
        then have "vi_end x \<le> vi_start v" "vi_start x < vi_end x" using Cons.prems(2) by (auto simp: vmas_ordered_def sorted_wrt_append)
        with False show "addr < vi_start v" by (meson linorder_not_le order.strict_trans1 order.strict_trans2 order_less_trans)
      qed
      then have "\<not> in_load mine delta addr (pre @ (x # vs) @ rest)"
        using False Cons.prems(1) by (intro in_load_none) (auto simp: walked_def)
      then show ?thesis using False \<open>\<not> vi_end x \<le> addr\<close> Cons.prems(1)
        by (auto simp: walked_def in_load_step_def Let_def decides_def in_load_result_def)
    qed
  qed
qed

subsection \<open>The check over a device that keeps its contract\<close>

text \<open>The results as functions of what a scan finds.\<close>

definition in_load_val :: "(pid_t \<Rightarrow> pid_t \<Rightarrow> (pid_t \<times> ac_vma_info list \<times> bool) option) \<Rightarrow> render_fs \<Rightarrow> pid_t \<Rightarrow> ac_map_id \<Rightarrow> u64 \<Rightarrow> u64 \<Rightarrow> int" where
  "in_load_val walk fs pid mid delta addr =
     (case walk pid 0 of
        None \<Rightarrow> -1
      | Some (rp, vs, trunc) \<Rightarrow> in_load_result (\<not> trunc) (walk_list (in_load_step (same_file fs pid mid) delta addr) vs in_load_start))"

definition compare_val ::
  "(pid_t \<Rightarrow> pid_t \<Rightarrow> (pid_t \<times> ac_vma_info list \<times> bool) option) \<Rightarrow> render_fs \<Rightarrow> pid_t \<Rightarrow> (u64 \<Rightarrow> nat \<Rightarrow> byte list option) \<Rightarrow> ac_render_map \<Rightarrow> ac_map_id \<Rightarrow> ac_elf_loc \<Rightarrow> byte list \<Rightarrow> u64 \<Rightarrow> int" where
  "compare_val walk fs pid mem m mid loc expected checklen =
     (let delta = rm_start m - rm_offset m;
          addr = delta + el_file_off loc;
          v1 = in_load_val walk fs pid mid delta addr;
          v2 = (if v1 = 1 then in_load_val walk fs pid mid delta (addr + checklen - 1) else v1)
      in if rm_end m \<le> rm_start m \<or> rm_offset m \<ge> el_seg_end loc \<or> rm_end m - rm_start m > - 1 - rm_offset m \<or>
            rm_offset m + (rm_end m - rm_start m) \<le> el_seg_off loc then -2
         else case pread_all mem addr (unat checklen) of
                None \<Rightarrow> -1
              | Some actual \<Rightarrow> if expected = actual then 0 else if v2 < 0 then -1 else if v2 \<noteq> 0 then 1 else -2)"

context scan_device
begin

lemma call_begin_fails:
  assumes "ready (cl_dev d)" and "walk pid ref_pid = None"
  shows "\<exists>ret b w'. call_scan_begin io pid ref_pid emit d = (ret, b, d\<lparr>cl_dev := w'\<rparr>) \<and> ret < 0 \<and> ready w'"
  using begin_fails [OF assms, of emit] by (auto simp: call_scan_begin_def dev_ioctl_def)

lemma call_begin_succeeds:
  assumes "ready (cl_dev d)" and "walk pid ref_pid = Some (rp, vs, trunc)"
  shows "\<exists>b w'. call_scan_begin io pid ref_pid emit d = (0, b, d\<lparr>cl_dev := w'\<rparr>) \<and> sb_n_vmas b = length vs \<and>
    sb_truncated b = of_bool trunc \<and> sb_resolved_pid b = rp \<and>
    sb_anon_exec_count b = length (filter (\<lambda>v. vi_is_file v = 0 \<and> is_exec (vi_flags v)) vs) \<and> ready w' \<and> held w' = Some vs"
  using begin_succeeds [OF assms, of emit] by (auto simp: call_scan_begin_def dev_ioctl_def)

lemma call_end: "ready (cl_dev d) \<Longrightarrow> \<exists>w'. call_scan_end io d = d\<lparr>cl_dev := w'\<rparr> \<and> ready w'"
  using end_ready [of "cl_dev d"] by (cases "io AC_IOCTL_SCAN_END user0 (cl_dev d)") (auto simp: call_scan_end_def dev_ioctl_def)

lemma clamp_walked: "walk pid ref_pid = Some (rp, vs, trunc) \<Longrightarrow> clamp_vma_count (length vs) d = (length vs, d)"
  using walk_bound [of pid ref_pid rp vs trunc] by (simp add: clamp_vma_count_def)

lemma addr_in_load_walk:
  assumes "ready (cl_dev d)"
  shows "\<exists>w'. render_addr_in_load io fs pid mid delta addr d = (in_load_val walk fs pid mid delta addr, d\<lparr>cl_dev := w'\<rparr>) \<and> ready w'"
proof (cases "walk pid 0")
  case None
  then show ?thesis using call_begin_fails [OF assms, of pid 0 0] by (auto simp: render_addr_in_load_def in_load_val_def)
next
  case (Some r)
  then obtain rp vs trunc where w: "walk pid 0 = Some (rp, vs, trunc)" by (cases r) auto
  obtain b w1 where b: "call_scan_begin io pid 0 0 d = (0, b, d\<lparr>cl_dev := w1\<rparr>)" "sb_n_vmas b = length vs"
    "sb_truncated b = of_bool trunc" "ready w1" "held w1 = Some vs"
    using call_begin_succeeds [OF assms w] by blast
  obtain w2 where l: "scan_loop io pid (in_load_step (same_file fs pid mid) delta addr) [0..<length vs] in_load_start (d\<lparr>cl_dev := w1\<rparr>) =
      (False, walk_list (in_load_step (same_file fs pid mid) delta addr) vs in_load_start, d\<lparr>cl_dev := w2\<rparr>)" "ready w2"
    using scan_loop_walk [of "d\<lparr>cl_dev := w1\<rparr>" vs 0 pid "in_load_step (same_file fs pid mid) delta addr" in_load_start] b walk_bound [OF w] by auto
  obtain w3 where "call_scan_end io (d\<lparr>cl_dev := w2\<rparr>) = d\<lparr>cl_dev := w3\<rparr>" "ready w3"
    using call_end [of "d\<lparr>cl_dev := w2\<rparr>"] l(2) by auto
  then show ?thesis using b l walk_bound [OF w]
    by (auto simp: render_addr_in_load_def in_load_val_def w clamp_walked [OF w])
qed

lemma compare_walk:
  assumes "ready (cl_dev d)"
  shows "\<exists>w'. compare_render_map io fs pid mem m mid loc expected checklen d =
      (compare_val walk fs pid mem m mid loc expected checklen, d\<lparr>cl_dev := w'\<rparr>) \<and> ready w'"
proof -
  let ?delta = "rm_start m - rm_offset m"
  let ?addr = "?delta + el_file_off loc"
  obtain w1 where a: "render_addr_in_load io fs pid mid ?delta ?addr d = (in_load_val walk fs pid mid ?delta ?addr, d\<lparr>cl_dev := w1\<rparr>)" "ready w1"
    using addr_in_load_walk [OF assms] by blast
  obtain w2 where b: "render_addr_in_load io fs pid mid ?delta (?addr + checklen - 1) (d\<lparr>cl_dev := w1\<rparr>) =
      (in_load_val walk fs pid mid ?delta (?addr + checklen - 1), d\<lparr>cl_dev := w2\<rparr>)" "ready w2"
    using addr_in_load_walk [of "d\<lparr>cl_dev := w1\<rparr>"] a(2) by fastforce
  have k: "d\<lparr>cl_dev := cl_dev d\<rparr> = d" by simp
  show ?thesis
    unfolding compare_render_map_def compare_val_def Let_def a(1) prod.case
    using assms a b k by (auto split: option.split intro: exI [of _ "cl_dev d"])
qed

end

subsection \<open>The verdict on a library\<close>

text \<open>What noting a set of comparison results does to the flags and the reported path.\<close>

definition noted :: "lib_check \<Rightarrow> (ac_render_map \<times> int) set \<Rightarrow> lib_check \<Rightarrow> bool" where
  "noted c S c' \<longleftrightarrow>
     (lc_hooked c' \<longleftrightarrow> lc_hooked c \<or> (\<exists>m. (m, 1) \<in> S)) \<and>
     (lc_inconclusive c' \<longleftrightarrow> lc_inconclusive c \<or> (\<exists>m. (m, -1) \<in> S)) \<and>
     (lc_clean c' \<longleftrightarrow> lc_clean c \<or> (\<exists>m. (m, 0) \<in> S)) \<and>
     (if lc_hooked c' \<and> \<not> lc_hooked c then \<exists>m. (m, 1) \<in> S \<and> lc_path c' = take (AC_VMA_PATH - 1) (rm_path m)
      else lc_path c' = lc_path c)"

lemma noted_refl: "noted c {} c"
  by (simp add: noted_def)

lemma noted_trans:
  assumes "noted c S c1" and "noted c1 T c2"
  shows "noted c (S \<union> T) c2"
proof -
  note a = assms(1) [unfolded noted_def] and b = assms(2) [unfolded noted_def]
  have p: "if lc_hooked c2 \<and> \<not> lc_hooked c then \<exists>m. (m, 1) \<in> S \<union> T \<and> lc_path c2 = take (AC_VMA_PATH - 1) (rm_path m) else lc_path c2 = lc_path c"
  proof (cases "lc_hooked c1")
    case True
    then have "lc_path c2 = lc_path c1" "lc_hooked c2" using b by (metis, blast)
    moreover have "if \<not> lc_hooked c then \<exists>m. (m, 1) \<in> S \<and> lc_path c1 = take (AC_VMA_PATH - 1) (rm_path m) else lc_path c1 = lc_path c"
      using True a by metis
    ultimately show ?thesis by auto
  next
    case False
    then have "lc_path c1 = lc_path c" "\<not> lc_hooked c" using a by (metis, blast)
    moreover have "if lc_hooked c2 then \<exists>m. (m, 1) \<in> T \<and> lc_path c2 = take (AC_VMA_PATH - 1) (rm_path m) else lc_path c2 = lc_path c1"
      using False b by metis
    ultimately show ?thesis by auto
  qed
  have "lc_hooked c2 \<longleftrightarrow> lc_hooked c \<or> (\<exists>m. (m, 1) \<in> S \<union> T)" "lc_inconclusive c2 \<longleftrightarrow> lc_inconclusive c \<or> (\<exists>m. (m, -1) \<in> S \<union> T)"
    "lc_clean c2 \<longleftrightarrow> lc_clean c \<or> (\<exists>m. (m, 0) \<in> S \<union> T)" using a b by blast+
  with p show ?thesis unfolding noted_def by blast
qed

lemma noted_one: "noted c {(m, r)} (lib_note m r c)"
  by (auto simp: noted_def lib_note_def)

text \<open>The reference of a file is read through its first mapping.\<close>

definition ref_for ::
  "render_fs \<Rightarrow> pid_t \<Rightarrow> string \<Rightarrow> (ac_render_map \<times> ac_map_id option) list \<Rightarrow> ac_map_id \<Rightarrow> (ac_elf_loc \<times> byte list \<times> u64) option" where
  "ref_for fs pid symbol ms mid =
     (case find (\<lambda>(m, i). i = Some mid) ms of None \<Rightarrow> None | Some (m, _) \<Rightarrow> load_render_reference fs pid m mid symbol)"

definition map_val ::
  "(pid_t \<Rightarrow> pid_t \<Rightarrow> (pid_t \<times> ac_vma_info list \<times> bool) option) \<Rightarrow> render_fs \<Rightarrow> pid_t \<Rightarrow> (u64 \<Rightarrow> nat \<Rightarrow> byte list option) \<Rightarrow>
     (ac_elf_loc \<times> byte list \<times> u64) option \<Rightarrow> ac_map_id \<Rightarrow> ac_render_map \<Rightarrow> int" where
  "map_val walk fs pid mem ref mid m =
     (case ref of None \<Rightarrow> -1 | Some (loc, expected, checklen) \<Rightarrow> compare_val walk fs pid mem m mid loc expected checklen)"

context scan_device
begin

lemma group_walk:
  assumes "\<And>m d. ready (cl_dev d) \<Longrightarrow> \<exists>w'. cmp m d = (f m, d\<lparr>cl_dev := w'\<rparr>) \<and> ready w'" and "ready (cl_dev d)"
  shows "\<exists>c' w'. group_loop cmp mid ms c d = (c', d\<lparr>cl_dev := w'\<rparr>) \<and> ready w' \<and> noted c {(m, f m) | m. (m, Some mid) \<in> set ms} c'"
  using assms(2)
proof (induction ms arbitrary: c d)
  case Nil
  then show ?case by (intro exI [of _ c] exI [of _ "cl_dev d"]) (simp add: noted_refl)
next
  case (Cons x ms)
  obtain m i where x: "x = (m, i)" by fastforce
  show ?case
  proof (cases "i = Some mid")
    case True
    obtain w1 where w1: "cmp m d = (f m, d\<lparr>cl_dev := w1\<rparr>)" "ready w1" using assms(1) [OF Cons.prems] by blast
    obtain c' w2 where g: "group_loop cmp mid ms (lib_note m (f m) c) (d\<lparr>cl_dev := w1\<rparr>) = (c', d\<lparr>cl_dev := w2\<rparr>)" "ready w2"
      "noted (lib_note m (f m) c) {(m, f m) | m. (m, Some mid) \<in> set ms} c'"
      using Cons.IH [of "d\<lparr>cl_dev := w1\<rparr>" "lib_note m (f m) c"] w1(2) by auto
    have "{(m, f m)} \<union> {(m, f m) | m. (m, Some mid) \<in> set ms} = {(m, f m) | m. (m, Some mid) \<in> set (x # ms)}"
      using True by (auto simp: x)
    then show ?thesis using noted_trans [OF noted_one g(3)] w1 g True by (auto simp: x)
  next
    case False
    then have "{(m, f m) | m. (m, Some mid) \<in> set (x # ms)} = {(m, f m) | m. (m, Some mid) \<in> set ms}" by (auto simp: x)
    with Cons.IH [OF Cons.prems] False show ?thesis by (simp add: x)
  qed
qed

lemma lib_walk:
  fixes d :: "('w, 'b) ac_client_scheme"
  assumes "ready (cl_dev d)"
  shows "\<exists>c' w'. lib_loop io fs pid mem symbol (map snd pre) ms c d = (c', d\<lparr>cl_dev := w'\<rparr>) \<and> ready w' \<and>
    noted c {(m, map_val walk fs pid mem (ref_for fs pid symbol (pre @ ms) mid) mid m) | m mid.
               (m, Some mid) \<in> set ms \<and> Some mid \<notin> set (map snd pre)} c'"
  using assms
proof (induction ms arbitrary: pre c d)
  case Nil
  then show ?case by (intro exI [of _ c] exI [of _ "cl_dev d"]) (simp add: noted_refl)
next
  case (Cons x ms)
  obtain m i where x: "x = (m, i)" by fastforce
  define F where "F mid m = map_val walk fs pid mem (ref_for fs pid symbol (pre @ x # ms) mid) mid m" for mid m
  define V where "V pre0 ms0 = {(m, F mid m) | m mid. (m, Some mid) \<in> set ms0 \<and> Some mid \<notin> set (map snd pre0)}"
    for pre0 ms0 :: "(ac_render_map \<times> ac_map_id option) list"
  have IH: "\<exists>c' w'. lib_loop io fs pid mem symbol (map snd pre @ [i]) ms c1 (d\<lparr>cl_dev := w1\<rparr>) = (c', d\<lparr>cl_dev := w'\<rparr>) \<and> ready w' \<and>
      noted c1 (V (pre @ [x]) ms) c'" if "ready w1" for c1 w1
    using Cons.IH [of "d\<lparr>cl_dev := w1\<rparr>" "pre @ [x]" c1] that unfolding V_def F_def by (simp add: x)
  have k: "d\<lparr>cl_dev := cl_dev d\<rparr> = d" by simp
  show ?case
  proof (cases "i = None \<or> i \<in> set (map snd pre)")
    case True
    then have "V pre (x # ms) = V (pre @ [x]) ms" unfolding V_def by (auto simp: x)
    moreover have "lib_loop io fs pid mem symbol (map snd pre) (x # ms) c d = lib_loop io fs pid mem symbol (map snd pre @ [i]) ms c d"
      using True by (cases i) (auto simp: x simp del: set_map)
    ultimately show ?thesis using IH [OF Cons.prems, of c] k unfolding V_def F_def by simp
  next
    case False
    then obtain mid where i: "i = Some mid" "Some mid \<notin> set (map snd pre)" by auto
    let ?ref = "load_render_reference fs pid m mid symbol"
    let ?cmp = "case ?ref of Some (loc, expected, checklen) \<Rightarrow> (\<lambda>mj. compare_render_map io fs pid mem mj mid loc expected checklen)
                | None \<Rightarrow> (\<lambda>mj d. (-1, d))"
    have "find (\<lambda>(m, i). i = Some mid) (pre @ x # ms) = Some x"
      using i by (induction pre) (auto simp: x)
    then have ref: "ref_for fs pid symbol (pre @ x # ms) mid = ?ref" by (simp add: ref_for_def x)
    have cmp: "\<exists>w'. ?cmp m' d' = (map_val walk fs pid mem ?ref mid m', d'\<lparr>cl_dev := w'\<rparr>) \<and> ready w'"
      if "ready (cl_dev d')" for m' and d' :: "('w, 'b) ac_client_scheme"
      using compare_walk [OF that] that by (cases ?ref) (auto simp: map_val_def intro: exI [of _ "cl_dev d'"])
    obtain c1 w1 where g: "group_loop ?cmp mid (x # ms) c d = (c1, d\<lparr>cl_dev := w1\<rparr>)" "ready w1"
      "noted c {(m, map_val walk fs pid mem ?ref mid m) | m. (m, Some mid) \<in> set (x # ms)} c1"
      using group_walk [of ?cmp, OF cmp Cons.prems] by blast
    obtain c2 w2 where l: "lib_loop io fs pid mem symbol (map snd pre @ [i]) ms c1 (d\<lparr>cl_dev := w1\<rparr>) = (c2, d\<lparr>cl_dev := w2\<rparr>)" "ready w2"
      "noted c1 (V (pre @ [x]) ms) c2" using IH [OF g(2)] by blast
    have Fm: "map_val walk fs pid mem ?ref mid m' = F mid m'" for m' by (simp add: F_def ref)
    have "{(m, F mid m) | m. (m, Some mid) \<in> set (x # ms)} \<union> V (pre @ [x]) ms = V pre (x # ms)"
      using i unfolding V_def x by fastforce
    with noted_trans [OF g(3) [unfolded Fm] l(3)] have n: "noted c (V pre (x # ms)) c2" by simp
    have "lib_loop io fs pid mem symbol (map snd pre) (x # ms) c d = (c2, d\<lparr>cl_dev := w2\<rparr>)"
      using i g(1) l(1) by (simp add: x Let_def)
    with l(2) n show ?thesis unfolding V_def F_def by blast
  qed
qed

lemma check_lib_walk:
  fixes d :: "('w, 'b) ac_client_scheme"
  assumes "ready (cl_dev d)" and "rf_alive fs pid" and "rf_mem fs (proc_mem_path pid) = Some mem"
    and ms: "ms = map (\<lambda>m. (m, render_map_id fs pid m)) (lr_maps res)"
    and val: "\<And>m mid. val m mid = map_val walk fs pid mem (ref_for fs pid symbol ms mid) mid m"
  shows "\<exists>path w'. check_render_lib io fs pid res symbol d =
    ((if \<exists>m mid. (m, Some mid) \<in> set ms \<and> val m mid = 1 then 1
      else if lr_incomplete res \<or> (\<exists>m. (m, None) \<in> set ms) \<or> (\<exists>m mid. (m, Some mid) \<in> set ms \<and> val m mid = -1) \<or>
              \<not> (\<exists>m mid. (m, Some mid) \<in> set ms \<and> val m mid = 0) then -1 else 0, path), d\<lparr>cl_dev := w'\<rparr>) \<and> ready w'"
proof -
  let ?lp = "case lr_maps res of [] \<Rightarrow> [] | m # _ \<Rightarrow> take (AC_VMA_PATH - 1) (rm_path m)"
  let ?c0 = "\<lparr>lc_hooked = False, lc_inconclusive = lr_incomplete res \<or> None \<in> set (map snd ms), lc_clean = False, lc_path = ?lp\<rparr>"
  obtain c' w' where l: "lib_loop io fs pid mem symbol [] ms ?c0 d = (c', d\<lparr>cl_dev := w'\<rparr>)" "ready w'"
    "noted ?c0 {(m, val m mid) | m mid. (m, Some mid) \<in> set ms} c'"
    using lib_walk [OF assms(1), of fs pid mem symbol "[]" ms ?c0] by (auto simp: val)
  have v: "(\<exists>m. (m, r) \<in> {(m, val m mid) | m mid. (m, Some mid) \<in> set ms}) \<longleftrightarrow> (\<exists>m mid. (m, Some mid) \<in> set ms \<and> val m mid = r)" for r
    by blast
  have n: "None \<in> set (map snd ms) \<longleftrightarrow> (\<exists>m. (m, None) \<in> set ms)" by force
  have "check_render_lib io fs pid res symbol d = ((lib_verdict c', lc_path c'), d\<lparr>cl_dev := w'\<rparr>)"
    using assms(2,3) l(1) unfolding check_render_lib_def Let_def ms [symmetric] by (simp del: set_map)
  moreover have "lc_hooked c' \<longleftrightarrow> (\<exists>m mid. (m, Some mid) \<in> set ms \<and> val m mid = 1)"
    "lc_inconclusive c' \<longleftrightarrow> lr_incomplete res \<or> (\<exists>m. (m, None) \<in> set ms) \<or> (\<exists>m mid. (m, Some mid) \<in> set ms \<and> val m mid = -1)"
    "lc_clean c' \<longleftrightarrow> (\<exists>m mid. (m, Some mid) \<in> set ms \<and> val m mid = 0)"
    using l(3) unfolding noted_def v by (simp_all only: n lib_check.simps simp_thms disj_assoc)
  ultimately have "check_render_lib io fs pid res symbol d =
    ((if \<exists>m mid. (m, Some mid) \<in> set ms \<and> val m mid = 1 then 1
      else if lr_incomplete res \<or> (\<exists>m. (m, None) \<in> set ms) \<or> (\<exists>m mid. (m, Some mid) \<in> set ms \<and> val m mid = -1) \<or>
              \<not> (\<exists>m mid. (m, Some mid) \<in> set ms \<and> val m mid = 0) then -1 else 0, lc_path c'), d\<lparr>cl_dev := w'\<rparr>)"
    unfolding lib_verdict_def by simp
  then show ?thesis using l(2) by blast
qed

end

subsection \<open>The verdict against the process's mappings\<close>

definition predicts :: "ac_render_map \<Rightarrow> ac_elf_loc \<Rightarrow> bool" where
  "predicts m loc \<longleftrightarrow> rm_start m < rm_end m \<and> rm_offset m < el_seg_end loc \<and> rm_end m - rm_start m \<le> - 1 - rm_offset m \<and>
     el_seg_off loc < rm_offset m + (rm_end m - rm_start m)"

definition predicted :: "ac_render_map \<Rightarrow> ac_elf_loc \<Rightarrow> u64" where
  "predicted m loc = rm_start m - rm_offset m + el_file_off loc"

text \<open>
  The symbol is hooked at a mapping: at the address that the mapping predicts, memory differs from the reference, and the
  first and the last byte compared lie in the load of the mapping's file.
\<close>

definition render_hooked ::
  "(ac_map_id \<Rightarrow> ac_vma_info \<Rightarrow> bool) \<Rightarrow> ac_vma_info list \<Rightarrow> (u64 \<Rightarrow> nat \<Rightarrow> byte list option) \<Rightarrow>
     (ac_elf_loc \<times> byte list \<times> u64) option \<Rightarrow> ac_map_id \<Rightarrow> ac_render_map \<Rightarrow> bool" where
  "render_hooked mine vmas mem ref mid m \<longleftrightarrow>
     (\<exists>loc expected len actual. ref = Some (loc, expected, len) \<and> predicts m loc \<and>
        pread_all mem (predicted m loc) (unat len) = Some actual \<and> actual \<noteq> expected \<and>
        in_load (mine mid) (rm_start m - rm_offset m) (predicted m loc) vmas \<and>
        in_load (mine mid) (rm_start m - rm_offset m) (predicted m loc + len - 1) vmas)"

definition render_clean ::
  "(u64 \<Rightarrow> nat \<Rightarrow> byte list option) \<Rightarrow> (ac_elf_loc \<times> byte list \<times> u64) option \<Rightarrow> ac_render_map \<Rightarrow> bool" where
  "render_clean mem ref m \<longleftrightarrow>
     (\<exists>loc expected len. ref = Some (loc, expected, len) \<and> predicts m loc \<and> pread_all mem (predicted m loc) (unat len) = Some expected)"

lemma compare_val_cases:
  "compare_val walk fs pid mem m mid loc expected len =
     (if \<not> predicts m loc then -2
      else case pread_all mem (predicted m loc) (unat len) of
             None \<Rightarrow> -1
           | Some actual \<Rightarrow>
               if expected = actual then 0
               else let v1 = in_load_val walk fs pid mid (rm_start m - rm_offset m) (predicted m loc);
                        v2 = (if v1 = 1 then in_load_val walk fs pid mid (rm_start m - rm_offset m) (predicted m loc + len - 1) else v1)
                    in if v2 < 0 then -1 else if v2 \<noteq> 0 then 1 else -2)"
  by (auto simp: compare_val_def predicts_def predicted_def Let_def not_le not_less split: option.split)

lemma map_val_sound:
  assumes "\<And>a. decides (in_load_val walk fs pid mid (rm_start m - rm_offset m) a) (in_load (mine mid) (rm_start m - rm_offset m) a vmas)"
  shows "(map_val walk fs pid mem ref mid m = 1 \<longrightarrow> render_hooked mine vmas mem ref mid m) \<and>
    (map_val walk fs pid mem ref mid m = 0 \<longleftrightarrow> render_clean mem ref m) \<and>
    (map_val walk fs pid mem ref mid m \<noteq> -1 \<longrightarrow> map_val walk fs pid mem ref mid m = 1 \<or> \<not> render_hooked mine vmas mem ref mid m) \<and>
    ((\<forall>a. in_load_val walk fs pid mid (rm_start m - rm_offset m) a \<noteq> -1) \<and> render_hooked mine vmas mem ref mid m \<longrightarrow>
       map_val walk fs pid mem ref mid m = 1)"
proof (cases ref)
  case None
  then show ?thesis by (simp add: map_val_def render_hooked_def render_clean_def)
next
  case (Some r)
  then obtain loc expected len where r: "ref = Some (loc, expected, len)" by (cases r) auto
  note d1 = assms [of "predicted m loc"] and d2 = assms [of "predicted m loc + len - 1"]
  show ?thesis
  proof (cases "predicts m loc \<and> (\<exists>actual. pread_all mem (predicted m loc) (unat len) = Some actual \<and> actual \<noteq> expected)")
    case True
    then obtain actual where "predicts m loc" "pread_all mem (predicted m loc) (unat len) = Some actual" "actual \<noteq> expected" by blast
    then show ?thesis using d1 d2
      by (auto simp: r map_val_def compare_val_cases render_hooked_def render_clean_def Let_def decides_def)
  next
    case False
    then show ?thesis by (auto simp: r map_val_def compare_val_cases render_hooked_def render_clean_def split: option.split)
  qed
qed

lemma in_load_val_decides:
  assumes "scan_target ev pid 0 = Some t" and "vmas = map (vma_entry (de_alloc_path ev)) (de_vmas ev (tk_mm t))"
    and "vmas_ordered vmas" and "agrees (same_file fs pid mid) mine"
  shows "decides (in_load_val (kernel_walk ev) fs pid mid delta a) (in_load mine delta a vmas) \<and>
    (tk_mm t \<noteq> 0 \<and> de_alloc_snapshot ev \<and> length vmas \<le> AC_MAX_VMAS \<and> (\<forall>v \<in> set vmas. same_file fs pid mid v \<noteq> -1) \<longrightarrow>
       in_load_val (kernel_walk ev) fs pid mid delta a \<noteq> -1)"
proof (cases "tk_mm t = 0 \<or> \<not> de_alloc_snapshot ev")
  case True
  then show ?thesis using assms(1) by (auto simp: in_load_val_def kernel_walk_def decides_def)
next
  case False
  let ?vs = "take AC_MAX_VMAS vmas" and ?rest = "drop AC_MAX_VMAS vmas"
  have w: "kernel_walk ev pid 0 = Some (tk_pid t, ?vs, AC_MAX_VMAS < length vmas)"
    using False assms(1) by (simp add: kernel_walk_def assms(2) take_map)
  have "walked (same_file fs pid mid) mine a [] in_load_start" by (simp add: walked_def in_load_start_def decides_def)
  note walk_in_load [where complete = "\<not> AC_MAX_VMAS < length vmas" and pre = "[]" and vs = ?vs and rest = ?rest and delta = delta, OF assms(4) _ this]
  then show ?thesis using assms(3) unfolding in_load_val_def w by (auto dest: in_set_takeD)
qed

text \<open>C39: The render-hook verdict on a library is right against the mappings that the module walks: hooked is reported only if the
  symbol really differs at some mapping inside that file's own span, clean only if nothing was left out, every mapping is
  identified, none is hooked and one was compared, so a clean decoy hides nothing; and when every mapping can be
  identified and the snapshot is complete, a hooked mapping is always reported.  Unknown identities never decide.\<close>

theorem render_verdict_exact:
  assumes "kernel_ready ev (cl_dev d)" and "scan_target ev pid 0 = Some t"
    and "vmas = map (vma_entry (de_alloc_path ev)) (de_vmas ev (tk_mm t))" and "vmas_ordered vmas"
    and "\<And>mid. agrees (same_file fs pid mid) (mine mid)"
    and "rf_alive fs pid" and "rf_mem fs (proc_mem_path pid) = Some mem"
    and "ms = map (\<lambda>m. (m, render_map_id fs pid m)) (lr_maps res)"
    and "check_render_lib (kernel_io k ev) fs pid res symbol d = ((v, path), d')"
  shows "v \<in> {-1, 0, 1} \<and>
    (v = 1 \<longrightarrow> (\<exists>m mid. (m, Some mid) \<in> set ms \<and> render_hooked mine vmas mem (ref_for fs pid symbol ms mid) mid m)) \<and>
    (v = 0 \<longrightarrow> \<not> lr_incomplete res \<and> (\<forall>m i. (m, i) \<in> set ms \<longrightarrow>
                  (\<exists>mid. i = Some mid \<and> \<not> render_hooked mine vmas mem (ref_for fs pid symbol ms mid) mid m)) \<and>
       (\<exists>m mid. (m, Some mid) \<in> set ms \<and> render_clean mem (ref_for fs pid symbol ms mid) m)) \<and>
    (tk_mm t \<noteq> 0 \<and> de_alloc_snapshot ev \<and> length vmas \<le> AC_MAX_VMAS \<and> (\<forall>v \<in> set vmas. \<forall>mid. same_file fs pid mid v \<noteq> -1) \<and>
       (\<exists>m mid. (m, Some mid) \<in> set ms \<and> render_hooked mine vmas mem (ref_for fs pid symbol ms mid) mid m) \<longrightarrow> v = 1)"
proof -
  define val where "val m mid = map_val (kernel_walk ev) fs pid mem (ref_for fs pid symbol ms mid) mid m" for m mid
  define hk where "hk m mid \<longleftrightarrow> render_hooked mine vmas mem (ref_for fs pid symbol ms mid) mid m" for m mid
  define cl where "cl m mid \<longleftrightarrow> render_clean mem (ref_for fs pid symbol ms mid) m" for m mid
  note dec = in_load_val_decides [OF assms(2-5)]
  have s: "(val m mid = 1 \<longrightarrow> hk m mid) \<and> (val m mid = 0 \<longleftrightarrow> cl m mid) \<and> (val m mid \<noteq> -1 \<longrightarrow> val m mid = 1 \<or> \<not> hk m mid)"
    and full: "(\<forall>a. in_load_val (kernel_walk ev) fs pid mid (rm_start m - rm_offset m) a \<noteq> -1) \<and> hk m mid \<longrightarrow> val m mid = 1" for m mid
    unfolding val_def hk_def cl_def
    using map_val_sound [of "kernel_walk ev" fs pid mid m mine vmas mem "ref_for fs pid symbol ms mid", OF dec [THEN conjunct1]] by blast+
  obtain path' w' where c: "check_render_lib (kernel_io k ev) fs pid res symbol d =
    ((if \<exists>m mid. (m, Some mid) \<in> set ms \<and> val m mid = 1 then 1
      else if lr_incomplete res \<or> (\<exists>m. (m, None) \<in> set ms) \<or> (\<exists>m mid. (m, Some mid) \<in> set ms \<and> val m mid = -1) \<or>
              \<not> (\<exists>m mid. (m, Some mid) \<in> set ms \<and> val m mid = 0) then -1 else 0, path'), d\<lparr>cl_dev := w'\<rparr>)"
    using kdev.check_lib_walk [OF assms(1,6,7,8), of val symbol k] val_def by blast
  have v: "v = (if \<exists>m mid. (m, Some mid) \<in> set ms \<and> val m mid = 1 then 1
      else if lr_incomplete res \<or> (\<exists>m. (m, None) \<in> set ms) \<or> (\<exists>m mid. (m, Some mid) \<in> set ms \<and> val m mid = -1) \<or>
              \<not> (\<exists>m mid. (m, Some mid) \<in> set ms \<and> val m mid = 0) then -1 else 0)"
    using c assms(9) by simp
  have "v = 1 \<longrightarrow> (\<exists>m mid. (m, Some mid) \<in> set ms \<and> hk m mid)" "v \<in> {-1, 0, 1}" unfolding v using s by (auto split: if_splits)
  moreover have "v = 0 \<longrightarrow> \<not> lr_incomplete res \<and> (\<forall>m i. (m, i) \<in> set ms \<longrightarrow> (\<exists>mid. i = Some mid \<and> \<not> hk m mid)) \<and> (\<exists>m mid. (m, Some mid) \<in> set ms \<and> cl m mid)"
    unfolding v using s by (auto split: if_splits) (metis option.exhaust)
  moreover have "v = 1" if "tk_mm t \<noteq> 0 \<and> de_alloc_snapshot ev \<and> length vmas \<le> AC_MAX_VMAS \<and> (\<forall>v \<in> set vmas. \<forall>mid. same_file fs pid mid v \<noteq> -1)"
    and h: "(m, Some mid) \<in> set ms" "hk m mid" for m mid
  proof -
    have "\<forall>a. in_load_val (kernel_walk ev) fs pid mid (rm_start m - rm_offset m) a \<noteq> -1" using that(1) dec by blast
    with full h show ?thesis unfolding v by auto
  qed
  ultimately show ?thesis unfolding hk_def cl_def by blast
qed

subsection \<open>A hooked library\<close>

text \<open>The file mapping of process 8 is the library; its present call reads as breakpoints in memory.\<close>

definition demo_rfs :: render_fs where
  "demo_rfs = \<lparr>rf_stat = (\<lambda>_. Some \<lparr>fs_reg = True, fs_dev = 1, fs_ino = 12\<rparr>), rf_open = (\<lambda>_. Some (Some \<lparr>fs_reg = True, fs_dev = 1, fs_ino = 12\<rparr>, demo_elf)),
     rf_alloc = (\<lambda>_. True), rf_alive = (\<lambda>_. True), rf_mem = (\<lambda>_. Some (\<lambda>a n. Some (replicate n 0xCC)))\<rparr>"

definition demo_map :: ac_render_map where
  "demo_map = \<lparr>rm_start = 0x4000, rm_end = 0x5000, rm_offset = 0x1000, rm_inode = 12, rm_path = ''/bin/game''\<rparr>"

definition demo_client :: "(ac_fd_state option \<times> ac_dev) ac_client" where
  "demo_client = \<lparr>cl_log = [], cl_dev = (None, demo_dev)\<rparr>"

lemma demo_render_ref:
  "ref_for demo_rfs 8 ''ab'' [(demo_map, render_map_id demo_rfs 8 demo_map)] \<lparr>id_dev = 1, id_ino = 12\<rparr> =
     Some (\<lparr>el_file_off = 0x1010, el_seg_off = 0x1000, el_seg_end = 0x1100\<rparr>, replicate 32 0x90, 32)"
proof -
  have "render_map_id demo_rfs 8 demo_map = Some \<lparr>id_dev = 1, id_ino = 12\<rparr>"
    by (simp add: render_map_id_def map_file_identity_def demo_rfs_def)
  moreover have "pread_all demo_elf 0x1010 32 = Some (replicate 32 0x90)" by (simp add: pread_all_def demo_elf_def)
  ultimately show ?thesis
    by (simp add: ref_for_def load_render_reference_def demo_rfs_def demo_elf_finds hook_checklen_def AC_HOOK_CHECK_MIN_BYTES_def AC_HOOK_CHECK_MAX_BYTES_def
        word_less_nat_alt)
qed

theorem render_verdict_exact_witness:
  "fst (fst (check_render_lib (kernel_io demo_dvk demo_env) demo_rfs 8 \<lparr>lr_maps = [demo_map], lr_incomplete = False\<rparr> ''ab'' demo_client)) = 1"
proof -
  let ?res = "\<lparr>lr_maps = [demo_map], lr_incomplete = False\<rparr>"
  let ?mid = "\<lparr>id_dev = 1, id_ino = 12\<rparr> :: ac_map_id"
  let ?mine = "\<lambda>mid v. vi_is_file v \<noteq> 0 \<and> mid = ?mid"
  let ?mem = "\<lambda>a n. Some (replicate n 0xCC) :: byte list option"
  let ?vmas = "map (vma_entry (de_alloc_path demo_env)) (de_vmas demo_env 8192)"
  let ?ms = "map (\<lambda>m. (m, render_map_id demo_rfs 8 m)) (lr_maps ?res)"
  obtain v path d' where c: "check_render_lib (kernel_io demo_dvk demo_env) demo_rfs 8 ?res ''ab'' demo_client = ((v, path), d')"
    by (metis prod.exhaust)
  have h1: "kernel_ready demo_env (cl_dev demo_client)" by (simp add: kernel_ready_def demo_client_def demo_env_def)
  have h2: "scan_target demo_env 8 0 = Some (demo_cur\<lparr>tk_pid := 8, tk_tgid := 8, tk_mm := 8192\<rparr>)"
    using demo_task by (simp add: scan_target_def demo_env_def)
  have vs: "?vmas = [vma_entry True (demo_vmas ! 0), vma_entry True (demo_vmas ! 1)]" by (simp add: demo_env_def demo_vmas_def)
  have h4: "vmas_ordered ?vmas" unfolding vs by (simp add: vmas_ordered_def vma_entry_fields demo_vmas_def word_less_nat_alt word_le_nat_alt)
  have h5: "agrees (same_file demo_rfs 8 mid) (?mine mid)" for mid
    by (cases mid) (auto simp: agrees_def same_file_def map_file_identity_def demo_rfs_def)
  have id: "render_map_id demo_rfs 8 demo_map = Some ?mid" by (simp add: render_map_id_def map_file_identity_def demo_rfs_def)
  have il: "in_load (?mine ?mid) 0x3000 a ?vmas" if "0x4000 \<le> a" "a < 0x5000" for a
    unfolding in_load_def vs
    by (rule exI [of _ "[vma_entry True (demo_vmas ! 0)]"], rule exI [of _ "vma_entry True (demo_vmas ! 1)"], rule exI [of _ "[]"])
       (use that in \<open>simp add: vma_entry_fields demo_vmas_def\<close>)
  have hk: "render_hooked ?mine ?vmas ?mem (ref_for demo_rfs 8 ''ab'' ?ms ?mid) ?mid demo_map"
    using il [of "0x4010"] il [of "0x402f"] demo_render_ref
    by (simp add: render_hooked_def predicts_def predicted_def demo_map_def pread_all_def word_less_nat_alt word_le_nat_alt)
  have mem: "rf_alive demo_rfs 8" "rf_mem demo_rfs (proc_mem_path 8) = Some ?mem" by (simp_all add: demo_rfs_def)
  have env: "tk_mm (demo_cur\<lparr>tk_pid := 8, tk_tgid := 8, tk_mm := 8192\<rparr>) = 8192" by simp
  have known: "(8192 :: mm_ptr) \<noteq> 0" "de_alloc_snapshot demo_env" "length ?vmas \<le> AC_MAX_VMAS" "\<forall>v \<in> set ?vmas. \<forall>mid. same_file demo_rfs 8 mid v \<noteq> -1"
    by (simp_all add: demo_env_def demo_vmas_def AC_MAX_VMAS_def same_file_def map_file_identity_def demo_rfs_def)
  have m: "(demo_map, Some ?mid) \<in> set ?ms" using id by simp
  have "v = 1"
    using render_verdict_exact [where mine = ?mine, OF h1 h2 refl _ h5 mem refl c, unfolded env, OF h4] known hk m by blast
  with c show ?thesis by simp
qed

subsection \<open>Which mappings are checked\<close>

text \<open>An executable file mapping whose basename is the library's.\<close>

definition render_cand :: "string \<Rightarrow> ac_vma_info \<Rightarrow> bool" where
  "render_cand soname vi \<longleftrightarrow> vi_is_file vi \<noteq> 0 \<and> vi_path vi \<noteq> [] \<and> is_exec (vi_flags vi) \<and> render_lib_name_matches (basename_of (vi_path vi)) soname"

definition lib_found :: "ac_vma_info list \<Rightarrow> bool \<Rightarrow> string \<Rightarrow> ac_lib_result" where
  "lib_found vs trunc soname =
     \<lparr>lr_maps = take AC_RENDER_MAX_MAPS (map vma_render_map (filter (render_cand soname) vs)),
      lr_incomplete = (trunc \<or> AC_RENDER_MAX_MAPS < length (filter (render_cand soname) vs))\<rparr>"

lemma find_step_cand:
  "find_step vi (map F AC_RENDER_APIS) = (False, map (\<lambda>a. if render_cand (fst a) vi then lib_add vi (fst a) (F a) else F a) AC_RENDER_APIS)"
  by (auto simp: find_step_def AC_RENDER_APIS_def render_cand_def is_exec_def lib_add_def)

lemma lib_found_Nil: "lib_found [] False soname = \<lparr>lr_maps = [], lr_incomplete = False\<rparr>"
  by (simp add: lib_found_def)

lemma lib_found_snoc:
  "lib_found (vs @ [vi]) False soname = (if render_cand soname vi then lib_add vi soname (lib_found vs False soname) else lib_found vs False soname)"
  by (auto simp: lib_found_def lib_add_def render_cand_def)

lemma walk_find:
  "walk_list find_step vs (map (\<lambda>a. lib_found pre False (fst a)) AC_RENDER_APIS) = map (\<lambda>a. lib_found (pre @ vs) False (fst a)) AC_RENDER_APIS"
proof (induction vs arbitrary: pre)
  case (Cons x vs)
  show ?case using Cons.IH [of "pre @ [x]"] by (simp add: find_step_cand lib_found_snoc)
qed simp

lemma lib_found_incomplete: "(lib_found vs False soname)\<lparr>lr_incomplete := True\<rparr> = lib_found vs True soname"
  by (simp add: lib_found_def)

context scan_device
begin

lemma find_maps_walk:
  assumes "ready (cl_dev d)" and "walk pid 0 = Some (rp, vs, trunc)"
  shows "\<exists>w'. find_render_lib_maps io pid d = (Some (map (\<lambda>a. lib_found vs trunc (fst a)) AC_RENDER_APIS), d\<lparr>cl_dev := w'\<rparr>) \<and> ready w'"
proof -
  obtain b w1 where b: "call_scan_begin io pid 0 0 d = (0, b, d\<lparr>cl_dev := w1\<rparr>)" "sb_n_vmas b = length vs"
    "sb_truncated b = of_bool trunc" "ready w1" "held w1 = Some vs"
    using call_begin_succeeds [OF assms] by blast
  let ?init = "map (\<lambda>_. \<lparr>lr_maps = [], lr_incomplete = False\<rparr>) AC_RENDER_APIS"
  obtain w2 where l: "scan_loop io pid find_step [0..<length vs] ?init (d\<lparr>cl_dev := w1\<rparr>) = (False, walk_list find_step vs ?init, d\<lparr>cl_dev := w2\<rparr>)" "ready w2"
    using scan_loop_walk [of "d\<lparr>cl_dev := w1\<rparr>" vs 0 pid find_step ?init] b walk_bound [OF assms(2)] by auto
  obtain w3 where e: "call_scan_end io (d\<lparr>cl_dev := w2\<rparr>) = d\<lparr>cl_dev := w3\<rparr>" "ready w3"
    using call_end [of "d\<lparr>cl_dev := w2\<rparr>"] l(2) by auto
  have f: "walk_list find_step vs ?init = map (\<lambda>a. lib_found vs False (fst a)) AC_RENDER_APIS"
    using walk_find [of vs "[]"] by (simp add: lib_found_Nil)
  show ?thesis using b(1-3) l(1) e walk_bound [OF assms(2)]
    by (cases trunc) (auto simp: find_render_lib_maps_def clamp_walked [OF assms(2)] f lib_found_incomplete comp_def)
qed

end

text \<open>
  The library's name: the soname, a version of digits and dots after a further dot, and the mark of an unlinked file, each of
  the last two optional.
\<close>

definition version_ok :: "string \<Rightarrow> bool" where
  "version_ok ver \<longleftrightarrow> ver = [] \<or> (\<exists>r. ver = CHR ''.'' # r \<and> r \<noteq> [] \<and> (\<forall>c \<in> set r. isdigit c \<or> c = CHR ''.''))"

definition name_core :: "string \<Rightarrow> string" where
  "name_core base =
     (if 10 \<le> length base \<and> drop (length base - 10) base = '' (deleted)'' then take (length base - 10) base else base)"

lemma del_len: "length '' (deleted)'' = 10"
  by simp

lemma name_core_cases: "base = name_core base \<or> base = name_core base @ '' (deleted)''"
  unfolding name_core_def by (simp, metis append_take_drop_id)

lemma name_core_deleted: "name_core (xs @ '' (deleted)'') = xs"
  by (simp add: name_core_def)

lemma name_core_plain: "CHR '')'' \<notin> set xs \<Longrightarrow> name_core xs = xs"
proof -
  assume a: "CHR '')'' \<notin> set xs"
  have "CHR '')'' \<in> set '' (deleted)''" by simp
  then have "drop (length xs - 10) xs \<noteq> '' (deleted)''" using a by (metis in_set_dropD)
  then show ?thesis by (simp add: name_core_def)
qed

lemma matches_core:
  "render_lib_name_matches base soname \<longleftrightarrow> (\<exists>ver. name_core base = soname @ ver \<and> version_ok ver)"
proof -
  define core where "core = name_core base"
  define sl where "sl = length soname"
  have c: "length core \<le> length base" "take (length core) base = core"
    by (auto simp: core_def name_core_def)
  have len: "(if length base \<ge> length '' (deleted)'' \<and> drop (length base - length '' (deleted)'') base = '' (deleted)''
      then length base - length '' (deleted)'' else length base) = length core"
    unfolding del_len core_def name_core_def by simp
  have nth: "base ! i = core ! i" if "i < length core" for i using c that by (metis nth_take)
  have pre: "take sl base = take sl core" if "sl \<le> length core" using c that by (metis min.absorb1 take_take)
  have "render_lib_name_matches base soname \<longleftrightarrow>
      sl \<le> length core \<and> take sl core = soname \<and>
      (length core = sl \<or> core ! sl = CHR ''.'' \<and> length core \<noteq> sl + 1 \<and> (\<forall>i \<in> {sl + 1..<length core}. isdigit (core ! i) \<or> core ! i = CHR ''.''))"
    unfolding render_lib_name_matches_def Let_def len sl_def [symmetric] using pre nth
    by (cases "length core = sl") (auto simp: not_less)
  also have "\<dots> \<longleftrightarrow> (\<exists>ver. core = soname @ ver \<and> version_ok ver)" (is "?l \<longleftrightarrow> ?r")
  proof
    assume l: ?l
    define ver where "ver = drop sl core"
    have e: "core = soname @ ver" using l by (metis append_take_drop_id ver_def)
    have "version_ok ver"
    proof (cases ver)
      case (Cons x r)
      then have "length core \<noteq> sl" by (simp add: e sl_def)
      then have "x = CHR ''.''" "r \<noteq> []" "\<forall>i \<in> {sl + 1..<length core}. isdigit (core ! i) \<or> core ! i = CHR ''.''"
        using l by (auto simp: e sl_def Cons nth_append)
      moreover have "isdigit (r ! j) \<or> r ! j = CHR ''.''" if "j < length r" for j
        using calculation(3) [rule_format, of "sl + 1 + j"] that by (auto simp: e sl_def Cons nth_append)
      then have "\<forall>c \<in> set r. isdigit c \<or> c = CHR ''.''" by (metis in_set_conv_nth)
      ultimately show ?thesis by (auto simp: version_ok_def Cons)
    qed (simp add: version_ok_def)
    with e show ?r by blast
  next
    assume ?r
    then obtain ver where e: "core = soname @ ver" "version_ok ver" by blast
    show ?l
    proof (cases ver)
      case (Cons x r)
      with e(2) have v: "x = CHR ''.''" "r \<noteq> []" "\<forall>c \<in> set r. isdigit c \<or> c = CHR ''.''" by (auto simp: version_ok_def)
      have "isdigit (core ! i) \<or> core ! i = CHR ''.''" if "sl + 1 \<le> i" "i < length core" for i
      proof -
        have "core ! i = r ! (i - (sl + 1))" "i - (sl + 1) < length r" using that by (auto simp: e(1) sl_def Cons nth_append nth_Cons')
        then show ?thesis using v(3) nth_mem by metis
      qed
      then show ?thesis using v by (auto simp: e(1) sl_def Cons)
    qed (simp add: e(1) sl_def)
  qed
  finally show ?thesis by (simp add: core_def)
qed

lemma name_matches_iff:
  assumes "CHR '')'' \<notin> set soname"
  shows "render_lib_name_matches base soname \<longleftrightarrow> (\<exists>ver suf. base = soname @ ver @ suf \<and> suf \<in> {[], '' (deleted)''} \<and> version_ok ver)"
proof
  assume "render_lib_name_matches base soname"
  then obtain ver where "name_core base = soname @ ver" "version_ok ver" by (auto simp: matches_core)
  then show "\<exists>ver suf. base = soname @ ver @ suf \<and> suf \<in> {[], '' (deleted)''} \<and> version_ok ver"
    using name_core_cases [of base] by (metis append.assoc append_Nil2 insertCI)
next
  assume "\<exists>ver suf. base = soname @ ver @ suf \<and> suf \<in> {[], '' (deleted)''} \<and> version_ok ver"
  then obtain ver suf where b: "base = soname @ ver @ suf" "suf \<in> {[], '' (deleted)''}" "version_ok ver" by blast
  have "\<not> isdigit (CHR '')'')" by (simp add: isdigit_def)
  then have "CHR '')'' \<notin> set ver" using b(3) by (auto simp: version_ok_def)
  then have "name_core base = soname @ ver"
    using b(1,2) assms name_core_deleted [of "soname @ ver"] name_core_plain [of "soname @ ver"] by auto
  with b(3) show "render_lib_name_matches base soname" by (auto simp: matches_core)
qed

end
