(* ===== verification/AC_Environ.thy ===== *)
theory AC_Environ
  imports AC_Report
begin

text \<open>
  The environment-based checks of \<^verbatim>\<open>src/src/anticheat_daemon.c\<close>: reading \<^verbatim>\<open>/proc/<pid>/environ\<close>, the \<^verbatim>\<open>LD_PRELOAD\<close> and Vulkan-layer
  variables, and the implicit-layer manifests that the Vulkan loader would pick up.  The file system is a parameter.
\<close>

abbreviation NUL :: char where "NUL \<equiv> CHR 0x00"

subsection \<open>Reading the environment\<close>

definition AC_ENVIRON_BUF :: nat where "AC_ENVIRON_BUF = 256 * 1024"
definition AC_ENVIRON_VAL_LEN :: nat where "AC_ENVIRON_VAL_LEN = 512"

record ac_environ_query =
  eq_name :: string
  eq_value :: string
  eq_found :: bool

text \<open>What the successive calls of \<^verbatim>\<open>read\<close> return; after the last one, and on empty data, the file is at its end.\<close>

datatype read_result = Rd_data string | Rd_eintr | Rd_error

fun environ_read :: "read_result list \<Rightarrow> string \<Rightarrow> string option" where
  "environ_read [] buf = Some buf"
| "environ_read (r # rs) buf =
     (if length buf \<ge> AC_ENVIRON_BUF - 1 then Some buf
      else case r of
        Rd_error \<Rightarrow> None
      | Rd_eintr \<Rightarrow> environ_read rs buf
      | Rd_data s \<Rightarrow> if s = [] then Some buf else environ_read rs (buf @ take (AC_ENVIRON_BUF - 1 - length buf) s))"

definition match_entry :: "string \<Rightarrow> ac_environ_query \<Rightarrow> ac_environ_query" where
  "match_entry entry q =
     (let nlen = length (eq_name q)
      in if \<not> eq_found q \<and> length entry > nlen \<and> take nlen entry = eq_name q \<and> entry ! nlen = CHR ''=''
         then q\<lparr>eq_value := take (AC_ENVIRON_VAL_LEN - 1) (drop (nlen + 1) entry), eq_found := True\<rparr>
         else q)"

text \<open>The loop over the entries, on the bytes from \<^verbatim>\<open>pos\<close> on.\<close>

function env_scan :: "string \<Rightarrow> ac_environ_query list \<Rightarrow> ac_environ_query list" where
  "env_scan rest vars =
     (if rest = [] then vars
      else
        (let entry = takeWhile (\<lambda>c. c \<noteq> NUL) rest
         in if entry = [] then env_scan (tl rest) vars
            else env_scan (drop (length entry + 1) rest) (map (match_entry entry) vars)))"
  by pat_completeness auto
termination
  by (relation "measure (\<lambda>(rest, vars). length rest)") auto

declare env_scan.simps [simp del]

text \<open>The file system as the checks see it: the reads of an \<^verbatim>\<open>environ\<close> file, allocation, the text of a \<^verbatim>\<open>status\<close> file, the
  home directory of a user, the names in a directory, and for a file whether it is regular and what one \<^verbatim>\<open>read\<close> returns.\<close>

record layer_fs =
  lf_environ :: "string \<Rightarrow> read_result list option"
  lf_alloc :: "nat \<Rightarrow> bool"
  lf_status :: "string \<Rightarrow> string option"
  lf_home :: "u32 \<Rightarrow> string option"
  lf_dir :: "string \<Rightarrow> string list option"
  lf_file :: "string \<Rightarrow> (bool \<times> string option) option"

definition environ_path :: "pid_t \<Rightarrow> string" where
  "environ_path pid = take 63 (''/proc/'' @ fmt_d pid @ ''/environ'')"

definition ac_read_environ_vars :: "layer_fs \<Rightarrow> pid_t \<Rightarrow> ac_environ_query list \<Rightarrow> int \<times> ac_environ_query list" where
  "ac_read_environ_vars fs pid vars =
     (let vars0 = map (\<lambda>q. q\<lparr>eq_found := False\<rparr>) vars
      in case lf_environ fs (environ_path pid) of
           None \<Rightarrow> (-1, vars0)
         | Some rs \<Rightarrow>
             if \<not> lf_alloc fs AC_ENVIRON_BUF then (-1, vars0)
             else case environ_read rs [] of
               None \<Rightarrow> (-1, vars0)
             | Some buf \<Rightarrow>
                 if buf = [] then (0, vars0)
                 else (if length buf \<ge> AC_ENVIRON_BUF - 1 then -1 else 0, env_scan buf vars0))"

definition query :: "string \<Rightarrow> ac_environ_query" where
  "query name = \<lparr>eq_name = name, eq_value = [], eq_found = False\<rparr>"

text \<open>\<open>Inl\<close> the result -1 or 0, \<open>Inr\<close> the value with result 1.\<close>

definition ac_read_ld_preload :: "layer_fs \<Rightarrow> pid_t \<Rightarrow> nat \<Rightarrow> int + string" where
  "ac_read_ld_preload fs pid outsz =
     (case ac_read_environ_vars fs pid [query ''LD_PRELOAD''] of (rc, vars) \<Rightarrow>
        if rc < 0 then Inl (-1)
        else if \<not> eq_found (hd vars) then Inl 0
        else Inr (take (outsz - 1) (eq_value (hd vars))))"

definition AC_VK_LAYER_ENV_VARS :: "string list" where
  "AC_VK_LAYER_ENV_VARS = [''VK_INSTANCE_LAYERS'', ''VK_LOADER_LAYERS_ENABLE'', ''VK_LAYER_PATH'', ''VK_ADD_LAYER_PATH'']"

text \<open>The wrappers for \<^verbatim>\<open>scan --check-preload\<close> and \<^verbatim>\<open>--check-vklayers\<close>: result and output; \<open>err\<close> is \<^verbatim>\<open>strerror(errno)\<close>.\<close>

definition check_ld_preload :: "layer_fs \<Rightarrow> string \<Rightarrow> pid_t \<Rightarrow> int \<times> string" where
  "check_ld_preload fs err pid =
     (case ac_read_ld_preload fs pid 512 of
        Inl rc \<Rightarrow>
          if rc < 0 then (-1, ''  LD_PRELOAD check: could not read /proc/'' @ fmt_d pid @ ''/environ ('' @ err @ '')'' @ [LF])
          else (0, ''  LD_PRELOAD check: not set'' @ [LF])
      | Inr val \<Rightarrow>
          (1, ''  LD_PRELOAD check: '' @ val @ [LF] @ ''    (informational only -- also used by legitimate overlay/compat'' @ [LF] @
              ''     tools like MangoHud, gamemode, gamescope; not a verdict)'' @ [LF]))"

definition check_vk_layer_env :: "layer_fs \<Rightarrow> string \<Rightarrow> pid_t \<Rightarrow> int \<times> string" where
  "check_vk_layer_env fs err pid =
     (case ac_read_environ_vars fs pid (map query AC_VK_LAYER_ENV_VARS) of (rc, vars) \<Rightarrow>
        if rc < 0 then (-1, ''  Vulkan-layer check: could not fully read /proc/'' @ fmt_d pid @ ''/environ ('' @ err @ '')'' @ [LF])
        else if filter eq_found vars = [] then (0, ''  Vulkan-layer check: no layer-activation environment variables set'' @ [LF])
        else (1, concat (map (\<lambda>q. ''  Vulkan-layer check: '' @ eq_name q @ ''='' @ eq_value q @ [LF]) (filter eq_found vars)) @
              ''    (informational only -- also used by legitimate overlay tools'' @ [LF] @
              ''     like MangoHud; not a verdict. An implicit layer manifest'' @ [LF] @
              ''     dropped into the loader's default search directories needs'' @ [LF] @
              ''     no environment variable and is not detected by this check --'' @ [LF] @
              ''     see --check-implicit-layers for that)'' @ [LF]))"

subsection \<open>Layer manifests\<close>

definition AC_MANIFEST_MAX_BYTES :: nat where "AC_MANIFEST_MAX_BYTES = 64 * 1024"
definition AC_MANIFEST_STR_LEN :: nat where "AC_MANIFEST_STR_LEN = 256"
definition AC_MAX_IMPLICIT_LAYERS :: nat where "AC_MAX_IMPLICIT_LAYERS = 64"

record ac_implicit_layer =
  ly_name :: string
  ly_library_path :: string
  ly_disable_env :: string

definition AC_KNOWN_LAYER_PREFIXES :: "string list" where
  "AC_KNOWN_LAYER_PREFIXES =
     [''VK_LAYER_MANGOHUD'', ''VK_LAYER_OBS_HOOK'', ''VK_LAYER_OBS_hotkeys'', ''VK_LAYER_VKBASALT'', ''VK_LAYER_RENDERDOC'',
      ''VK_LAYER_LATENCYFLEX'', ''VK_LAYER_VALVE_steam_overlay'', ''VK_LAYER_VALVE_steam_fossilize'', ''VK_LAYER_GOOGLE_'',
      ''VK_LAYER_KHRONOS_'', ''VK_LAYER_MESA_'', ''VK_LAYER_INTEL_'', ''VK_LAYER_NV_'', ''VK_LAYER_AMD_'']"

definition ac_layer_name_known :: "string \<Rightarrow> bool" where
  "ac_layer_name_known name \<longleftrightarrow> (\<exists>p \<in> set AC_KNOWN_LAYER_PREFIXES. take (length p) name = p)"

text \<open>\<^verbatim>\<open>memmem\<close>: the text from the first occurrence on.\<close>

fun memmem :: "string \<Rightarrow> string \<Rightarrow> string option" where
  "memmem needle [] = (if needle = [] then Some [] else None)"
| "memmem needle (c # s) = (if take (length needle) (c # s) = needle then Some (c # s) else memmem needle s)"

lemma memmem_length: "memmem needle s = Some hit \<Longrightarrow> length hit \<le> length s"
  by (induction s) (auto split: if_splits)

text \<open>The loop that copies a quoted string: a backslash passes the next character through.\<close>

fun unquote :: "string \<Rightarrow> string" where
  "unquote [] = []"
| "unquote (c # s) =
     (if c = DQ then []
      else if c = BS then (case s of [] \<Rightarrow> [c] | d # s' \<Rightarrow> d # unquote s')
      else c # unquote s)"

definition after_space :: "string \<Rightarrow> string" where
  "after_space s = dropWhile isspace s"

text \<open>What follows a hit: colon, and a quoted string.\<close>

definition string_value :: "string \<Rightarrow> string option" where
  "string_value s =
     (case after_space s of
        c # q \<Rightarrow> if c = CHR '':'' then (case after_space q of d # r \<Rightarrow> if d = DQ then Some r else None | [] \<Rightarrow> None) else None
      | [] \<Rightarrow> None)"

function extract_loop :: "string \<Rightarrow> nat \<Rightarrow> string \<Rightarrow> string option" where
  "extract_loop needle outsz p =
     (if p = [] then None
      else case memmem needle p of
        None \<Rightarrow> None
      | Some hit \<Rightarrow>
          (case string_value (drop (length needle) hit) of
             Some r \<Rightarrow> Some (take (outsz - 1) (unquote r))
           | None \<Rightarrow> if hit = [] then None else extract_loop needle outsz (tl hit)))"
  by pat_completeness auto
termination
proof (relation "measure (\<lambda>(needle, outsz, p). length p)", goal_cases)
  case (2 needle outsz p hit)
  then show ?case using memmem_length [of needle p hit] by (cases hit) auto
qed simp

declare extract_loop.simps [simp del]

definition json_extract_string :: "string \<Rightarrow> string \<Rightarrow> nat \<Rightarrow> string option" where
  "json_extract_string json key outsz =
     (let needle = [DQ] @ key @ [DQ] in if length needle \<ge> 64 then None else extract_loop needle outsz json)"

definition json_extract_disable_env :: "string \<Rightarrow> nat \<Rightarrow> string option" where
  "json_extract_disable_env json outsz =
     (let needle = [DQ] @ ''disable_environment'' @ [DQ]
      in case memmem needle json of
           None \<Rightarrow> None
         | Some hit \<Rightarrow>
             (case after_space (drop (length needle) hit) of
                [] \<Rightarrow> None
              | c # q \<Rightarrow>
                  if c \<noteq> CHR '':'' then None
                  else case after_space q of
                    [] \<Rightarrow> None
                  | b # q1 \<Rightarrow>
                      if b \<noteq> CHR ''{'' then None
                      else case after_space q1 of
                        [] \<Rightarrow> None
                      | e # r \<Rightarrow> if e \<noteq> DQ then None else Some (take (outsz - 1) (unquote r))))"

text \<open>\<^verbatim>\<open>sscanf(line, "Uid: %lu", &v)\<close>.\<close>

definition scan_uid :: "string \<Rightarrow> u64 option" where
  "scan_uid line =
     (if take 4 line \<noteq> ''Uid:'' then None
      else case strto 10 (drop 4 line) of None \<Rightarrow> None | Some _ \<Rightarrow> Some (fst (strtoul (drop 4 line))))"

fun uid_loop :: "string list \<Rightarrow> u32" where
  "uid_loop [] = - 1"
| "uid_loop (l # ls) = (case scan_uid l of Some v \<Rightarrow> ucast v | None \<Rightarrow> uid_loop ls)"

definition ac_resolve_pid_home :: "layer_fs \<Rightarrow> pid_t \<Rightarrow> nat \<Rightarrow> string option" where
  "ac_resolve_pid_home fs pid homesz =
     (case lf_status fs (take 63 (''/proc/'' @ fmt_d pid @ ''/status'')) of
        None \<Rightarrow> None
      | Some s \<Rightarrow>
          (let uid = uid_loop (fgets_lines 254 s)
           in if uid = - 1 then None else map_option (take (homesz - 1)) (lf_home fs uid)))"

text \<open>One directory: the manifests of its regular \<^verbatim>\<open>.json\<close> files, appended while there is room.\<close>

definition parse_manifest :: "string \<Rightarrow> ac_implicit_layer option" where
  "parse_manifest buf =
     (case json_extract_string buf ''name'' AC_MANIFEST_STR_LEN of
        None \<Rightarrow> None
      | Some name \<Rightarrow>
          (case json_extract_string buf ''library_path'' AC_MANIFEST_STR_LEN of
             None \<Rightarrow> None
           | Some lib \<Rightarrow>
               Some \<lparr>ly_name = name, ly_library_path = lib,
                     ly_disable_env = (case json_extract_disable_env buf AC_MANIFEST_STR_LEN of Some e \<Rightarrow> e | None \<Rightarrow> [])\<rparr>))"

definition read_manifest :: "layer_fs \<Rightarrow> string \<Rightarrow> ac_implicit_layer option" where
  "read_manifest fs path =
     (case lf_file fs path of
        Some (True, Some buf) \<Rightarrow>
          if \<not> lf_alloc fs AC_MANIFEST_MAX_BYTES \<or> buf = [] then None else parse_manifest (take (AC_MANIFEST_MAX_BYTES - 1) buf)
      | _ \<Rightarrow> None)"

definition json_name :: "string \<Rightarrow> bool" where
  "json_name n \<longleftrightarrow> length n \<ge> 5 \<and> drop (length n - 5) n = ''.json''"

fun layer_dir_loop :: "layer_fs \<Rightarrow> string \<Rightarrow> string list \<Rightarrow> ac_implicit_layer list \<Rightarrow> ac_implicit_layer list" where
  "layer_dir_loop fs dir [] layers = layers"
| "layer_dir_loop fs dir (n # ns) layers =
     (if length layers \<ge> AC_MAX_IMPLICIT_LAYERS then layers
      else if \<not> json_name n then layer_dir_loop fs dir ns layers
      else case read_manifest fs (take (PATH_MAX - 1) (dir @ ''/'' @ n)) of
        None \<Rightarrow> layer_dir_loop fs dir ns layers
      | Some l \<Rightarrow> layer_dir_loop fs dir ns (layers @ [l]))"

definition ac_scan_implicit_layer_dir :: "layer_fs \<Rightarrow> string \<Rightarrow> ac_implicit_layer list \<Rightarrow> ac_implicit_layer list" where
  "ac_scan_implicit_layer_dir fs dir layers =
     (case lf_dir fs dir of None \<Rightarrow> layers | Some names \<Rightarrow> layer_dir_loop fs dir names layers)"

definition layer_dirs :: "layer_fs \<Rightarrow> pid_t \<Rightarrow> string list" where
  "layer_dirs fs pid =
     (case ac_resolve_pid_home fs pid PATH_MAX of
        None \<Rightarrow> []
      | Some home \<Rightarrow> [take (PATH_MAX + 63) (home @ ''/.config/vulkan/implicit_layer.d''),
                       take (PATH_MAX + 63) (home @ ''/.local/share/vulkan/implicit_layer.d'')]) @
     [''/etc/vulkan/implicit_layer.d'', ''/usr/local/etc/vulkan/implicit_layer.d'', ''/usr/share/vulkan/implicit_layer.d'',
      ''/usr/local/share/vulkan/implicit_layer.d'']"

definition layer_disabled :: "layer_fs \<Rightarrow> pid_t \<Rightarrow> ac_implicit_layer \<Rightarrow> bool" where
  "layer_disabled fs pid l \<longleftrightarrow>
     ly_disable_env l \<noteq> [] \<and>
     (case ac_read_environ_vars fs pid [query (ly_disable_env l)] of (rc, vars) \<Rightarrow> rc = 0 \<and> eq_found (hd vars))"

definition ac_scan_active_implicit_layers :: "layer_fs \<Rightarrow> pid_t \<Rightarrow> nat \<Rightarrow> ac_implicit_layer list" where
  "ac_scan_active_implicit_layers fs pid outcap =
     take outcap (filter (\<lambda>l. \<not> layer_disabled fs pid l) (fold (ac_scan_implicit_layer_dir fs) (layer_dirs fs pid) []))"

definition check_implicit_layers :: "layer_fs \<Rightarrow> pid_t \<Rightarrow> int \<times> string" where
  "check_implicit_layers fs pid =
     (let layers = ac_scan_active_implicit_layers fs pid AC_MAX_IMPLICIT_LAYERS
      in if layers = [] then (0, ''  Implicit Vulkan-layer check: none active for this process'' @ [LF])
         else (if filter (\<lambda>l. \<not> ac_layer_name_known (ly_name l)) layers \<noteq> [] then 1 else 0,
               concat (map (\<lambda>l. ''  Implicit Vulkan-layer: '' @ (if ly_name l \<noteq> [] then ly_name l else ''(unnamed)'') @ '' -> '' @
                        (if ly_library_path l \<noteq> [] then ly_library_path l else ''(no library_path)'') @
                        (if ac_layer_name_known (ly_name l) then [] else ''  [not in the known-overlay allowlist]'') @ [LF]) layers) @
               ''    (informational only -- also used by legitimate overlay tools'' @ [LF] @
               ''     like MangoHud; not a verdict. Name-based allowlist matching'' @ [LF] @
               ''     can be spoofed by a layer that names itself similarly)'' @ [LF]))"

subsection \<open>The environment is read exactly\<close>

text \<open>An environment as the kernel lays it out, and the first value that a name has in it.\<close>

definition env_bytes :: "string list \<Rightarrow> string" where
  "env_bytes es = concat (map (\<lambda>e. e @ [NUL]) es)"

fun env_lookup :: "string \<Rightarrow> string list \<Rightarrow> string option" where
  "env_lookup name [] = None"
| "env_lookup name (e # es) =
     (if take (length name + 1) e = name @ ''='' then Some (drop (length name + 1) e) else env_lookup name es)"

definition answer :: "string list \<Rightarrow> ac_environ_query \<Rightarrow> ac_environ_query" where
  "answer es q =
     (case env_lookup (eq_name q) es of
        None \<Rightarrow> q\<lparr>eq_found := False\<rparr>
      | Some v \<Rightarrow> q\<lparr>eq_value := take (AC_ENVIRON_VAL_LEN - 1) v, eq_found := True\<rparr>)"

text \<open>Reads that end at the end of the file: interrupted ones and ones with data.\<close>

definition reads_all :: "read_result list \<Rightarrow> bool" where
  "reads_all rs \<longleftrightarrow> (\<forall>r \<in> set rs. r = Rd_eintr \<or> (\<exists>s. s \<noteq> [] \<and> r = Rd_data s))"

fun read_data :: "read_result list \<Rightarrow> string" where
  "read_data [] = []"
| "read_data (r # rs) = (case r of Rd_data s \<Rightarrow> s @ read_data rs | _ \<Rightarrow> read_data rs)"

lemma environ_read_all:
  "reads_all rs \<Longrightarrow> length buf \<le> AC_ENVIRON_BUF - 1 \<Longrightarrow> environ_read rs buf = Some (take (AC_ENVIRON_BUF - 1) (buf @ read_data rs))"
proof (induction rs arbitrary: buf)
  case (Cons r rs)
  have r: "r = Rd_eintr \<or> (\<exists>s. s \<noteq> [] \<and> r = Rd_data s)" "reads_all rs" using Cons.prems(1) by (auto simp: reads_all_def)
  show ?case
  proof (cases "length buf = AC_ENVIRON_BUF - 1")
    case False
    with Cons.prems(2) have lt: "length buf < AC_ENVIRON_BUF - 1" by simp
    from r(1) show ?thesis
    proof
      assume "r = Rd_eintr"
      then show ?thesis using lt Cons.IH [OF r(2) Cons.prems(2)] by simp
    next
      assume "\<exists>s. s \<noteq> [] \<and> r = Rd_data s"
      then obtain s where s: "s \<noteq> []" "r = Rd_data s" by blast
      let ?buf = "buf @ take (AC_ENVIRON_BUF - 1 - length buf) s"
      have "environ_read rs ?buf = Some (take (AC_ENVIRON_BUF - 1) (?buf @ read_data rs))"
        using lt by (intro Cons.IH [OF r(2)]) auto
      moreover have "take (AC_ENVIRON_BUF - 1) (?buf @ read_data rs) = take (AC_ENVIRON_BUF - 1) (buf @ s @ read_data rs)"
        using lt by (cases "length s \<le> AC_ENVIRON_BUF - 1 - length buf") auto
      ultimately show ?thesis using lt s by simp
    qed
  qed simp
qed simp

lemma take_snoc_eq: "take (length n + 1) e = n @ [c] \<longleftrightarrow> length e > length n \<and> take (length n) e = n \<and> e ! length n = c"
  by (auto simp: take_Suc_conv_app_nth) (metis length_append_singleton length_take min_less_iff_conj lessI not_less_eq append1_eq_conv take_Suc_conv_app_nth)+

lemma match_entry_eq:
  "match_entry e q =
     (if \<not> eq_found q \<and> take (length (eq_name q) + 1) e = eq_name q @ ''=''
      then q\<lparr>eq_value := take (AC_ENVIRON_VAL_LEN - 1) (drop (length (eq_name q) + 1) e), eq_found := True\<rparr> else q)"
  unfolding match_entry_def Let_def take_snoc_eq ..

lemma match_entries: "fold match_entry es (q\<lparr>eq_found := False\<rparr>) = answer es q"
proof -
  have found: "eq_found q \<Longrightarrow> fold match_entry es q = q" for es q
    by (induction es) (simp_all add: match_entry_eq)
  show ?thesis
  proof (induction es)
    case (Cons e es)
    then show ?case by (simp add: match_entry_eq [of e] answer_def found)
  qed (simp add: answer_def)
qed

lemma env_bytes_Cons: "env_bytes (e # es) = e @ NUL # env_bytes es"
  by (simp add: env_bytes_def)

lemma env_scan_bytes:
  "\<forall>e \<in> set es. NUL \<notin> set e \<Longrightarrow> env_scan (env_bytes es) vars = map (fold match_entry es) vars"
proof (induction es arbitrary: vars)
  case Nil
  show ?case by (subst env_scan.simps) (simp add: env_bytes_def)
next
  case (Cons e es)
  have t: "takeWhile (\<lambda>c. c \<noteq> NUL) (env_bytes (e # es)) = e" using Cons.prems unfolding env_bytes_Cons by (subst takeWhile_append2) auto
  have m: "match_entry [] q = q" for q by (simp add: match_entry_def)
  show ?case
    using Cons unfolding env_scan.simps [of "env_bytes (e # es)"] t Let_def
    by (cases "e = []") (simp_all add: env_bytes_Cons m comp_def)
qed

text \<open>C40: The environment of a process is read exactly: however its bytes arrive and however often the read is interrupted, every
  queried variable is found precisely if some entry sets it, with the value of the first such entry (empty entries hide
  nothing); an environment that does not fit is never answered with confidence.\<close>

theorem environ_lookup_exact:
  assumes "lf_environ fs (environ_path pid) = Some rs" and "lf_alloc fs AC_ENVIRON_BUF"
    and "reads_all rs" and "read_data rs = env_bytes es" and "\<forall>e \<in> set es. NUL \<notin> set e"
  shows "if length (env_bytes es) < AC_ENVIRON_BUF - 1 then ac_read_environ_vars fs pid vars = (0, map (answer es) vars)
    else fst (ac_read_environ_vars fs pid vars) = -1"
proof -
  have r: "environ_read rs [] = Some (take (AC_ENVIRON_BUF - 1) (env_bytes es))"
    using environ_read_all [OF assms(3), of "[]"] assms(4) by simp
  have s: "env_scan (env_bytes es) (map (\<lambda>q. q\<lparr>eq_found := False\<rparr>) vars) = map (answer es) vars"
    by (simp add: env_scan_bytes [OF assms(5)] comp_def match_entries)
  show ?thesis
  proof (cases "length (env_bytes es) < AC_ENVIRON_BUF - 1")
    case True
    have "map (answer es) vars = map (\<lambda>q. q\<lparr>eq_found := False\<rparr>) vars" if "env_bytes es = []"
      using s that by (simp add: env_scan.simps)
    with True s show ?thesis by (cases "env_bytes es = []") (simp_all add: ac_read_environ_vars_def assms(1,2) r Let_def)
  next
    case False
    then have "take (AC_ENVIRON_BUF - 1) (env_bytes es) \<noteq> []" by (auto simp: AC_ENVIRON_BUF_def)
    with False show ?thesis by (simp add: ac_read_environ_vars_def assms(1,2) r)
  qed
qed

definition demo_layer_fs :: layer_fs where
  "demo_layer_fs = \<lparr>lf_environ = (\<lambda>_. Some [Rd_data ([NUL] @ ''LD_PRE''), Rd_eintr, Rd_data (''LOAD=x.so'' @ [NUL])]), lf_alloc = (\<lambda>_. True),
     lf_status = (\<lambda>_. None), lf_home = (\<lambda>_. None), lf_dir = (\<lambda>_. None), lf_file = (\<lambda>_. None)\<rparr>"

theorem environ_lookup_exact_witness: "ac_read_environ_vars demo_layer_fs 7 [query ''LD_PRELOAD''] = (0, [\<lparr>eq_name = ''LD_PRELOAD'', eq_value = ''x.so'', eq_found = True\<rparr>])"
  using environ_lookup_exact [of demo_layer_fs 7 "[Rd_data ([NUL] @ ''LD_PRE''), Rd_eintr, Rd_data (''LOAD=x.so'' @ [NUL])]" "[[], ''LD_PRELOAD=x.so'']" "[query ''LD_PRELOAD'']"]
  by (simp add: demo_layer_fs_def reads_all_def env_bytes_def AC_ENVIRON_BUF_def AC_ENVIRON_VAL_LEN_def answer_def query_def)

subsection \<open>Manifests\<close>

text \<open>A JSON string literal's content; the extractor reads it back, truncated to its buffer.\<close>

definition json_quote :: "string \<Rightarrow> string" where
  "json_quote v = concat (map (\<lambda>c. if c = DQ \<or> c = BS then [BS, c] else [c]) v)"

lemma unquote_quote: "unquote (json_quote v @ DQ # post) = v"
proof (induction v)
  case (Cons c v)
  have "json_quote (c # v) = (if c = DQ \<or> c = BS then [BS, c] else [c]) @ json_quote v" by (simp add: json_quote_def)
  with Cons show ?case by simp
qed (simp add: json_quote_def)

text \<open>The first place where the needle occurs.\<close>

definition first_at :: "string \<Rightarrow> string \<Rightarrow> string \<Rightarrow> bool" where
  "first_at needle pre s \<longleftrightarrow> (\<forall>i < length pre. take (length needle) (drop i (pre @ needle @ s)) \<noteq> needle)"

lemma memmem_first: "needle \<noteq> [] \<Longrightarrow> first_at needle pre s \<Longrightarrow> memmem needle (pre @ needle @ s) = Some (needle @ s)"
proof (induction pre)
  case Nil
  then show ?case by (cases needle) auto
next
  case (Cons c pre)
  have "take (length needle) (c # pre @ needle @ s) \<noteq> needle" using Cons.prems(2) unfolding first_at_def by force
  moreover have "first_at needle pre s" unfolding first_at_def
  proof (intro allI impI)
    fix i assume "i < length pre"
    then show "take (length needle) (drop i (pre @ needle @ s)) \<noteq> needle"
      using Cons.prems(2) [unfolded first_at_def, rule_format, of "Suc i"] by simp
  qed
  ultimately show ?case using Cons.IH Cons.prems(1) by simp
qed

lemma dropWhile_blank: "\<forall>c \<in> set ws. isspace c \<Longrightarrow> \<not> isspace d \<Longrightarrow> dropWhile isspace (ws @ d # r) = d # r"
  by (induction ws) auto

lemma json_extract_roundtrip:
  assumes "needle = [DQ] @ key @ [DQ]" and "length needle < 64" and "\<forall>c \<in> set (ws1 @ ws2). isspace c"
    and "first_at needle pre (ws1 @ [CHR '':''] @ ws2 @ [DQ] @ json_quote v @ [DQ] @ post)"
  shows "json_extract_string (pre @ needle @ ws1 @ [CHR '':''] @ ws2 @ [DQ] @ json_quote v @ [DQ] @ post) key outsz = Some (take (outsz - 1) v)"
proof -
  let ?s = "ws1 @ [CHR '':''] @ ws2 @ [DQ] @ json_quote v @ [DQ] @ post"
  have n: "needle \<noteq> []" "pre @ needle @ ?s \<noteq> []" using assms(1) by auto
  have m: "memmem needle (pre @ needle @ ?s) = Some (needle @ ?s)" by (rule memmem_first [OF n(1) assms(4)])
  have "\<not> isspace (CHR '':'')" "\<not> isspace DQ" by (simp_all add: isspace_def)
  then have v: "string_value ?s = Some (json_quote v @ [DQ] @ post)"
    using assms(3) dropWhile_blank [of ws1 "CHR '':''" "ws2 @ [DQ] @ json_quote v @ [DQ] @ post"] dropWhile_blank [of ws2 DQ "json_quote v @ [DQ] @ post"]
    by (simp add: string_value_def after_space_def)
  have "extract_loop needle outsz (pre @ needle @ ?s) = Some (take (outsz - 1) (unquote (json_quote v @ [DQ] @ post)))"
    using n(2) unfolding extract_loop.simps [of needle outsz "pre @ needle @ ?s"] m using v by simp
  then show ?thesis using assms(1,2) unquote_quote [of v post] by (simp add: json_extract_string_def Let_def)
qed

text \<open>The manifests of a directory, in its order.\<close>

definition dir_layers :: "layer_fs \<Rightarrow> string \<Rightarrow> ac_implicit_layer list" where
  "dir_layers fs dir =
     (case lf_dir fs dir of
        None \<Rightarrow> []
      | Some ns \<Rightarrow> List.map_filter (\<lambda>n. if json_name n then read_manifest fs (take (PATH_MAX - 1) (dir @ ''/'' @ n)) else None) ns)"

lemma map_filter_Cons: "List.map_filter f (x # xs) = (case f x of None \<Rightarrow> List.map_filter f xs | Some y \<Rightarrow> y # List.map_filter f xs)"
  by (simp add: List.map_filter_def split: option.split)

lemma layer_dir_loop_eq:
  "length layers \<le> AC_MAX_IMPLICIT_LAYERS \<Longrightarrow>
     layer_dir_loop fs dir ns layers = take AC_MAX_IMPLICIT_LAYERS (layers @
       List.map_filter (\<lambda>n. if json_name n then read_manifest fs (take (PATH_MAX - 1) (dir @ ''/'' @ n)) else None) ns)"
proof (induction ns arbitrary: layers)
  case (Cons n ns)
  then show ?case
    by (cases "length layers = AC_MAX_IMPLICIT_LAYERS") (auto simp: map_filter_Cons take_Cons' split: option.split)
qed (simp add: List.map_filter_def)

lemma scan_dir_eq: "length layers \<le> AC_MAX_IMPLICIT_LAYERS \<Longrightarrow>
    ac_scan_implicit_layer_dir fs dir layers = take AC_MAX_IMPLICIT_LAYERS (layers @ dir_layers fs dir)"
  by (simp add: ac_scan_implicit_layer_dir_def dir_layers_def layer_dir_loop_eq split: option.split)

lemma scan_dirs_eq:
  "length layers \<le> AC_MAX_IMPLICIT_LAYERS \<Longrightarrow>
     fold (ac_scan_implicit_layer_dir fs) dirs layers = take AC_MAX_IMPLICIT_LAYERS (layers @ concat (map (dir_layers fs) dirs))"
proof (induction dirs arbitrary: layers)
  case (Cons dir dirs)
  let ?N = AC_MAX_IMPLICIT_LAYERS
  have "fold (ac_scan_implicit_layer_dir fs) (dir # dirs) layers = take ?N (take ?N (layers @ dir_layers fs dir) @ concat (map (dir_layers fs) dirs))"
    using Cons by (simp add: scan_dir_eq)
  also have "\<dots> = take ?N ((layers @ dir_layers fs dir) @ concat (map (dir_layers fs) dirs))"
    by (cases "length (layers @ dir_layers fs dir) \<le> ?N") (simp_all add: min_def)
  finally show ?case by simp
qed simp

text \<open>The active layers are exactly the manifests of the loader's directories that are not switched off, up to the table's size.\<close>

lemma active_layers_exact:
  "ac_scan_active_implicit_layers fs pid AC_MAX_IMPLICIT_LAYERS =
     filter (\<lambda>l. \<not> layer_disabled fs pid l) (take AC_MAX_IMPLICIT_LAYERS (concat (map (dir_layers fs) (layer_dirs fs pid))))"
proof -
  let ?all = "take AC_MAX_IMPLICIT_LAYERS (concat (map (dir_layers fs) (layer_dirs fs pid)))"
  have "length (filter (\<lambda>l. \<not> layer_disabled fs pid l) ?all) \<le> length ?all" by (rule length_filter_le)
  then have "length (filter (\<lambda>l. \<not> layer_disabled fs pid l) ?all) \<le> AC_MAX_IMPLICIT_LAYERS" by simp
  then show ?thesis unfolding ac_scan_active_implicit_layers_def by (subst scan_dirs_eq) simp_all
qed

end
