(* ===== verification/AC_Monitor.thy ===== *)
theory AC_Monitor
  imports AC_Render AC_Environ AC_Baseline
begin

text \<open>
  The monitoring daemon of \<^verbatim>\<open>src/src/anticheat_daemon.c\<close>: its tables and counters, the periodic checks, the hidden-module
  cross-check, and one round of the loop in \<^verbatim>\<open>cmd_start\<close>.
\<close>

subsection \<open>State\<close>

record ac_sys_level =
  lv_accounted :: nat
  lv_prev_excess :: nat

text \<open>The entries of the per-process tables: \<^verbatim>\<open>ac_preload_warned\<close> and \<^verbatim>\<open>ac_vklayer_warned\<close>, and with a count \<^verbatim>\<open>ac_anon_baseline\<close> and
  \<^verbatim>\<open>ac_implicit_layer_baseline\<close>.\<close>

record pid_slot =
  sl_pid :: pid_t
  sl_in_use :: bool

record count_slot = pid_slot +
  sl_count :: nat

text \<open>The static variables of the checks and the locals of the loop.\<close>

record 'w ac_monitor = "'w ac_client" +
  mo_hook_level :: ac_sys_level
  mo_redirect_level :: ac_sys_level
  mo_checksum_only_reported :: bool
  mo_have_seen :: bool
  mo_seen :: u32
  mo_pending :: u32
  mo_next_log :: int
  mo_anon :: "count_slot list"
  mo_preload :: "pid_slot list"
  mo_vklayer :: "pid_slot list"
  mo_implicit :: "count_slot list"
  mo_next_sys :: int
  mo_next_mod :: int
  mo_next_scan :: int
  mo_next_baseline :: int
  mo_next_render :: int
  mo_next_preload :: int
  mo_next_vklayer :: int
  mo_next_implicit :: int
  mo_sys_check_failing :: bool

subsection \<open>System-call table\<close>

definition sys_level_check :: "ac_sys_level \<Rightarrow> nat \<Rightarrow> bool \<times> ac_sys_level" where
  "sys_level_check lv cur =
     (let acc = (if lv_accounted lv > cur then cur else lv_accounted lv);
          excess = cur - acc
      in if excess \<noteq> 0 \<and> lv_prev_excess lv \<noteq> 0 then (True, \<lparr>lv_accounted = cur, lv_prev_excess = 0\<rparr>)
         else (False, \<lparr>lv_accounted = acc, lv_prev_excess = excess\<rparr>))"

definition call_check_syscalls :: "'w ac_dio \<Rightarrow> ('w, 'a) ac_client_scheme \<Rightarrow> int \<times> ac_syscall_check \<times> ('w, 'a) ac_client_scheme" where
  "call_check_syscalls io d =
     (case dev_ioctl io AC_IOCTL_CHECK_SYSCALLS user0 d of (ret, r, d1) \<Rightarrow>
        (ret, (case r of R_syscalls c \<Rightarrow> c | _ \<Rightarrow> syscall_check_zero), d1))"

definition hooked_msg :: "nat \<Rightarrow> string" where
  "hooked_msg n = ''syscall table: '' @ fmt_u n @
     '' slot(s) still hooked outside core kernel text with no matching ring event logged (event ring overflow?)''"

definition redirected_msg :: "nat \<Rightarrow> string" where
  "redirected_msg n = ''syscall table: '' @ fmt_u n @
     '' slot(s) still redirected within core kernel text with no matching ring event logged (event ring overflow?)''"

definition checksum_msg :: "ac_syscall_check \<Rightarrow> string" where
  "checksum_msg c = ''syscall table checksum mismatch: boot='' @ sc_baseline_sha256 c @ '' current='' @ sc_current_sha256 c @
     '' (handler churn not individually flagged)''"

definition check_syscalls_periodic :: "'w ac_dio \<Rightarrow> ('w, 'a) ac_monitor_scheme \<Rightarrow> int \<times> ('w, 'a) ac_monitor_scheme" where
  "check_syscalls_periodic io m =
     (case call_check_syscalls io m of (ret, c, m0) \<Rightarrow>
        if ret < 0 then (-1, m0)
        else
          (case sys_level_check (mo_hook_level m0) (sc_hooked c) of (h, hl) \<Rightarrow>
           case sys_level_check (mo_redirect_level m0) (sc_redirected c) of (r, rl) \<Rightarrow>
             let m1 = m0\<lparr>mo_hook_level := hl\<rparr>;
                 m2 = (if h then log_at LOG_CRIT (hooked_msg (sc_hooked c)) m1 else m1);
                 m3 = m2\<lparr>mo_redirect_level := rl\<rparr>;
                 m4 = (if r then log_at LOG_CRIT (redirected_msg (sc_redirected c)) m3 else m3);
                 m5 = (if sc_checksum_mismatch c \<noteq> 0 \<and> sc_hooked c = 0 \<and> sc_redirected c = 0
                       then (if \<not> mo_checksum_only_reported m4 then log_at LOG_CRIT (checksum_msg c) m4 else m4)\<lparr>mo_checksum_only_reported := True\<rparr>
                       else m4\<lparr>mo_checksum_only_reported := False\<rparr>)
             in (int (sc_hooked c), m5)))"

definition AC_RING_DROP_LOG_SECS :: int where "AC_RING_DROP_LOG_SECS = 10"

definition note_ring_drops :: "int \<Rightarrow> u32 \<Rightarrow> ('w, 'a) ac_monitor_scheme \<Rightarrow> ('w, 'a) ac_monitor_scheme" where
  "note_ring_drops now dropped m =
     (if \<not> mo_have_seen m
      then (let m1 = (if dropped \<noteq> 0
                      then log_at LOG_WARNING (''event ring dropped '' @ fmt_u (unat dropped) @ '' event(s) before the daemon started'') m else m)
            in m1\<lparr>mo_seen := dropped, mo_have_seen := True\<rparr>)
      else
        (let m1 = m\<lparr>mo_pending := mo_pending m + (dropped - mo_seen m), mo_seen := dropped\<rparr>
         in if mo_pending m1 \<noteq> 0 \<and> now \<ge> mo_next_log m1
            then (log_at LOG_CRIT (''event ring overflow: '' @ fmt_u (unat (mo_pending m1)) @ '' event(s) dropped before the daemon could read them'') m1)
                   \<lparr>mo_pending := 0, mo_next_log := now + AC_RING_DROP_LOG_SECS\<rparr>
            else m1))"

subsection \<open>Hidden modules\<close>

definition AC_MAX_PROC_MODS :: nat where "AC_MAX_PROC_MODS = 4096"

text \<open>The loop over the lines of \<^verbatim>\<open>/proc/modules\<close>: the names, and the lines that were not read.\<close>

fun collect_loop :: "nat \<Rightarrow> string list \<Rightarrow> string list \<Rightarrow> string list \<times> string list" where
  "collect_loop cap [] names = (names, [])"
| "collect_loop cap (l # ls) names =
     (if length names \<ge> cap then (names, l # ls)
      else case scan_word 63 l of
        None \<Rightarrow> collect_loop cap ls names
      | Some (w, _) \<Rightarrow> collect_loop cap ls (names @ [w]))"

definition collect_proc_modules :: "string option \<Rightarrow> nat \<Rightarrow> string list option" where
  "collect_proc_modules content cap =
     (case content of
        None \<Rightarrow> None
      | Some s \<Rightarrow>
          (case collect_loop cap (fgets_lines 254 s) [] of (names, rest) \<Rightarrow> if length names = cap \<and> rest \<noteq> [] then None else Some names))"

definition pad_to :: "nat \<Rightarrow> string \<Rightarrow> string" where
  "pad_to n s = s @ replicate (n - length s) CHR '' ''"

definition module_line :: "ac_mod_info \<Rightarrow> bool \<Rightarrow> string" where
  "module_line mi visible =
     ''  '' @ pad_to 20 (mi_name mi) @ '' size='' @ pad_to 10 (fmt_u (unat (mi_size mi))) @ '' state='' @ fmt_u (mi_state mi) @ '' '' @
     (if visible then [] else ''[HIDDEN FROM /proc/modules!]'') @ [LF]"

definition call_mods_begin :: "'w ac_dio \<Rightarrow> ('w, 'a) ac_client_scheme \<Rightarrow> int \<times> nat \<times> ('w, 'a) ac_client_scheme" where
  "call_mods_begin io d =
     (case dev_ioctl io AC_IOCTL_MODS_BEGIN user0 d of (ret, r, d1) \<Rightarrow> (ret, (case r of R_mod_count n \<Rightarrow> n | _ \<Rightarrow> 0), d1))"

definition mod_zero :: ac_mod_info where
  "mod_zero = \<lparr>mi_name = [], mi_size = 0, mi_state = 0\<rparr>"

definition call_mods_get :: "'w ac_dio \<Rightarrow> nat \<Rightarrow> ('w, 'a) ac_client_scheme \<Rightarrow> int \<times> ac_mod_info \<times> ('w, 'a) ac_client_scheme" where
  "call_mods_get io i d =
     (case dev_ioctl io AC_IOCTL_MODS_GET (user0\<lparr>ub_mod_get := Some \<lparr>mg_index = of_nat i, mg_mod = mod_zero\<rparr>\<rparr>) d of (ret, r, d1) \<Rightarrow>
        (ret, (case r of R_mod_get g \<Rightarrow> mg_mod g | _ \<Rightarrow> mod_zero), d1))"

definition call_mods_end :: "'w ac_dio \<Rightarrow> ('w, 'a) ac_client_scheme \<Rightarrow> ('w, 'a) ac_client_scheme" where
  "call_mods_end io d = snd (snd (dev_ioctl io AC_IOCTL_MODS_END user0 d))"

text \<open>The walk: the index at which a call failed, the hidden modules so far and the verbose output.\<close>

fun mods_loop ::
  "'w ac_dio \<Rightarrow> string list \<Rightarrow> nat list \<Rightarrow> nat \<Rightarrow> string \<Rightarrow> ('w, 'a) ac_client_scheme \<Rightarrow> nat option \<times> nat \<times> string \<times> ('w, 'a) ac_client_scheme" where
  "mods_loop io names [] hidden out d = (None, hidden, out, d)"
| "mods_loop io names (i # is) hidden out d =
     (case call_mods_get io i d of (ret, mi, d1) \<Rightarrow>
        if ret < 0 then (Some i, hidden, out, d1)
        else
          (let visible = mi_name mi \<in> set names
           in mods_loop io names is (if visible then hidden else hidden + 1) (out @ module_line mi visible) d1))"

text \<open>\<^verbatim>\<open>crosscheck_modules\<close>: the result, the output when \<^verbatim>\<open>verbose\<close>; \<open>err\<close> is \<^verbatim>\<open>strerror(errno)\<close>.\<close>

definition crosscheck_modules ::
  "'w ac_dio \<Rightarrow> string option \<Rightarrow> string \<Rightarrow> ('w, 'a) ac_client_scheme \<Rightarrow> int \<times> string \<times> ('w, 'a) ac_client_scheme" where
  "crosscheck_modules io content err d =
     (case call_mods_begin io d of (ret, cnt, d1) \<Rightarrow>
        if ret < 0 then (-1, [], d1)
        else if cnt > AC_MAX_MODS
        then (-1, [], log_at LOG_WARNING (''crosscheck_modules: kernel reported '' @ fmt_u cnt @ '' modules (max '' @ fmt_u AC_MAX_MODS @
                '') -- result inconclusive'') (call_mods_end io d1))
        else case collect_proc_modules content AC_MAX_PROC_MODS of
          None \<Rightarrow> (-1, [], log_at LOG_WARNING (''crosscheck_modules: /proc/modules unreadable ('' @ err @ '') -- skipping hidden-module cross-check'')
                             (call_mods_end io d1))
        | Some names \<Rightarrow>
            (case mods_loop io names [0..<cnt] 0 (fmt_u cnt @ '' modules in kernel list:'' @ [LF]) d1 of (failed, hidden, out, d2) \<Rightarrow>
               let d3 = call_mods_end io d2
               in case failed of
                    Some i \<Rightarrow> (-1, out, log_at LOG_WARNING (''crosscheck_modules: kernel module walk failed at index '' @ fmt_u i @ ''/'' @ fmt_u cnt @
                                '' -- result inconclusive'') d3)
                  | None \<Rightarrow> (int hidden, out @ ''hidden modules: '' @ fmt_u hidden @ [LF], d3)))"

definition check_modules_periodic :: "'w ac_dio \<Rightarrow> string option \<Rightarrow> string \<Rightarrow> ('w, 'a) ac_client_scheme \<Rightarrow> int \<times> ('w, 'a) ac_client_scheme" where
  "check_modules_periodic io content err d =
     (case crosscheck_modules io content err d of (hidden, _, d1) \<Rightarrow>
        (hidden, if hidden > 0 then log_at LOG_CRIT (fmt_d hidden @ '' module(s) hidden from /proc/modules'') d1 else d1))"

subsection \<open>Tables keyed by process\<close>

definition forget_stale :: "pid_t list \<Rightarrow> 'a pid_slot_scheme list \<Rightarrow> 'a pid_slot_scheme list" where
  "forget_stale pids slots = map (\<lambda>s. if sl_in_use s \<and> sl_pid s \<notin> set pids then s\<lparr>sl_in_use := False\<rparr> else s) slots"

text \<open>The index of the slot of a process, and of the first free slot.\<close>

definition slot_of :: "pid_t \<Rightarrow> 'a pid_slot_scheme list \<Rightarrow> nat option" where
  "slot_of pid slots = find (\<lambda>i. sl_in_use (slots ! i) \<and> sl_pid (slots ! i) = pid) [0..<length slots]"

definition free_slot_of :: "'a pid_slot_scheme list \<Rightarrow> nat option" where
  "free_slot_of slots = find (\<lambda>i. \<not> sl_in_use (slots ! i)) [0..<length slots]"

definition mark_warned :: "pid_t \<Rightarrow> pid_slot list \<Rightarrow> pid_slot list" where
  "mark_warned pid slots =
     (if slot_of pid slots \<noteq> None then slots
      else case free_slot_of slots of
        None \<Rightarrow> slots
      | Some i \<Rightarrow> slots[i := \<lparr>sl_pid = pid, sl_in_use = True\<rparr>])"

definition anon_baseline_forget_stale :: "ac_prot_item list \<Rightarrow> ('w, 'a) ac_monitor_scheme \<Rightarrow> ('w, 'a) ac_monitor_scheme" where
  "anon_baseline_forget_stale its m = m\<lparr>mo_anon := forget_stale (map pt_pid its) (mo_anon m)\<rparr>"

definition preload_warned_forget_stale :: "ac_prot_item list \<Rightarrow> ('w, 'a) ac_monitor_scheme \<Rightarrow> ('w, 'a) ac_monitor_scheme" where
  "preload_warned_forget_stale its m = m\<lparr>mo_preload := forget_stale (map pt_pid its) (mo_preload m)\<rparr>"

definition vklayer_warned_forget_stale :: "ac_prot_item list \<Rightarrow> ('w, 'a) ac_monitor_scheme \<Rightarrow> ('w, 'a) ac_monitor_scheme" where
  "vklayer_warned_forget_stale its m = m\<lparr>mo_vklayer := forget_stale (map pt_pid its) (mo_vklayer m)\<rparr>"

definition implicit_layer_baseline_forget_stale :: "ac_prot_item list \<Rightarrow> ('w, 'a) ac_monitor_scheme \<Rightarrow> ('w, 'a) ac_monitor_scheme" where
  "implicit_layer_baseline_forget_stale its m = m\<lparr>mo_implicit := forget_stale (map pt_pid its) (mo_implicit m)\<rparr>"

definition preload_already_warned :: "pid_t \<Rightarrow> ('w, 'a) ac_monitor_scheme \<Rightarrow> bool" where
  "preload_already_warned pid m \<longleftrightarrow> slot_of pid (mo_preload m) \<noteq> None"

definition preload_mark_warned :: "pid_t \<Rightarrow> ('w, 'a) ac_monitor_scheme \<Rightarrow> ('w, 'a) ac_monitor_scheme" where
  "preload_mark_warned pid m = m\<lparr>mo_preload := mark_warned pid (mo_preload m)\<rparr>"

definition vklayer_already_warned :: "pid_t \<Rightarrow> ('w, 'a) ac_monitor_scheme \<Rightarrow> bool" where
  "vklayer_already_warned pid m \<longleftrightarrow> slot_of pid (mo_vklayer m) \<noteq> None"

definition vklayer_mark_warned :: "pid_t \<Rightarrow> ('w, 'a) ac_monitor_scheme \<Rightarrow> ('w, 'a) ac_monitor_scheme" where
  "vklayer_mark_warned pid m = m\<lparr>mo_vklayer := mark_warned pid (mo_vklayer m)\<rparr>"

definition anon_baseline_check :: "pid_t \<Rightarrow> string \<Rightarrow> nat \<Rightarrow> bool \<Rightarrow> ('w, 'a) ac_monitor_scheme \<Rightarrow> ('w, 'a) ac_monitor_scheme" where
  "anon_baseline_check pid comm cnt jit_allowed m =
     (case slot_of pid (mo_anon m) of
        Some i \<Rightarrow>
          (let old = sl_count (mo_anon m ! i);
               what = ''pid '' @ fmt_d pid @ '' ('' @ comm @ ''): '' @ fmt_u (cnt - old) @ '' new anonymous executable mapping(s) since first observed (was '' @
                      fmt_u old @ '', now '' @ fmt_u cnt @ '') -- '';
               m1 = (if cnt > old
                     then (if jit_allowed then log_at LOG_WARNING (what @ ''expected for a JIT-marked process, not auto-reported'') m
                           else log_at LOG_CRIT (what @ ''possible code injection after process start'') m)
                     else m)
           in m1\<lparr>mo_anon := (mo_anon m1)[i := (mo_anon m1 ! i)\<lparr>sl_count := cnt\<rparr>]\<rparr>)
      | None \<Rightarrow>
          (case free_slot_of (mo_anon m) of
             None \<Rightarrow> m
           | Some i \<Rightarrow> m\<lparr>mo_anon := (mo_anon m)[i := \<lparr>sl_pid = pid, sl_in_use = True, sl_count = cnt\<rparr>]\<rparr>))"

subsection \<open>Checks over the protected processes\<close>

text \<open>The start of each: the list, with its count clamped; \<open>None\<close> when it cannot be had.\<close>

definition listed :: "'w ac_dio \<Rightarrow> ('w, 'a) ac_client_scheme \<Rightarrow> ac_prot_item list option \<times> ('w, 'a) ac_client_scheme" where
  "listed io d =
     (case call_list_protected io d of (ret, pl, d1) \<Rightarrow>
        if ret < 0 then (None, d1)
        else case clamp_prot_count (pl_count pl) d1 of (n, d2) \<Rightarrow> (Some (take n (pl_items pl)), d2))"

definition scan_one :: "'w ac_dio \<Rightarrow> ac_prot_item \<Rightarrow> ('w, 'a) ac_monitor_scheme \<Rightarrow> ('w, 'a) ac_monitor_scheme" where
  "scan_one io it m =
     (case call_scan_begin io (pt_pid it) 0 0 m of (ret, b, m1) \<Rightarrow>
        if ret \<noteq> 0 then m1
        else case clamp_vma_count (sb_n_vmas b) m1 of (_, m2) \<Rightarrow>
          let m3 = (if sb_rwx_count b > 0
                    then log_at LOG_WARNING (''pid '' @ fmt_d (pt_pid it) @ '' ('' @ pt_comm it @ ''): '' @ fmt_u (sb_rwx_count b) @ '' RWX mapping(s) present'') m2
                    else m2)
          in call_scan_end io (anon_baseline_check (pt_pid it) (pt_comm it) (sb_anon_exec_count b) (pt_jit_allowed it) m3))"

definition scan_protected_periodic :: "'w ac_dio \<Rightarrow> ('w, 'a) ac_monitor_scheme \<Rightarrow> int \<times> ('w, 'a) ac_monitor_scheme" where
  "scan_protected_periodic io m =
     (case listed io m of
        (None, m1) \<Rightarrow> (-1, m1)
      | (Some its, m1) \<Rightarrow> (0, fold (scan_one io) its (anon_baseline_forget_stale its m1)))"

definition preload_one :: "layer_fs \<Rightarrow> ac_prot_item \<Rightarrow> ('w, 'a) ac_monitor_scheme \<Rightarrow> ('w, 'a) ac_monitor_scheme" where
  "preload_one fs it m =
     (if preload_already_warned (pt_pid it) m then m
      else case ac_read_ld_preload fs (pt_pid it) 512 of
        Inl _ \<Rightarrow> m
      | Inr val \<Rightarrow>
          (let m1 = log_at LOG_WARNING (''pid '' @ fmt_d (pt_pid it) @ '' ('' @ pt_comm it @ ''): LD_PRELOAD='' @ val @
                '' set at exec -- common for legitimate overlay/compat tools (MangoHud, gamemode, gamescope) as well as library-injection hooking; informational only, not a verdict on its own'') m
           in preload_mark_warned (pt_pid it) m1))"

definition check_ld_preload_periodic :: "'w ac_dio \<Rightarrow> layer_fs \<Rightarrow> ('w, 'a) ac_monitor_scheme \<Rightarrow> ('w, 'a) ac_monitor_scheme" where
  "check_ld_preload_periodic io fs m =
     (case listed io m of
        (None, m1) \<Rightarrow> m1
      | (Some its, m1) \<Rightarrow> fold (preload_one fs) its (preload_warned_forget_stale its m1))"

definition vk_one :: "layer_fs \<Rightarrow> ac_prot_item \<Rightarrow> ('w, 'a) ac_monitor_scheme \<Rightarrow> ('w, 'a) ac_monitor_scheme" where
  "vk_one fs it m =
     (if vklayer_already_warned (pt_pid it) m then m
      else case ac_read_environ_vars fs (pt_pid it) (map query AC_VK_LAYER_ENV_VARS) of (rc, vars) \<Rightarrow>
        if rc < 0 then m
        else
          (let m1 = fold (\<lambda>q m. if eq_found q
                      then log_at LOG_WARNING (''pid '' @ fmt_d (pt_pid it) @ '' ('' @ pt_comm it @ ''): '' @ eq_name q @ ''='' @ eq_value q @
                        '' set at exec -- common for legitimate overlay tools (MangoHud) as well as Vulkan-layer-based hooking; informational only, not a verdict on its own'') m
                      else m) vars m
           in vklayer_mark_warned (pt_pid it) m1))"

definition check_vk_layers_periodic :: "'w ac_dio \<Rightarrow> layer_fs \<Rightarrow> ('w, 'a) ac_monitor_scheme \<Rightarrow> ('w, 'a) ac_monitor_scheme" where
  "check_vk_layers_periodic io fs m =
     (case listed io m of
        (None, m1) \<Rightarrow> m1
      | (Some its, m1) \<Rightarrow> fold (vk_one fs) its (vklayer_warned_forget_stale its m1))"

text \<open>The names of the unrecognised layers in their buffer of 512 bytes, with \<^verbatim>\<open>noff\<close> and the number so far.\<close>

definition names_step :: "ac_implicit_layer \<Rightarrow> string \<times> nat \<times> nat \<Rightarrow> string \<times> nat \<times> nat" where
  "names_step l st =
     (case st of (names, noff, unknown) \<Rightarrow>
        if ac_layer_name_known (ly_name l) then st
        else
          (let avail = (if noff < 512 then 512 - noff else 0);
               piece = (if unknown \<noteq> 0 then '', '' else []) @ (if ly_name l \<noteq> [] then ly_name l else ''(unnamed)'');
               noff1 = noff + length piece
           in (names @ take (avail - 1) piece, if noff1 > 512 then 512 else noff1, unknown + 1)))"

definition implicit_one :: "layer_fs \<Rightarrow> ac_prot_item \<Rightarrow> ('w, 'a) ac_monitor_scheme \<Rightarrow> ('w, 'a) ac_monitor_scheme" where
  "implicit_one fs it m =
     (case fold names_step (ac_scan_active_implicit_layers fs (pt_pid it) AC_MAX_IMPLICIT_LAYERS) ([], 0, 0) of (names, _, unknown) \<Rightarrow>
        case slot_of (pt_pid it) (mo_implicit m) of
          None \<Rightarrow>
            (case free_slot_of (mo_implicit m) of
               None \<Rightarrow> m
             | Some i \<Rightarrow> m\<lparr>mo_implicit := (mo_implicit m)[i := \<lparr>sl_pid = pt_pid it, sl_in_use = True, sl_count = unknown\<rparr>]\<rparr>)
        | Some i \<Rightarrow>
            (let m1 = (if unknown > sl_count (mo_implicit m ! i)
                       then log_at LOG_WARNING (''pid '' @ fmt_d (pt_pid it) @ '' ('' @ pt_comm it @ ''): '' @ fmt_u unknown @
                              '' unrecognized implicit Vulkan layer(s) active ('' @ names @
                              '') -- not in the known-overlay allowlist; informational only, not a verdict on its own'') m
                       else m)
             in m1\<lparr>mo_implicit := (mo_implicit m1)[i := (mo_implicit m1 ! i)\<lparr>sl_count := unknown\<rparr>]\<rparr>))"

definition check_implicit_layers_periodic :: "'w ac_dio \<Rightarrow> layer_fs \<Rightarrow> ('w, 'a) ac_monitor_scheme \<Rightarrow> ('w, 'a) ac_monitor_scheme" where
  "check_implicit_layers_periodic io fs m =
     (case listed io m of
        (None, m1) \<Rightarrow> m1
      | (Some its, m1) \<Rightarrow> fold (implicit_one fs) its (implicit_layer_baseline_forget_stale its m1))"

subsection \<open>Baselines\<close>

text \<open>
  What a round finds around it: the parts of the file system, memory and environment that its checks read, the two readings
  of the clock, how long \<^verbatim>\<open>AC_IOCTL_GET_EVENTS\<close> took, whether a signal has set \<^verbatim>\<open>g_stop\<close>, and \<^verbatim>\<open>strerror(errno)\<close>.
\<close>

record mon_env =
  me_render :: render_fs
  me_calloc :: bool
  me_layer :: layer_fs
  me_proc_modules :: "string option"
  me_mem_open :: "pid_t \<Rightarrow> int"
  me_hash :: "int \<Rightarrow> u64 \<Rightarrow> u64 \<Rightarrow> string option"
  me_load :: "string \<Rightarrow> ac_baseline_rec list \<times> bool"
  me_getenv :: "string \<Rightarrow> string option"
  me_now_drops :: int
  me_now :: int
  me_waited_ms :: int
  me_stop :: bool
  me_err :: string

definition bl_collect :: "ac_vma_info \<Rightarrow> ac_bl_vma list \<Rightarrow> bool \<times> ac_bl_vma list" where
  "bl_collect vi vmas =
     (False,
      if vi_flags vi AND AC_VM_EXEC = 0 \<or> vi_is_file vi = 0 then vmas
      else vmas @ [\<lparr>bv_start = vi_start vi, bv_end = vi_end vi, bv_offset = vi_offset vi, bv_inode = vi_inode vi,
                    bv_path = take (AC_VMA_PATH - 1) (vi_path vi)\<rparr>])"

definition fmt_hash_x :: "u64 \<Rightarrow> string" where
  "fmt_hash_x w = (if w = 0 then ''0'' else ''0x'' @ fmt_lx w)"

definition bl_log ::
  "ac_prot_item \<Rightarrow> ac_bl_vma list \<Rightarrow> bool \<Rightarrow> nat \<times> nat \<times> ac_bl_run_result \<Rightarrow> ('w, 'a) ac_client_scheme \<Rightarrow> ('w, 'a) ac_client_scheme" where
  "bl_log it vmas complete run d =
     (case run of (r, rend, res) \<Rightarrow>
        let who = ''pid '' @ fmt_d (pt_pid it) @ '' ('' @ pt_comm it @ ''): '';
            path = bv_path (vmas ! r)
        in if rr_verdict res = AC_BL_LEGACY
           then log_at LOG_WARNING (who @ ''legacy-format baseline for '' @ path @ '' -- run `scan --hash --save` to regenerate'') d
           else if rr_verdict res = AC_BL_HASH_FAILED
           then log_at LOG_WARNING (who @ ''could not hash '' @ path @ '' -- skipping baseline check for this segment this cycle'') d
           else if rr_verdict res = AC_BL_PARTIAL
           then (if \<not> complete \<and> rend = length vmas
                 then log_at LOG_WARNING (who @ ''VMA snapshot incomplete -- skipping baseline check for '' @ path @ '' this cycle'') d
                 else log_at LOG_CRIT (who @ ''baselined range of '' @ path @ '' (file offset '' @ fmt_hash_x (rr_off res) @ ''..'' @
                        fmt_hash_x (rr_off res + rr_size res) @ '') is only partly mapped executable -- cannot verify it against the saved baseline (split and unmapped/remapped since --save; if the library was rebuilt in place, run `scan --hash --save` to regenerate)'') d)
           else if rr_verdict res = AC_BL_MISMATCH
           then log_at LOG_CRIT (who @ ''memory content of '' @ path @ '' differs from saved baseline (possible runtime patching)'' @
                  (if rr_len_changed res then ''; the mapping's size also changed since --save -- if the library was rebuilt in place, run `scan --hash --save` to regenerate'' else [])) d
           else d)"

definition baseline_one :: "'w ac_dio \<Rightarrow> mon_env \<Rightarrow> ac_prot_item \<Rightarrow> ('w, 'a) ac_client_scheme \<Rightarrow> ('w, 'a) ac_client_scheme" where
  "baseline_one io ev it d =
     (case call_scan_begin io (pt_pid it) 0 0 d of (ret, b, d1) \<Rightarrow>
        if ret \<noteq> 0 then d1
        else case clamp_vma_count (sb_n_vmas b) d1 of (n, d2) \<Rightarrow>
             case scan_loop io (pt_pid it) bl_collect [0..<n] [] d2 of (failed, vmas, d3) \<Rightarrow>
               let complete = (sb_truncated b = 0 \<and> \<not> failed);
                   runs = fst (check_runs (me_mem_open ev (pt_pid it)) (me_hash ev) (me_load ev) vmas 0 (-1))
               in fold (bl_log it vmas complete) runs (call_scan_end io d3))"

definition check_baselines_periodic :: "'w ac_dio \<Rightarrow> mon_env \<Rightarrow> ('w, 'a) ac_client_scheme \<Rightarrow> int \<times> ('w, 'a) ac_client_scheme" where
  "check_baselines_periodic io ev d =
     (case listed io d of
        (None, d1) \<Rightarrow> (-1, d1)
      | (Some its, d1) \<Rightarrow> (0, fold (baseline_one io ev) its d1))"

subsection \<open>The loop\<close>

definition ev_type_str :: "u32 \<Rightarrow> string" where
  "ev_type_str t =
     (if t = AC_EV_FORK then ''FORK''
      else if t = AC_EV_EXEC then ''EXEC''
      else if t = AC_EV_EXIT then ''EXIT''
      else if t = AC_EV_PTRACE then ''PTRACE-DENIED''
      else if t = AC_EV_PROCESS_VM then ''PROCESS-VM-DENIED''
      else if t = AC_EV_SYSCALL_HOOK then ''SYSCALL-HOOK''
      else if t = AC_EV_SYSCALL_REDIRECT then ''SYSCALL-REDIRECT''
      else if t = AC_EV_RWX then ''RWX''
      else if t = AC_EV_ANON_EXEC then ''ANON-EXEC''
      else if t = AC_EV_INFO then ''INFO''
      else if t = AC_EV_FORK_DROPPED then ''FORK-DROPPED''
      else ''UNKNOWN'')"

definition handle_event :: "ac_event \<Rightarrow> ('w, 'a) ac_monitor_scheme \<Rightarrow> ('w, 'a) ac_monitor_scheme" where
  "handle_event e m =
     (let t = ev_type e;
          full = ev_type_str t @ '' pid='' @ fmt_d (ev_pid e) @ '' comm='' @ ev_comm e @ '' '' @ ev_data e;
          m1 = (if t = AC_EV_PTRACE \<or> t = AC_EV_PROCESS_VM then log_at LOG_ALERT full m
                else if t = AC_EV_SYSCALL_HOOK \<or> t = AC_EV_SYSCALL_REDIRECT \<or> t = AC_EV_FORK_DROPPED
                then log_at LOG_CRIT (ev_type_str t @ '' '' @ ev_data e) m
                else log_at LOG_INFO full m)
      in if t = AC_EV_SYSCALL_HOOK
         then m1\<lparr>mo_hook_level := (mo_hook_level m1)\<lparr>lv_accounted := (lv_accounted (mo_hook_level m1) + 1) mod 2 ^ 32\<rparr>\<rparr>
         else if t = AC_EV_SYSCALL_REDIRECT
         then m1\<lparr>mo_redirect_level := (mo_redirect_level m1)\<lparr>lv_accounted := (lv_accounted (mo_redirect_level m1) + 1) mod 2 ^ 32\<rparr>\<rparr>
         else m1)"

definition AC_MONITOR_BLOCK_MS :: nat where "AC_MONITOR_BLOCK_MS = 1000"

definition call_get_events :: "'w ac_dio \<Rightarrow> nat \<Rightarrow> ('w, 'a) ac_client_scheme \<Rightarrow> int \<times> ac_event_list \<times> ('w, 'a) ac_client_scheme" where
  "call_get_events io block_ms d =
     (let el = \<lparr>el_count = 0, el_dropped = 0, el_block_ms = block_ms, el_events = []\<rparr>
      in case dev_ioctl io AC_IOCTL_GET_EVENTS (user0\<lparr>ub_events := Some el\<rparr>) d of (ret, r, d1) \<Rightarrow>
           (ret, (case r of R_events el' \<Rightarrow> el' | _ \<Rightarrow> el), d1))"

definition drain_step :: "mon_env \<Rightarrow> int \<Rightarrow> ac_event_list \<Rightarrow> ('w, 'a) ac_monitor_scheme \<Rightarrow> ('w, 'a) ac_monitor_scheme" where
  "drain_step ev got el m =
     (if got = 0
      then (case clamp_event_count (el_count el) m of (n, m1) \<Rightarrow>
              note_ring_drops (me_now_drops ev) (el_dropped el) (fold handle_event (take n (el_events el)) m1))
      else m)"

definition sys_step :: "'w ac_dio \<Rightarrow> mon_env \<Rightarrow> ('w, 'a) ac_monitor_scheme \<Rightarrow> ('w, 'a) ac_monitor_scheme" where
  "sys_step io ev m =
     (if me_now ev \<ge> mo_next_sys m
      then (case check_syscalls_periodic io m of (rc, m1) \<Rightarrow>
              let m2 = (if rc < 0 \<and> \<not> mo_sys_check_failing m1 then log_at LOG_WARNING (''periodic syscall table check failed: '' @ me_err ev) m1
                        else if rc \<ge> 0 \<and> mo_sys_check_failing m1 then log_at LOG_INFO ''periodic syscall table check recovered'' m1
                        else m1)
              in m2\<lparr>mo_sys_check_failing := rc < 0, mo_next_sys := me_now ev + 5\<rparr>)
      else m)"

definition interval :: "mon_env \<Rightarrow> string \<Rightarrow> int \<Rightarrow> int" where
  "interval ev name dflt = ac_env_interval (me_getenv ev name) dflt"

definition ac_baseline_check_interval :: "mon_env \<Rightarrow> int" where
  "ac_baseline_check_interval ev = interval ev ''AC_BASELINE_CHECK_INTERVAL'' 60"
definition ac_scan_check_interval :: "mon_env \<Rightarrow> int" where
  "ac_scan_check_interval ev = interval ev ''AC_SCAN_CHECK_INTERVAL'' 30"
definition ac_render_hook_check_interval :: "mon_env \<Rightarrow> int" where
  "ac_render_hook_check_interval ev = interval ev ''AC_RENDER_HOOK_CHECK_INTERVAL'' 30"
definition ac_ld_preload_check_interval :: "mon_env \<Rightarrow> int" where
  "ac_ld_preload_check_interval ev = interval ev ''AC_LD_PRELOAD_CHECK_INTERVAL'' 10"
definition ac_vk_layer_check_interval :: "mon_env \<Rightarrow> int" where
  "ac_vk_layer_check_interval ev = interval ev ''AC_VK_LAYER_CHECK_INTERVAL'' 10"
definition ac_implicit_layer_check_interval :: "mon_env \<Rightarrow> int" where
  "ac_implicit_layer_check_interval ev = interval ev ''AC_IMPLICIT_LAYER_CHECK_INTERVAL'' 30"

definition periodic_step :: "'w ac_dio \<Rightarrow> mon_env \<Rightarrow> ('w, 'a) ac_monitor_scheme \<Rightarrow> ('w, 'a) ac_monitor_scheme" where
  "periodic_step io ev m =
     (let now = me_now ev;
          m1 = sys_step io ev m;
          m2 = (if now \<ge> mo_next_mod m1
                then (snd (check_modules_periodic io (me_proc_modules ev) (me_err ev) m1))\<lparr>mo_next_mod := now + 10\<rparr> else m1);
          m3 = (if now \<ge> mo_next_scan m2 then (snd (scan_protected_periodic io m2))\<lparr>mo_next_scan := now + ac_scan_check_interval ev\<rparr> else m2);
          m4 = (if now \<ge> mo_next_baseline m3 then (snd (check_baselines_periodic io ev m3))\<lparr>mo_next_baseline := now + ac_baseline_check_interval ev\<rparr> else m3);
          m5 = (if now \<ge> mo_next_render m4
                then (check_render_hooks_periodic io (me_render ev) (me_calloc ev) m4)\<lparr>mo_next_render := now + ac_render_hook_check_interval ev\<rparr> else m4);
          m6 = (if now \<ge> mo_next_preload m5 then (check_ld_preload_periodic io (me_layer ev) m5)\<lparr>mo_next_preload := now + ac_ld_preload_check_interval ev\<rparr> else m5);
          m7 = (if now \<ge> mo_next_vklayer m6 then (check_vk_layers_periodic io (me_layer ev) m6)\<lparr>mo_next_vklayer := now + ac_vk_layer_check_interval ev\<rparr> else m6)
      in if now \<ge> mo_next_implicit m7
         then (check_implicit_layers_periodic io (me_layer ev) m7)\<lparr>mo_next_implicit := now + ac_implicit_layer_check_interval ev\<rparr> else m7)"

text \<open>One round: whether it breaks out, how long it sleeps at its end (in milliseconds), and the state.\<close>

definition monitor_round :: "'w ac_dio \<Rightarrow> mon_env \<Rightarrow> ('w, 'a) ac_monitor_scheme \<Rightarrow> bool \<times> int \<times> ('w, 'a) ac_monitor_scheme" where
  "monitor_round io ev m =
     (case call_get_events io AC_MONITOR_BLOCK_MS m of (got, el, m1) \<Rightarrow>
        if got < 0 \<and> me_stop ev then (True, 0, m1)
        else
          (let m2 = periodic_step io ev (drain_step ev got el m1)
           in (False, if (got \<noteq> 0 \<or> el_count el = 0) \<and> me_waited_ms ev < int AC_MONITOR_BLOCK_MS then int AC_MONITOR_BLOCK_MS - me_waited_ms ev else 0, m2)))"

text \<open>The loop over the rounds; \<^verbatim>\<open>g_stop\<close> at the loop's head is the end of the list.\<close>

fun monitor_loop :: "'w ac_dio \<Rightarrow> mon_env list \<Rightarrow> ('w, 'a) ac_monitor_scheme \<Rightarrow> ('w, 'a) ac_monitor_scheme" where
  "monitor_loop io [] m = log_at LOG_INFO ''anticheat daemon stopped'' m"
| "monitor_loop io (ev # evs) m =
     (case monitor_round io ev m of (brk, _, m1) \<Rightarrow> if brk then log_at LOG_INFO ''anticheat daemon stopped'' m1 else monitor_loop io evs m1)"

end
