(* ===== verification/Spec2Isabelle.thy ===== *)
theory Spec2Isabelle
  imports AC_Sha256 AC_Ring AC_Text AC_Syscalls AC_Registry AC_Registry_Steps AC_Deferred AC_Handoff AC_Probes AC_Scan AC_Device AC_Lifecycle AC_Baseline AC_Report AC_Elf AC_Client AC_Render AC_Environ AC_Monitor
begin

text \<open>
  Verification of the kernel-anticheat module and its daemon.
\<close>

end
